(* ===== verification/Dns_Prelude.thy ===== *)
theory Dns_Prelude
  imports Main "HOL-Library.Word"
begin

text \<open>
  Shared vocabulary of the development: the machine integer types of the C sources, the result
  type of a C computation (it returns a value, runs into undefined behaviour or does not
  return), bounded memory blocks with the reads and writes the sources perform on them, the
  byte-order conversions of a little-endian host, and the C string functions the sources call.
  The collection \<open>run_simps\<close> carries the rules that execute the model.
\<close>

unbundle bit_operations_syntax

named_theorems run_simps \<open>rules that execute memory accesses of the model\<close>

section \<open>Machine types and C computations\<close>

type_synonym byte = "8 word"
type_synonym u16 = "16 word"
type_synonym u32 = "32 word"

text \<open>
  What a C computation can do instead of returning: access memory outside a block, dereference
  the null pointer, use a block that was freed, read an object that was never written, or end
  the calling thread (\<^verbatim>\<open>pthread_exit\<close>).
\<close>

datatype fault = OutOfBounds | NullDeref | DanglingPointer | Uninitialised | ThreadExit

text \<open>
  \<^term>\<open>Some (Inr x)\<close>: the call returns \<open>x\<close>; \<^term>\<open>Some (Inl e)\<close>: it faults; \<^term>\<open>None\<close>: it
  never returns.
\<close>

type_synonym 'a run = "(fault + 'a) option"

abbreviation ret :: "'a \<Rightarrow> 'a run" where
  "ret x \<equiv> Some (Inr x)"

abbreviation fail :: "fault \<Rightarrow> 'a run" where
  "fail e \<equiv> Some (Inl e)"

definition bind_run :: "'a run \<Rightarrow> ('a \<Rightarrow> 'b run) \<Rightarrow> 'b run" where
  "bind_run m f = Option.bind m (\<lambda>r. case r of Inl e \<Rightarrow> Some (Inl e) | Inr x \<Rightarrow> f x)"

lemma bind_run_simps [simp, run_simps]:
  "bind_run (ret x) f = f x"
  "bind_run (fail e) f = fail e"
  "bind_run None f = None"
  by (simp_all add: bind_run_def)

lemma bind_run_assoc: "bind_run (bind_run m f) g = bind_run m (\<lambda>x. bind_run (f x) g)"
  by (auto simp: bind_run_def split: option.splits sum.splits Option.bind_splits)

lemma bind_run_eq_ret: "bind_run m f = ret y \<longleftrightarrow> (\<exists>x. m = ret x \<and> f x = ret y)"
  by (auto simp: bind_run_def split: sum.splits Option.bind_splits)

lemma bind_run_eq_None: "bind_run m f = None \<longleftrightarrow> m = None \<or> (\<exists>x. m = ret x \<and> f x = None)"
  by (auto simp: bind_run_def split: sum.splits Option.bind_splits)

lemma bind_run_retE [elim!]:
  assumes "bind_run m f = ret y"
  obtains x where "m = ret x" and "f x = ret y"
  using assms by (auto simp: bind_run_eq_ret)

lemma bind_run_cong [fundef_cong]:
  "m = m' \<Longrightarrow> (\<And>x. m' = ret x \<Longrightarrow> f x = f' x) \<Longrightarrow> bind_run m f = bind_run m' f'"
  by (auto simp: bind_run_def split: sum.splits Option.bind_splits)

text \<open>Run the first computation before looking at the rest.\<close>

lemma bind_run_weak_cong: "m = m' \<Longrightarrow> bind_run m f = bind_run m' f"
  by simp

lemma bind_run_mono [partial_function_mono]:
  assumes "mono_option m" and "\<And>x. mono_option (\<lambda>f. g x f)"
  shows "mono_option (\<lambda>f. bind_run (m f) (\<lambda>x. g x f))"
  unfolding bind_run_def
proof (rule bind_mono)
  show "mono_option m" by fact
  fix r :: "fault + 'c"
  show "mono_option (\<lambda>f. case r of Inl e \<Rightarrow> Some (Inl e) | Inr x \<Rightarrow> g x f)"
    using assms(2) by (cases r) (auto intro: option.const_mono)
qed

text \<open>A pointer that may be null, and the value it points to.\<close>

definition deref :: "'a option \<Rightarrow> 'a run" where
  "deref p = (case p of None \<Rightarrow> fail NullDeref | Some x \<Rightarrow> ret x)"

lemma deref_simps [simp, run_simps]:
  "deref (Some x) = ret x"
  "deref None = fail NullDeref"
  by (simp_all add: deref_def)

lemma deref_eq_ret [simp]: "deref p = ret x \<longleftrightarrow> p = Some x"
  by (cases p) auto

lemma deref_neq_None [simp]: "deref p \<noteq> None"
  by (cases p) auto

lemma minus_one_less_uint [simp]: "- 1 < uint w"
  using uint_ge_0 [of w] by linarith

lemma uint_numeral_unat [simp]:
  "uint w \<le> numeral k \<longleftrightarrow> unat w \<le> numeral k" "uint w < numeral k \<longleftrightarrow> unat w < numeral k"
  using of_nat_le_iff [of "unat w" "numeral k", where ?'a = int]
    of_nat_less_iff [of "unat w" "numeral k", where ?'a = int]
  by simp_all

lemma u32_of_nat_eq: "n < 2 ^ 32 \<Longrightarrow> k < 2 ^ 32 \<Longrightarrow> (of_nat n :: u32) = of_nat k \<longleftrightarrow> n = k"
  by (auto dest: arg_cong [where f = unat] simp: unat_of_nat)

lemma sint_u32_of_nat: "n < 2 ^ 31 \<Longrightarrow> sint (of_nat n :: u32) = int n"
  by (simp add: signed_of_nat signed_take_bit_int_eq_self)

section \<open>Memory blocks\<close>

text \<open>
  A block of memory is a list of bytes. A pointer into it is an integer offset from its start,
  so that a pointer that ran off either end can still be formed but not used.
\<close>

type_synonym mem = "byte list"
type_synonym ptr = int

definition rd8 :: "mem \<Rightarrow> ptr \<Rightarrow> byte run" where
  "rd8 m p = (if 0 \<le> p \<and> p < int (length m) then ret (m ! nat p) else fail OutOfBounds)"

text \<open>The source of a \<^verbatim>\<open>memcpy\<close> of \<open>n\<close> bytes.\<close>

definition rd_bytes :: "mem \<Rightarrow> ptr \<Rightarrow> nat \<Rightarrow> byte list run" where
  "rd_bytes m p n =
     (if n = 0 then ret []
      else if 0 \<le> p \<and> p + int n \<le> int (length m) then ret (take n (drop (nat p) m))
      else fail OutOfBounds)"

text \<open>The destination of a \<^verbatim>\<open>memcpy\<close>.\<close>

definition wr_bytes :: "mem \<Rightarrow> ptr \<Rightarrow> byte list \<Rightarrow> mem run" where
  "wr_bytes m p bs =
     (if bs = [] then ret m
      else if 0 \<le> p \<and> p + int (length bs) \<le> int (length m)
      then ret (take (nat p) m @ bs @ drop (nat p + length bs) m)
      else fail OutOfBounds)"

definition wr8 :: "mem \<Rightarrow> ptr \<Rightarrow> byte \<Rightarrow> mem run" where
  "wr8 m p b =
     (if 0 \<le> p \<and> p < int (length m) then ret (m[nat p := b]) else fail OutOfBounds)"

lemma rd8_neq_None [simp]: "rd8 m p \<noteq> None"
  by (simp add: rd8_def)

lemma rd_bytes_neq_None [simp]: "rd_bytes m p n \<noteq> None"
  by (simp add: rd_bytes_def)

lemma wr_bytes_neq_None [simp]: "wr_bytes m p bs \<noteq> None"
  by (simp add: wr_bytes_def)

lemma rd_bytes_length: "rd_bytes m p n = ret bs \<Longrightarrow> length bs = n"
  by (auto simp: rd_bytes_def min_def split: if_splits)

lemma wr8_neq_None [simp]: "wr8 m p b \<noteq> None"
  by (simp add: wr8_def)

lemma wr8_length: "wr8 m p b = ret m' \<Longrightarrow> length m' = length m"
  by (auto simp: wr8_def split: if_splits)

lemma wr_bytes_length: "wr_bytes m p bs = ret m' \<Longrightarrow> length m' = length m"
  by (auto simp: wr_bytes_def split: if_splits)

subsection \<open>Bytes at a place\<close>

text \<open>\<open>holds_at m p bs\<close>: the block contains the bytes \<open>bs\<close> at offset \<open>p\<close>.\<close>

fun holds_at :: "mem \<Rightarrow> ptr \<Rightarrow> byte list \<Rightarrow> bool" where
  "holds_at m p [] \<longleftrightarrow> True"
| "holds_at m p (b # bs) \<longleftrightarrow> rd8 m p = ret b \<and> holds_at m (p + 1) bs"

lemma holds_at_append [simp]:
  "holds_at m p (as @ bs) \<longleftrightarrow> holds_at m p as \<and> holds_at m (p + int (length as)) bs"
  by (induction as arbitrary: p) (auto simp: add.assoc)

lemma holds_at_iff:
  "bs \<noteq> [] \<Longrightarrow> holds_at m p bs \<longleftrightarrow>
     0 \<le> p \<and> p + int (length bs) \<le> int (length m) \<and> take (length bs) (drop (nat p) m) = bs"
proof (induction bs arbitrary: p)
  case Nil
  then show ?case by simp
next
  case (Cons b bs)
  have head: "drop (nat p) m = m ! nat p # drop (Suc (nat p)) m" if "0 \<le> p" "p < int (length m)"
    using that by (intro Cons_nth_drop_Suc [symmetric]) simp
  show ?case
  proof (cases "bs = []")
    case True
    then show ?thesis by (auto simp: rd8_def head)
  next
    case False
    show ?thesis
      using Cons.IH [OF False, of "p + 1"]
      by (auto simp: rd8_def head nat_add_distrib)
  qed
qed

lemma holds_at_bounds:
  "holds_at m p bs \<Longrightarrow> bs \<noteq> [] \<Longrightarrow> 0 \<le> p \<and> p + int (length bs) \<le> int (length m)"
  by (simp add: holds_at_iff)

lemma rd_bytes_holds_at: "holds_at m p bs \<Longrightarrow> rd_bytes m p (length bs) = ret bs"
  by (cases "bs = []") (simp_all add: rd_bytes_def holds_at_iff)

lemma rd_bytes_take: "n \<le> length m \<Longrightarrow> rd_bytes m 0 n = ret (take n m)"
  by (simp add: rd_bytes_def)

lemma wr_bytes_holds_at: "wr_bytes m p bs = ret m' \<Longrightarrow> holds_at m' p bs"
  by (cases "bs = []") (auto simp: wr_bytes_def holds_at_iff split: if_splits)

text \<open>The block after \<open>bs\<close> was copied to offset \<open>p\<close>.\<close>

definition overlay :: "mem \<Rightarrow> ptr \<Rightarrow> byte list \<Rightarrow> mem" where
  "overlay m p bs = take (nat p) m @ bs @ drop (nat p + length bs) m"

definition fits :: "mem \<Rightarrow> ptr \<Rightarrow> nat \<Rightarrow> bool" where
  "fits m p n \<longleftrightarrow> 0 \<le> p \<and> p + int n \<le> int (length m)"

lemma overlay_Nil [simp]: "overlay m p [] = m"
  by (simp add: overlay_def)

lemma length_overlay [simp]: "fits m p (length bs) \<Longrightarrow> length (overlay m p bs) = length m"
  by (auto simp: overlay_def fits_def)

lemma wr_bytes_fits: "fits m p (length bs) \<Longrightarrow> wr_bytes m p bs = ret (overlay m p bs)"
  by (auto simp: wr_bytes_def overlay_def fits_def)

lemma wr8_fits: "fits m p 1 \<Longrightarrow> wr8 m p b = ret (overlay m p [b])"
  by (auto simp: wr8_def overlay_def fits_def upd_conv_take_nth_drop)

lemma wr8_wr_bytes: "wr8 m p b = wr_bytes m p [b]"
  by (auto simp: wr8_def wr_bytes_def upd_conv_take_nth_drop)

lemma wr8_not_fits: "\<not> fits m p 1 \<Longrightarrow> wr8 m p b = fail OutOfBounds"
  by (auto simp: wr8_def fits_def)

lemma wr8_overlay_before:
  assumes "fits m p (Suc (length bs))"
  shows "wr8 (overlay m (p + 1) bs) p b = ret (overlay m p (b # bs))"
proof -
  from assms have p: "0 \<le> p" and f: "fits m (p + 1) (length bs)" by (auto simp: fits_def)
  then have "wr8 (overlay m (p + 1) bs) p b = ret (overlay (overlay m (p + 1) bs) p [b])"
    using assms by (intro wr8_fits) (auto simp: fits_def)
  moreover have "overlay (overlay m (p + 1) bs) p [b] = overlay m p (b # bs)"
    using p assms by (auto simp: overlay_def fits_def nat_add_distrib take_Suc_conv_app_nth min_def)
  ultimately show ?thesis by simp
qed

lemma overlay_append:
  assumes "fits m p (length as + length bs)"
  shows "overlay (overlay m p as) (p + int (length as)) bs = overlay m p (as @ bs)"
  using assms by (auto simp: overlay_def fits_def nat_add_distrib add.commute add.left_commute)

lemma fits_overlay [simp]: "fits m p (length bs) \<Longrightarrow> fits (overlay m p bs) q n = fits m q n"
  by (simp add: fits_def)

lemma holds_at_overlay: "fits m p (length bs) \<Longrightarrow> holds_at (overlay m p bs) p bs"
  by (rule wr_bytes_holds_at) (rule wr_bytes_fits)

lemma holds_at_self [simp]: "holds_at bs 0 bs"
  using holds_at_overlay [of bs 0 bs] by (simp add: fits_def overlay_def)

lemma wr8_then_bytes:
  "bind_run (wr8 m p b) (\<lambda>d. bind_run (wr_bytes d (p + 1) bs) K) = bind_run (wr_bytes m p (b # bs)) K"
proof (cases "fits m p (Suc (length bs))")
  case True
  then have "wr_bytes (overlay m p [b]) (p + 1) bs = ret (overlay m p (b # bs))"
    using overlay_append [of m p "[b]" bs] wr_bytes_fits [of "overlay m p [b]" "p + 1" bs]
    by (simp add: fits_def)
  with True show ?thesis by (simp add: wr8_fits wr_bytes_fits fits_def)
next
  case False
  then show ?thesis by (auto simp: fits_def wr8_def wr_bytes_def)
qed

section \<open>Host and network byte order\<close>

text \<open>
  The sources move integers between memory and registers with \<^verbatim>\<open>memcpy\<close> or a cast and convert
  them with \<^verbatim>\<open>htons\<close>, \<^verbatim>\<open>ntohs\<close>, \<^verbatim>\<open>htonl\<close> and \<^verbatim>\<open>ntohl\<close>. The host is little-endian: loads and stores
  put the low byte first and the conversions reverse the bytes.
\<close>

definition load16 :: "byte \<Rightarrow> byte \<Rightarrow> u16" where
  "load16 b0 b1 = ucast b0 OR push_bit 8 (ucast b1)"

definition store16 :: "u16 \<Rightarrow> byte list" where
  "store16 w = [ucast w, ucast (drop_bit 8 w)]"

definition load32 :: "byte \<Rightarrow> byte \<Rightarrow> byte \<Rightarrow> byte \<Rightarrow> u32" where
  "load32 b0 b1 b2 b3 =
     ucast b0 OR push_bit 8 (ucast b1) OR push_bit 16 (ucast b2) OR push_bit 24 (ucast b3)"

definition store32 :: "u32 \<Rightarrow> byte list" where
  "store32 w =
     [ucast w, ucast (drop_bit 8 w), ucast (drop_bit 16 w), ucast (drop_bit 24 w)]"

definition ntohs :: "u16 \<Rightarrow> u16" where
  "ntohs w = load16 (ucast (drop_bit 8 w)) (ucast w)"

definition ntohl :: "u32 \<Rightarrow> u32" where
  "ntohl w =
     load32 (ucast (drop_bit 24 w)) (ucast (drop_bit 16 w)) (ucast (drop_bit 8 w)) (ucast w)"

abbreviation htons :: "u16 \<Rightarrow> u16" where "htons \<equiv> ntohs"
abbreviation htonl :: "u32 \<Rightarrow> u32" where "htonl \<equiv> ntohl"

section \<open>C strings\<close>

text \<open>\<^verbatim>\<open>strnlen(s, n)\<close> on a block that ends after the listed bytes.\<close>

definition strnlen :: "mem \<Rightarrow> nat \<Rightarrow> nat run" where
  "strnlen s n =
     (let k = length (takeWhile (\<lambda>c. c \<noteq> 0) (take n s))
      in if k = n \<or> k < length s then ret k else fail OutOfBounds)"

text \<open>\<^verbatim>\<open>strncmp(a, b, n)\<close>: it stops at the first difference, at a NUL in both, or after \<open>n\<close>.\<close>

fun strncmp :: "mem \<Rightarrow> mem \<Rightarrow> nat \<Rightarrow> int run" where
  "strncmp [] b n = (if n = 0 then ret 0 else fail OutOfBounds)"
| "strncmp (x # a) [] n = (if n = 0 then ret 0 else fail OutOfBounds)"
| "strncmp (x # a) (y # b) n =
     (if n = 0 then ret 0
      else if x \<noteq> y then ret (if x < y then -1 else 1)
      else if x = 0 then ret 0
      else strncmp a b (n - 1))"

text \<open>\<^verbatim>\<open>memcmp(a, b, n) == 0\<close>: both blocks must have \<open>n\<close> bytes.\<close>

definition memeq :: "mem \<Rightarrow> mem \<Rightarrow> nat \<Rightarrow> bool run" where
  "memeq a b n =
     (if n \<le> length a \<and> n \<le> length b then ret (take n a = take n b) else fail OutOfBounds)"

lemma strnlen_neq_None [simp]: "strnlen s n \<noteq> None"
  by (simp add: strnlen_def Let_def)

lemma strncmp_neq_None [simp]: "strncmp a b n \<noteq> None"
  by (induction a b n rule: strncmp.induct) auto

lemma memeq_neq_None [simp]: "memeq a b n \<noteq> None"
  by (simp add: memeq_def)

text \<open>A NUL-terminated string: no NUL before its end. Its length and its comparisons.\<close>

definition nul_free :: "byte list \<Rightarrow> bool" where
  "nul_free bs \<longleftrightarrow> 0 \<notin> set bs"

lemma nul_free_simps [simp]:
  "nul_free []"
  "nul_free (b # bs) \<longleftrightarrow> b \<noteq> 0 \<and> nul_free bs"
  "nul_free (as @ bs) \<longleftrightarrow> nul_free as \<and> nul_free bs"
  by (auto simp: nul_free_def)

lemma takeWhile_nul_free [simp]: "nul_free bs \<Longrightarrow> takeWhile (\<lambda>c. c \<noteq> 0) (bs @ 0 # rest) = bs"
  by (induction bs) auto

lemma strnlen_cstring:
  assumes "nul_free bs" and "length bs < n"
  shows "strnlen (bs @ 0 # rest) n = ret (length bs)"
proof -
  have "take n (bs @ 0 # rest) = bs @ 0 # take (n - length bs - 1) rest"
    using assms(2) by (cases "n - length bs") auto
  then show ?thesis
    using assms by (simp add: strnlen_def Let_def)
qed

lemma strncmp_cstring:
  assumes "nul_free as" and "nul_free bs" and "length as < n"
  shows "\<exists>c. strncmp (as @ 0 # xs) (bs @ 0 # ys) n = ret c \<and> (c = 0 \<longleftrightarrow> as = bs)"
  using assms
proof (induction as arbitrary: bs n)
  case Nil
  then show ?case by (cases bs) auto
next
  case (Cons a as)
  then show ?case
  proof (cases bs)
    case Nil
    then show ?thesis using Cons.prems by auto
  next
    case (Cons b bs')
    then show ?thesis
      using Cons.IH [of bs' "n - 1"] Cons.prems by auto
  qed
qed

lemma strncmp_cstring_right:
  assumes "nul_free as" and "nul_free bs" and "length bs < n"
  shows "\<exists>c. strncmp (as @ 0 # xs) (bs @ 0 # ys) n = ret c \<and> (c = 0 \<longleftrightarrow> as = bs)"
  using assms
proof (induction bs arbitrary: as n)
  case Nil
  then show ?case by (cases as) auto
next
  case (Cons b bs)
  then show ?case
  proof (cases as)
    case Nil
    then show ?thesis using Cons.prems by auto
  next
    case (Cons a as')
    then show ?thesis using Cons.IH [of as' "n - 1"] Cons.prems by auto
  qed
qed

lemma strncmp_fixed:
  "nul_free as \<Longrightarrow> length as = n \<Longrightarrow> n \<le> length bs \<Longrightarrow>
     \<exists>c. strncmp (as @ xs) bs n = ret c \<and> (c = 0 \<longleftrightarrow> take n bs = as)"
proof (induction as arbitrary: bs n)
  case Nil
  then show ?case by (cases bs; cases xs) auto
next
  case (Cons a as)
  then obtain b bs' where bs: "bs = b # bs'" by (cases bs) auto
  with Cons show ?case
    using Cons.IH [of "n - 1" bs'] by (cases n) auto
qed

section \<open>Byte order round trips\<close>

lemma load16_store16: "store16 w = [b0, b1] \<Longrightarrow> load16 b0 b1 = w"
  unfolding load16_def store16_def by (auto intro!: bit_word_eqI simp: bit_simps)

lemma byte_bits: "\<not> bit (b :: byte) (8 + n)" "\<not> bit b (16 + n)" "\<not> bit b (24 + n)"
  using bit_imp_le_length [of b "8 + n"] bit_imp_le_length [of b "16 + n"]
    bit_imp_le_length [of b "24 + n"] by auto

lemma store16_load16: "store16 (load16 b0 b1) = [b0, b1]"
  unfolding load16_def store16_def
  by (auto intro!: bit_word_eqI simp: bit_simps byte_bits)

lemma load32_bytes:
  "load32 (ucast w) (ucast (drop_bit 8 w)) (ucast (drop_bit 16 w)) (ucast (drop_bit 24 w)) = w"
proof (rule bit_word_eqI)
  fix n assume "n < LENGTH(32)"
  then consider "n < 8" | k where "n = 8 + k" "k < 8" | k where "n = 16 + k" "k < 8"
    | k where "n = 24 + k" "k < 8"
    by (cases "n < 8"; cases "n < 16"; cases "n < 24") (auto simp: not_less le_iff_add)
  then show "bit (load32 (ucast w) (ucast (drop_bit 8 w)) (ucast (drop_bit 16 w))
      (ucast (drop_bit 24 w))) n = bit w n"
    by cases (auto simp: load32_def bit_simps)
qed

lemma load32_store32: "store32 w = [b0, b1, b2, b3] \<Longrightarrow> load32 b0 b1 b2 b3 = w"
  using load32_bytes [of w] by (simp add: store32_def)

lemma store32_load32: "store32 (load32 b0 b1 b2 b3) = [b0, b1, b2, b3]"
  unfolding load32_def store32_def
  by (auto intro!: bit_word_eqI simp: bit_simps byte_bits)

lemma length_store [simp]: "length (store16 w) = 2" "length (store32 v) = 4"
  by (simp_all add: store16_def store32_def)

lemma ntohs_load16: "ntohs (load16 b0 b1) = load16 b1 b0"
  using store16_load16 [of b0 b1] by (simp add: ntohs_def store16_def)

lemma ntohl_load32: "ntohl (load32 b0 b1 b2 b3) = load32 b3 b2 b1 b0"
  using store32_load32 [of b0 b1 b2 b3] by (simp add: ntohl_def store32_def)

lemma ntohs_ntohs [simp]: "ntohs (ntohs w) = w"
  unfolding ntohs_def [of w] ntohs_load16
  by (rule load16_store16) (simp add: store16_def)

lemma ntohl_ntohl [simp]: "ntohl (ntohl w) = w"
  unfolding ntohl_def [of w] ntohl_load32
  by (rule load32_store32) (simp add: store32_def)

end
