(* ===== verification/Job_Queue.thy ===== *)
theory Job_Queue
  imports Dns_Prelude
begin

text \<open>
  The job queue of the thread pool (\<^verbatim>\<open>utils/threadpool.h\<close>, \<^verbatim>\<open>utils/threadpool.c\<close>): a circular array of
  128 job pointers with 8-bit indices. The locale \<open>fifo\<close> states what a bounded first-in-first-out
  queue promises to its client; it is interpreted on the circular array, and the client's
  view (any sequence of additions and removals) is derived once in the locale.
\<close>

section \<open>The circular array\<close>

abbreviation (input) N_THREADS_MAX :: nat where "N_THREADS_MAX \<equiv> 128"

record ('f, 'a) job =
  job_fun :: 'f
  job_arg :: 'a

definition create_job :: "'f \<Rightarrow> 'a \<Rightarrow> ('f, 'a) job option" where
  "create_job f a = Some \<lparr>job_fun = f, job_arg = a\<rparr>"

text \<open>The slots hold pointers: \<^term>\<open>None\<close> is the null pointer.\<close>

record 'j jobqueue =
  queue :: "'j option list"
  q_len :: byte
  q_front :: byte
  q_back :: byte

definition QINDEX_INC :: "byte \<Rightarrow> byte" where
  "QINDEX_INC x = word_of_int ((uint x + 1) mod int N_THREADS_MAX)"

definition queue_init :: "'j jobqueue" where
  "queue_init = \<lparr>queue = replicate N_THREADS_MAX None, q_len = 0, q_front = 0,
     q_back = word_of_nat (N_THREADS_MAX - 1)\<rparr>"

definition queue_push :: "'j jobqueue \<Rightarrow> 'j option \<Rightarrow> (int \<times> 'j jobqueue) run" where
  "queue_push q j =
     (if N_THREADS_MAX \<le> unat (q_len q) then ret (-1, q)
      else
        let b = QINDEX_INC (q_back q) in
        if length (queue q) \<le> unat b then fail OutOfBounds
        else ret (1, q\<lparr>queue := (queue q)[unat b := j], q_len := q_len q + 1, q_back := b\<rparr>))"

definition queue_front :: "'j jobqueue \<Rightarrow> 'j option run" where
  "queue_front q =
     (if q_len q = 0 then ret None
      else if length (queue q) \<le> unat (q_front q) then fail OutOfBounds
      else ret (queue q ! unat (q_front q)))"

definition queue_pop :: "'j jobqueue \<Rightarrow> 'j jobqueue" where
  "queue_pop q =
     (if q_len q = 0 then q else q\<lparr>q_front := QINDEX_INC (q_front q), q_len := q_len q - 1\<rparr>)"

section \<open>What a bounded queue promises\<close>

text \<open>A list as the abstract queue: additions are refused when it holds \<open>n\<close> entries.\<close>

definition fifo_push :: "nat \<Rightarrow> 'e list \<Rightarrow> 'e \<Rightarrow> int \<times> 'e list" where
  "fifo_push n xs x = (if n \<le> length xs then (-1, xs) else (1, xs @ [x]))"

datatype 'e qop = Push 'e | Take
datatype 'e qres = Pushed int | Took 'e | Empty

text \<open>The abstract and the concrete run of a sequence of operations, with their results.\<close>

fun run_fifo :: "nat \<Rightarrow> 'e list \<Rightarrow> 'e qop list \<Rightarrow> 'e qres list \<times> 'e list" where
  "run_fifo n xs [] = ([], xs)"
| "run_fifo n xs (Push x # ops) =
     (let (r, ys) = fifo_push n xs x; (rs, zs) = run_fifo n ys ops in (Pushed r # rs, zs))"
| "run_fifo n [] (Take # ops) = (let (rs, zs) = run_fifo n [] ops in (Empty # rs, zs))"
| "run_fifo n (x # xs) (Take # ops) = (let (rs, zs) = run_fifo n xs ops in (Took x # rs, zs))"

fun run_ops ::
  "('q \<Rightarrow> 'e \<Rightarrow> (int \<times> 'q) run) \<Rightarrow> ('q \<Rightarrow> 'e run) \<Rightarrow> ('q \<Rightarrow> 'q) \<Rightarrow> ('q \<Rightarrow> bool) \<Rightarrow> 'q \<Rightarrow>
     'e qop list \<Rightarrow> ('e qres list \<times> 'q) run"
where
  "run_ops push peek pop is_empty q [] = ret ([], q)"
| "run_ops push peek pop is_empty q (Push x # ops) =
     bind_run (push q x) (\<lambda>(r, q').
     bind_run (run_ops push peek pop is_empty q' ops) (\<lambda>(rs, q''). ret (Pushed r # rs, q'')))"
| "run_ops push peek pop is_empty q (Take # ops) =
     (if is_empty q then
        bind_run (run_ops push peek pop is_empty q ops) (\<lambda>(rs, q'). ret (Empty # rs, q'))
      else
        bind_run (peek q) (\<lambda>x.
        bind_run (run_ops push peek pop is_empty (pop q) ops) (\<lambda>(rs, q'). ret (Took x # rs, q'))))"

locale fifo =
  fixes push :: "'q \<Rightarrow> 'e \<Rightarrow> (int \<times> 'q) run"
    and peek :: "'q \<Rightarrow> 'e run"
    and pop :: "'q \<Rightarrow> 'q"
    and is_empty :: "'q \<Rightarrow> bool"
    and elems :: "'q \<Rightarrow> 'e list"
    and valid :: "'q \<Rightarrow> bool"
    and cap :: nat
  assumes push_ok: "valid q \<Longrightarrow> \<exists>q'. push q x = ret (fst (fifo_push cap (elems q) x), q') \<and>
      elems q' = snd (fifo_push cap (elems q) x) \<and> valid q'"
    and peek_ok: "valid q \<Longrightarrow> elems q \<noteq> [] \<Longrightarrow> peek q = ret (hd (elems q))"
    and pop_ok: "valid q \<Longrightarrow> elems q \<noteq> [] \<Longrightarrow> elems (pop q) = tl (elems q) \<and> valid (pop q)"
    and is_empty_ok: "valid q \<Longrightarrow> is_empty q \<longleftrightarrow> elems q = []"
    and size_ok: "valid q \<Longrightarrow> length (elems q) \<le> cap"
begin

lemma push_room:
  assumes "valid q" and "length (elems q) < cap"
  obtains q' where "push q x = ret (1, q')" "elems q' = elems q @ [x]" "valid q'"
  using push_ok [OF assms(1), of x] assms(2) by (auto simp: fifo_push_def)

lemma push_full:
  assumes "valid q" and "length (elems q) = cap"
  obtains q' where "push q x = ret (-1, q')" "elems q' = elems q" "valid q'"
  using push_ok [OF assms(1), of x] assms(2) by (auto simp: fifo_push_def)

lemma take_first:
  assumes "valid q" and "elems q = x # xs"
  shows "peek q = ret x" "elems (pop q) = xs" "valid (pop q)"
  using peek_ok pop_ok assms by auto

lemma run_ops_refines:
  "valid q \<Longrightarrow> \<exists>q'. run_ops push peek pop is_empty q ops = ret (fst (run_fifo cap (elems q) ops), q') \<and>
     elems q' = snd (run_fifo cap (elems q) ops) \<and> valid q'"
proof (induction ops arbitrary: q)
  case Nil
  then show ?case by simp
next
  case (Cons oper ops)
  show ?case
  proof (cases oper)
    case (Push x)
    from push_ok [OF Cons.prems, of x] obtain q' where
      q': "push q x = ret (fst (fifo_push cap (elems q) x), q')"
        "elems q' = snd (fifo_push cap (elems q) x)" "valid q'"
      by blast
    with Cons.IH [OF q'(3)] Push show ?thesis by (auto simp: split_beta Let_def)
  next
    case Take
    show ?thesis
    proof (cases "elems q")
      case Nil
      with Cons.IH [OF Cons.prems] Cons.prems Take is_empty_ok show ?thesis
        by (auto simp: split_beta Let_def)
    next
      case el: (Cons x xs)
      note first = take_first [OF Cons.prems el]
      from el is_empty_ok [OF Cons.prems] have "\<not> is_empty q" by simp
      with first Cons.IH [OF first(3)] el Take show ?thesis
        by (auto simp: split_beta Let_def)
    qed
  qed
qed

end

section \<open>The circular array is a bounded queue\<close>

definition queue_inv :: "'j jobqueue \<Rightarrow> bool" where
  "queue_inv q \<longleftrightarrow> length (queue q) = N_THREADS_MAX \<and> unat (q_front q) < N_THREADS_MAX \<and>
     unat (q_len q) \<le> N_THREADS_MAX \<and>
     unat (q_back q) = (unat (q_front q) + unat (q_len q) + (N_THREADS_MAX - 1)) mod N_THREADS_MAX"

definition queue_abs :: "'j jobqueue \<Rightarrow> 'j option list" where
  "queue_abs q = map (\<lambda>i. queue q ! ((unat (q_front q) + i) mod N_THREADS_MAX)) [0..<unat (q_len q)]"

lemma unat_QINDEX_INC: "unat (QINDEX_INC x) = (unat x + 1) mod N_THREADS_MAX"
proof -
  have "0 \<le> (uint x + 1) mod 128" "(uint x + 1) mod 128 < 128" by simp_all
  then have "uint (QINDEX_INC x) = (uint x + 1) mod 128"
    by (simp add: QINDEX_INC_def unsigned_of_int take_bit_int_eq_self)
  then show ?thesis
    by (metis nat_mod_as_int of_nat_1 of_nat_add of_nat_numeral uint_nat unat_eq_nat_uint)
qed

lemma length_queue_abs [simp]: "length (queue_abs q) = unat (q_len q)"
  by (simp add: queue_abs_def)

lemma queue_abs_empty_iff [simp]: "queue_abs q = [] \<longleftrightarrow> q_len q = 0"
  by (metis length_0_conv length_queue_abs unat_eq_zero)

lemma queue_inv_init: "queue_inv queue_init" "queue_abs queue_init = []"
  by (simp_all add: queue_inv_def queue_init_def)

lemma queue_push_slot:
  assumes "queue_inv q" and "unat (q_len q) < N_THREADS_MAX"
  shows "unat (QINDEX_INC (q_back q)) = (unat (q_front q) + unat (q_len q)) mod N_THREADS_MAX"
  using assms by (simp add: queue_inv_def unat_QINDEX_INC mod_simps)

lemma unat_len_add: "unat (l :: byte) < 128 \<Longrightarrow> unat (l + 1) = unat l + 1"
  by (simp add: unat_word_ariths)

lemma queue_push_spec:
  assumes "queue_inv q"
  shows "\<exists>q'. queue_push q j = ret (fst (fifo_push N_THREADS_MAX (queue_abs q) j), q') \<and>
    queue_abs q' = snd (fifo_push N_THREADS_MAX (queue_abs q) j) \<and> queue_inv q'"
proof (cases "N_THREADS_MAX \<le> unat (q_len q)")
  case True
  with assms show ?thesis by (simp add: queue_push_def fifo_push_def)
next
  case False
  let ?b = "QINDEX_INC (q_back q)" and ?f = "unat (q_front q)" and ?n = "unat (q_len q)"
  let ?q = "q\<lparr>queue := (queue q)[unat ?b := j], q_len := q_len q + 1, q_back := ?b\<rparr>"
  have slot: "unat ?b = (?f + ?n) mod N_THREADS_MAX"
    using assms False by (intro queue_push_slot) simp_all
  have n: "unat (q_len q + 1) = Suc ?n" using False by (simp add: unat_len_add)
  have neq: "(?f + i) mod N_THREADS_MAX \<noteq> (?f + ?n) mod N_THREADS_MAX" if "i < ?n" for i
  proof
    assume "(?f + i) mod N_THREADS_MAX = (?f + ?n) mod N_THREADS_MAX"
    then have "N_THREADS_MAX dvd (?f + ?n) - (?f + i)" by (metis mod_eq_dvd_iff_nat add_le_mono1
          add.commute less_imp_le that)
    then show False using that False by (auto dest: dvd_imp_le)
  qed
  have "queue_abs ?q = queue_abs q @ [j]"
    using assms neq [symmetric] slot by (simp add: queue_abs_def n queue_inv_def)
  moreover have "queue_inv ?q"
    using assms slot n False by (simp add: queue_inv_def mod_simps)
  ultimately show ?thesis
    using False assms slot by (simp add: queue_push_def fifo_push_def Let_def queue_inv_def)
qed

lemma queue_front_spec:
  assumes "queue_inv q" and "queue_abs q \<noteq> []"
  shows "queue_front q = ret (hd (queue_abs q))"
proof -
  from assms(2) have "0 < unat (q_len q)" by (simp add: unat_gt_0)
  then have "hd (queue_abs q) = queue q ! unat (q_front q)"
    using assms(1) by (simp add: queue_abs_def upt_conv_Cons queue_inv_def)
  with assms show ?thesis by (simp add: queue_front_def queue_inv_def)
qed

lemma index_wrap: "(Suc f mod 128 + k + 127) mod 128 = (f + k) mod (128 :: nat)"
proof -
  have "(Suc f mod 128 + (k + 127)) mod 128 = (Suc f + (k + 127)) mod 128" by (rule mod_add_left_eq)
  also have "Suc f + (k + 127) = (f + k) + 128" by simp
  also have "((f + k) + 128) mod 128 = (f + k) mod 128" by (rule mod_add_self2)
  finally show ?thesis by (simp only: add.assoc)
qed

lemma queue_pop_spec:
  assumes "queue_inv q" and "queue_abs q \<noteq> []"
  shows "queue_abs (queue_pop q) = tl (queue_abs q) \<and> queue_inv (queue_pop q)"
proof -
  from assms(2) have pos: "q_len q \<noteq> 0" by simp
  then have n: "unat (q_len q) = Suc (unat (q_len q - 1))"
    by (metis Suc_pred' unat_gt_0 unat_minus_one)
  have "[0..<Suc k] = 0 # map Suc [0..<k]" for k by (simp add: map_Suc_upt upt_conv_Cons)
  then have "tl (queue_abs q) =
      map (\<lambda>i. queue q ! ((unat (q_front q) + Suc i) mod N_THREADS_MAX)) [0..<unat (q_len q - 1)]"
    by (simp add: queue_abs_def n comp_def del: upt_Suc)
  moreover have "((unat (q_front q) + 1) mod N_THREADS_MAX + i) mod N_THREADS_MAX =
      (unat (q_front q) + Suc i) mod N_THREADS_MAX" for i
    by (simp add: mod_simps)
  moreover have "(Suc (unat (q_front q)) mod 128 + unat (q_len q - 1) + 127) mod 128 =
      (unat (q_front q) + unat (q_len q - 1)) mod 128"
    by (rule index_wrap)
  moreover have "unat (q_back q) = (unat (q_front q) + unat (q_len q - 1)) mod 128"
    using assms(1) by (simp add: queue_inv_def n)
  ultimately show ?thesis
    using assms(1) pos n
    by (simp add: queue_pop_def queue_abs_def queue_inv_def unat_QINDEX_INC)
qed

interpretation jq: fifo queue_push queue_front queue_pop "\<lambda>q. q_len q = 0" queue_abs queue_inv
    N_THREADS_MAX
  by unfold_locales
    (simp_all add: queue_push_spec queue_front_spec queue_pop_spec, simp add: queue_inv_def)

section \<open>Properties\<close>

text \<open>C14: the circular job queue behaves as a first-in-first-out queue of capacity 128: any
  sequence of additions and removals on the initialised queue gives the results it gives on a
  list, without an access outside the array and without wrap-around of its 8-bit length.\<close>

theorem jobqueue_is_fifo:
  "\<exists>q. run_ops queue_push queue_front queue_pop (\<lambda>q. q_len q = 0) queue_init ops =
         ret (fst (run_fifo N_THREADS_MAX [] ops), q) \<and>
       queue_abs q = snd (run_fifo N_THREADS_MAX [] ops) \<and> queue_inv q"
  using jq.run_ops_refines [OF queue_inv_init(1), of ops] by (simp add: queue_inv_init(2))

end
