(* ===== verification/Threadpool.thy ===== *)
theory Threadpool
  imports Job_Queue "HOL-Library.Multiset"
begin

text \<open>
  The thread pool (\<^verbatim>\<open>utils/threadpool.c\<close>). Each worker runs \<^verbatim>\<open>thread_work\<close>; its program counter says
  where in that loop it is. A critical section (between lock and unlock of a mutex, or up to the
  wait on the condition variable) is one step, since no other thread can enter a section of the same
  mutex meanwhile. Waiting threads may also wake up without a signal. The properties hold for
  every interleaving of the workers with the thread that adds jobs.
\<close>

section \<open>State\<close>

abbreviation (input) DEFAULT_N_THREADS :: nat where "DEFAULT_N_THREADS \<equiv> 12"

text \<open>
  \<open>Pulling\<close>: before (re)acquiring \<^verbatim>\<open>job_mutex\<close> to test the queue; \<open>Waiting\<close>: blocked on \<^verbatim>\<open>job_cv\<close>;
  \<open>Fetched\<close>: after \<^verbatim>\<open>pull_job\<close>; \<open>Working\<close>: after decrementing \<^verbatim>\<open>n_threads_free\<close>, calling the job;
  \<open>Finishing\<close>: after the call, before incrementing \<^verbatim>\<open>n_threads_free\<close>.
\<close>

datatype 'j pc = Pulling | Waiting | Fetched "'j option" | Working "'j option" | Finishing

record 'j threadpool =
  threads :: "'j pc list"
  n_threads_free :: byte
  n_threads :: byte
  pool_queue :: "'j jobqueue"

section \<open>Operations\<close>

text \<open>
  The loop of \<^verbatim>\<open>init_threadpool\<close> from index \<open>i\<close> on, with \<open>k\<close> iterations left: \<open>create i\<close> is what
  \<^verbatim>\<open>pthread_create\<close> returns (0, or a positive error number when no thread was made).
\<close>

fun create_threads :: "(nat \<Rightarrow> int) \<Rightarrow> nat \<Rightarrow> nat \<Rightarrow> 'j pc list \<Rightarrow> int \<times> 'j pc list" where
  "create_threads create i 0 ts = (1, ts)"
| "create_threads create i (Suc k) ts =
     (if create i < 0 then (-1, ts)
      else create_threads create (Suc i) k (if create i = 0 then ts @ [Pulling] else ts))"

definition init_threadpool :: "(nat \<Rightarrow> int) \<Rightarrow> int \<times> 'j threadpool" where
  "init_threadpool create =
     (let (r, ts) = create_threads create 0 DEFAULT_N_THREADS [];
          pool = \<lparr>threads = ts, n_threads_free = 0, n_threads = of_nat DEFAULT_N_THREADS,
                  pool_queue = queue_init\<rparr>
      in if r < 0 then (-1, pool) else (1, pool\<lparr>n_threads_free := n_threads pool\<rparr>))"

definition threadpool_add_job :: "'j threadpool \<Rightarrow> 'j option \<Rightarrow> (int \<times> 'j threadpool) run" where
  "threadpool_add_job s j =
     bind_run (queue_push (pool_queue s) j) (\<lambda>(r, q). ret (r, s\<lparr>pool_queue := q\<rparr>))"

text \<open>The critical section of \<^verbatim>\<open>pull_job\<close>: the outer \<^term>\<open>None\<close> of the result means that the thread waits.\<close>

definition pull_job :: "'j jobqueue \<Rightarrow> ('j option \<times> 'j jobqueue) option run" where
  "pull_job q =
     (if q_len q = 0 then ret None
      else bind_run (queue_front q) (\<lambda>j. ret (Some (j, queue_pop q))))"

definition goto :: "nat \<Rightarrow> 'j pc \<Rightarrow> 'j threadpool \<Rightarrow> 'j threadpool" where
  "goto i p s = s\<lparr>threads := (threads s)[i := p]\<rparr>"

definition thread_begin :: "nat \<Rightarrow> 'j option \<Rightarrow> 'j threadpool \<Rightarrow> 'j threadpool" where
  "thread_begin i j s = goto i (Working j) (s\<lparr>n_threads_free := n_threads_free s - 1\<rparr>)"

definition thread_end :: "nat \<Rightarrow> 'j threadpool \<Rightarrow> 'j threadpool" where
  "thread_end i s = goto i Pulling (s\<lparr>n_threads_free := n_threads_free s + 1\<rparr>)"

section \<open>Steps\<close>

text \<open>\<^verbatim>\<open>pthread_cond_signal\<close> wakes one waiting thread, if there is one.\<close>

inductive signal :: "'j threadpool \<Rightarrow> 'j threadpool \<Rightarrow> bool" where
  signal_none: "Waiting \<notin> set (threads s) \<Longrightarrow> signal s s"
| signal_one: "i < length (threads s) \<Longrightarrow> threads s ! i = Waiting \<Longrightarrow> signal s (goto i Pulling s)"

datatype 'j event = Added "'j option" int | Pulled "'j option" | Ran "'j option" | Silent

inductive pool_step :: "'j threadpool \<Rightarrow> 'j event \<Rightarrow> 'j threadpool \<Rightarrow> bool" where
  add: "threadpool_add_job s j = ret (r, s1) \<Longrightarrow> signal s1 s' \<Longrightarrow> pool_step s (Added j r) s'"
| sleep: "i < length (threads s) \<Longrightarrow> threads s ! i = Pulling \<Longrightarrow> pull_job (pool_queue s) = ret None \<Longrightarrow>
    pool_step s Silent (goto i Waiting s)"
| pull: "i < length (threads s) \<Longrightarrow> threads s ! i = Pulling \<Longrightarrow>
    pull_job (pool_queue s) = ret (Some (j, q)) \<Longrightarrow>
    pool_step s (Pulled j) (goto i (Fetched j) (s\<lparr>pool_queue := q\<rparr>))"
| wake: "i < length (threads s) \<Longrightarrow> threads s ! i = Waiting \<Longrightarrow> pool_step s Silent (goto i Pulling s)"
| begin_job: "i < length (threads s) \<Longrightarrow> threads s ! i = Fetched j \<Longrightarrow>
    pool_step s Silent (thread_begin i j s)"
| run_job: "i < length (threads s) \<Longrightarrow> threads s ! i = Working j \<Longrightarrow>
    pool_step s (Ran j) (goto i Finishing s)"
| end_job: "i < length (threads s) \<Longrightarrow> threads s ! i = Finishing \<Longrightarrow>
    (if n_threads_free (thread_end i s) = n_threads (thread_end i s)
     then signal (thread_end i s) s' else s' = thread_end i s) \<Longrightarrow>
    pool_step s Silent s'"

inductive pool_run :: "'j threadpool \<Rightarrow> 'j event list \<Rightarrow> 'j threadpool \<Rightarrow> bool" for s0 where
  run_nil: "pool_run s0 [] s0"
| run_snoc: "pool_run s0 evs s \<Longrightarrow> pool_step s e s' \<Longrightarrow> pool_run s0 (evs @ [e]) s'"

inductive_cases signalE: "signal s s'"
inductive_cases pool_stepE: "pool_step s e s'"

text \<open>The initial state when all threads could be created.\<close>

definition pool_init :: "'j threadpool" where
  "pool_init = snd (init_threadpool (\<lambda>_. 0))"

text \<open>The jobs accepted, fetched and executed in a sequence of events.\<close>

definition accepted :: "'j event list \<Rightarrow> 'j option list" where
  "accepted evs = concat (map (\<lambda>e. case e of Added j r \<Rightarrow> if r = 1 then [j] else [] | _ \<Rightarrow> []) evs)"

definition pulled :: "'j event list \<Rightarrow> 'j option list" where
  "pulled evs = concat (map (\<lambda>e. case e of Pulled j \<Rightarrow> [j] | _ \<Rightarrow> []) evs)"

definition ran :: "'j event list \<Rightarrow> 'j option list" where
  "ran evs = concat (map (\<lambda>e. case e of Ran j \<Rightarrow> [j] | _ \<Rightarrow> []) evs)"

definition in_hand :: "'j pc \<Rightarrow> 'j option multiset" where
  "in_hand p = (case p of Fetched j \<Rightarrow> {#j#} | Working j \<Rightarrow> {#j#} | _ \<Rightarrow> {#})"

definition in_flight :: "'j threadpool \<Rightarrow> 'j option multiset" where
  "in_flight s = sum_list (map in_hand (threads s))"

definition busy :: "'j pc \<Rightarrow> bool" where
  "busy p = (case p of Working j \<Rightarrow> True | Finishing \<Rightarrow> True | _ \<Rightarrow> False)"

definition count_if :: "('a \<Rightarrow> bool) \<Rightarrow> 'a list \<Rightarrow> nat" where
  "count_if P xs = length (filter P xs)"

abbreviation (input) awake :: "'j pc \<Rightarrow> bool" where "awake p \<equiv> p \<noteq> Waiting"

text \<open>
  The invariant: the queue is well-formed, the counter of free threads is exact, and as many
  threads as there are queued jobs (or all of them) are not asleep.
\<close>

definition pool_inv :: "'j threadpool \<Rightarrow> bool" where
  "pool_inv s \<longleftrightarrow> queue_inv (pool_queue s) \<and> length (threads s) = DEFAULT_N_THREADS \<and>
     n_threads s = of_nat DEFAULT_N_THREADS \<and>
     unat (n_threads_free s) + count_if busy (threads s) = DEFAULT_N_THREADS \<and>
     min (length (queue_abs (pool_queue s))) DEFAULT_N_THREADS \<le> count_if awake (threads s)"

section \<open>Lemmas on counting\<close>

lemma goto_simps [simp]:
  "threads (goto i p s) = (threads s)[i := p]"
  "n_threads_free (goto i p s) = n_threads_free s"
  "n_threads (goto i p s) = n_threads s"
  "pool_queue (goto i p s) = pool_queue s"
  by (simp_all add: goto_def)

lemma count_if_update:
  "i < length xs \<Longrightarrow>
     count_if P (xs[i := y]) + (if P (xs ! i) then 1 else 0) = count_if P xs + (if P y then 1 else 0)"
proof (induction xs arbitrary: i)
  case (Cons x xs)
  then show ?case by (cases i) (auto simp: count_if_def)
qed simp

lemma count_if_le: "count_if P xs \<le> length xs"
  by (simp add: count_if_def)

lemma count_if_pos: "i < length xs \<Longrightarrow> P (xs ! i) \<Longrightarrow> 0 < count_if P xs"
  by (auto simp: count_if_def filter_empty_conv)

lemma all_awake: "Waiting \<notin> set ts \<Longrightarrow> count_if awake ts = length ts"
  by (induction ts) (auto simp: count_if_def)

lemma in_flight_update:
  "i < length ts \<Longrightarrow>
     sum_list (map in_hand (ts[i := p])) + in_hand (ts ! i) = sum_list (map in_hand ts) + in_hand p"
proof (induction ts arbitrary: i)
  case (Cons t ts)
  then show ?case by (cases i) (auto simp: ac_simps)
qed simp

section \<open>The invariant\<close>

lemma signal_keeps:
  assumes "signal s s'"
  shows "length (threads s') = length (threads s)" "n_threads_free s' = n_threads_free s"
    "n_threads s' = n_threads s" "pool_queue s' = pool_queue s"
    "count_if busy (threads s') = count_if busy (threads s)" "in_flight s' = in_flight s"
proof -
  have "count_if busy ((threads s)[i := Pulling]) = count_if busy (threads s)"
    "sum_list (map in_hand ((threads s)[i := Pulling])) = sum_list (map in_hand (threads s))"
    if "i < length (threads s)" "threads s ! i = Waiting" for i
    using count_if_update [OF that(1), of busy Pulling] in_flight_update [OF that(1), of Pulling] that(2)
    by (simp_all add: busy_def in_hand_def)
  with assms show "length (threads s') = length (threads s)" "n_threads_free s' = n_threads_free s"
    "n_threads s' = n_threads s" "pool_queue s' = pool_queue s"
    "count_if busy (threads s') = count_if busy (threads s)" "in_flight s' = in_flight s"
    by (auto elim!: signalE simp: in_flight_def)
qed

lemma signal_wakes:
  assumes "signal s s'"
  shows "count_if awake (threads s') = length (threads s') \<or>
    count_if awake (threads s') = Suc (count_if awake (threads s))"
  using assms
proof (cases rule: signal.cases)
  case signal_none
  then show ?thesis by (simp add: all_awake)
next
  case (signal_one i)
  then show ?thesis using count_if_update [of i "threads s" awake Pulling] by simp
qed

lemma signal_awake_mono:
  assumes "signal s s'"
  shows "count_if awake (threads s) \<le> count_if awake (threads s')"
  using signal_wakes [OF assms] count_if_le [of awake "threads s"] signal_keeps(1) [OF assms] by auto

lemma create_threads_ok: "create_threads (\<lambda>_. 0) i k ts = (1, ts @ replicate k Pulling)"
  by (induction k arbitrary: i ts) (simp_all add: replicate_app_Cons_same)

lemma pool_inv_init: "pool_inv pool_init"
  by (simp add: pool_inv_def pool_init_def init_threadpool_def create_threads_ok queue_inv_init
      count_if_def busy_def)

lemma add_job_spec:
  assumes "queue_inv (pool_queue s)"
  obtains r s1 where "threadpool_add_job s j = ret (r, s1)" "queue_inv (pool_queue s1)"
    "threads s1 = threads s" "n_threads_free s1 = n_threads_free s" "n_threads s1 = n_threads s"
    "queue_abs (pool_queue s1) = queue_abs (pool_queue s) @ (if r = 1 then [j] else [])"
    "r = 1 \<or> r = -1"
proof -
  from jq.push_ok [OF assms, of j] obtain q where
    q: "queue_push (pool_queue s) j = ret (fst (fifo_push 128 (queue_abs (pool_queue s)) j), q)"
      "queue_abs q = snd (fifo_push 128 (queue_abs (pool_queue s)) j)" "queue_inv q"
    by blast
  then show ?thesis
    by (intro that [of "fst (fifo_push 128 (queue_abs (pool_queue s)) j)" "s\<lparr>pool_queue := q\<rparr>"])
      (auto simp: threadpool_add_job_def fifo_push_def)
qed

lemma pull_job_spec:
  assumes "queue_inv q"
  shows "pull_job q = ret (case queue_abs q of [] \<Rightarrow> None | j # js \<Rightarrow> Some (j, queue_pop q))"
    and "queue_abs q = j # js \<Longrightarrow> queue_abs (queue_pop q) = js \<and> queue_inv (queue_pop q)"
proof -
  show "pull_job q = ret (case queue_abs q of [] \<Rightarrow> None | j # js \<Rightarrow> Some (j, queue_pop q))"
  proof (cases "queue_abs q")
    case Nil
    then show ?thesis
      using queue_abs_empty_iff [of q] by (simp add: pull_job_def del: queue_abs_empty_iff)
  next
    case (Cons j js)
    then have "q_len q \<noteq> 0" by (metis list.distinct(1) queue_abs_empty_iff)
    with Cons jq.take_first(1) [OF assms Cons] show ?thesis by (simp add: pull_job_def)
  qed
  show "queue_abs q = j # js \<Longrightarrow> queue_abs (queue_pop q) = js \<and> queue_inv (queue_pop q)"
    using jq.take_first(2,3) [OF assms] by blast
qed

lemma pool_inv_update:
  assumes "pool_inv s" and "i < length (threads s)"
    and "busy p \<longleftrightarrow> busy (threads s ! i)" and "p = Waiting \<Longrightarrow> queue_abs (pool_queue s) = []"
  shows "pool_inv (goto i p s)"
  using assms count_if_update [OF assms(2), of busy p] count_if_update [OF assms(2), of awake p]
  by (cases "p = Waiting") (auto simp: pool_inv_def split: if_splits)

lemma pool_inv_signal: "pool_inv s \<Longrightarrow> signal s s' \<Longrightarrow> pool_inv s'"
  using signal_keeps [of s s'] signal_awake_mono [of s s'] by (simp add: pool_inv_def)

lemma pool_inv_add:
  assumes "pool_inv s" and "threadpool_add_job s j = ret (r, s1)" and "signal s1 s'"
  shows "pool_inv s'"
proof -
  from assms(1) have "queue_inv (pool_queue s)" by (simp add: pool_inv_def)
  then obtain r' s2 where add: "threadpool_add_job s j = ret (r', s2)" "queue_inv (pool_queue s2)"
    "threads s2 = threads s" "n_threads_free s2 = n_threads_free s" "n_threads s2 = n_threads s"
    "queue_abs (pool_queue s2) = queue_abs (pool_queue s) @ (if r' = 1 then [j] else [])"
    by (rule add_job_spec)
  with assms(2) have "s2 = s1" by simp
  have "length (queue_abs (pool_queue s1)) \<le> Suc (length (queue_abs (pool_queue s)))"
    using add(6) \<open>s2 = s1\<close> by simp
  with assms(1) add \<open>s2 = s1\<close> signal_keeps [OF assms(3)] signal_wakes [OF assms(3)]
    signal_awake_mono [OF assms(3)]
  show ?thesis by (auto simp: pool_inv_def min_def split: if_splits)
qed

lemma pool_inv_pull:
  assumes "pool_inv s" and "i < length (threads s)" and "threads s ! i = Pulling"
    and "pull_job (pool_queue s) = ret (Some (j, q))"
  shows "pool_inv (goto i (Fetched j) (s\<lparr>pool_queue := q\<rparr>)) \<and>
    queue_abs (pool_queue s) = j # queue_abs q"
proof -
  have inv: "queue_inv (pool_queue s)" using assms(1) by (simp add: pool_inv_def)
  with assms(4) obtain js where js: "queue_abs (pool_queue s) = j # js" "q = queue_pop (pool_queue s)"
    by (auto simp: pull_job_spec(1) split: list.splits)
  with pull_job_spec(2) [OF inv js(1)] have q: "queue_abs q = js" "queue_inv q" by simp_all
  with assms(1) js have "pool_inv (s\<lparr>pool_queue := q\<rparr>)" by (auto simp: pool_inv_def)
  then have "pool_inv (goto i (Fetched j) (s\<lparr>pool_queue := q\<rparr>))"
    using assms(2,3) by (intro pool_inv_update) (simp_all add: busy_def)
  with js q show ?thesis by simp
qed

lemma pool_inv_begin:
  assumes "pool_inv s" and "i < length (threads s)" and "threads s ! i = Fetched j"
  shows "pool_inv (thread_begin i j s)"
proof -
  have "count_if busy ((threads s)[i := Working j]) = Suc (count_if busy (threads s))"
    using count_if_update [OF assms(2), of busy "Working j"] assms(3) by (simp add: busy_def)
  moreover from this have "count_if busy (threads s) < DEFAULT_N_THREADS"
    using count_if_le [of busy "(threads s)[i := Working j]"] assms(1) by (simp add: pool_inv_def)
  then have "unat (n_threads_free s) \<noteq> 0" using assms(1) by (simp add: pool_inv_def)
  then have "unat (n_threads_free s) = Suc (unat (n_threads_free s - 1))"
    by (metis Suc_pred' neq0_conv unat_eq_zero unat_minus_one)
  moreover have "count_if awake ((threads s)[i := Working j]) = count_if awake (threads s)"
    using count_if_update [OF assms(2), of awake "Working j"] assms(3) by simp
  ultimately show ?thesis using assms(1) by (simp add: pool_inv_def thread_begin_def)
qed

lemma pool_inv_end:
  assumes "pool_inv s" and "i < length (threads s)" and "threads s ! i = Finishing"
  shows "pool_inv (thread_end i s)"
proof -
  have "Suc (count_if busy ((threads s)[i := Pulling])) = count_if busy (threads s)"
    using count_if_update [OF assms(2), of busy Pulling] assms(3) by (simp add: busy_def)
  moreover have "unat (n_threads_free s + 1) = Suc (unat (n_threads_free s))"
    using assms(1) by (simp add: pool_inv_def unat_word_ariths)
  moreover have "count_if awake ((threads s)[i := Pulling]) = count_if awake (threads s)"
    using count_if_update [OF assms(2), of awake Pulling] assms(3) by simp
  ultimately show ?thesis using assms(1) by (simp add: pool_inv_def thread_end_def)
qed

lemma pool_step_inv: "pool_step s e s' \<Longrightarrow> pool_inv s \<Longrightarrow> pool_inv s'"
proof (induction rule: pool_step.induct)
  case (sleep i s)
  then have "queue_abs (pool_queue s) = []"
    by (auto simp: pool_inv_def pull_job_def bind_run_eq_ret split: if_splits)
  with sleep show ?case by (intro pool_inv_update) (simp_all add: busy_def)
next
  case (end_job i s s')
  then show ?case using pool_inv_signal pool_inv_end by (auto split: if_splits)
qed (auto simp: pool_inv_add pool_inv_pull pool_inv_begin intro!: pool_inv_update simp: busy_def)

lemma pool_run_inv: "pool_run pool_init evs s \<Longrightarrow> pool_inv s"
  by (induction rule: pool_run.induct) (auto simp: pool_inv_init pool_step_inv)

section \<open>Jobs are neither lost nor duplicated\<close>

lemma event_simps [simp]:
  "accepted [] = []" "accepted (evs @ [e]) = accepted evs @ accepted [e]"
  "accepted [Added j r] = (if r = 1 then [j] else [])" "accepted [Pulled j] = []"
  "accepted [Ran j] = []" "accepted [Silent] = []"
  "pulled [] = []" "pulled (evs @ [e]) = pulled evs @ pulled [e]"
  "pulled [Added j r] = []" "pulled [Pulled j] = [j]" "pulled [Ran j] = []" "pulled [Silent] = []"
  "ran [] = []" "ran (evs @ [e]) = ran evs @ ran [e]"
  "ran [Added j r] = []" "ran [Pulled j] = []" "ran [Ran j] = [j]" "ran [Silent] = []"
  by (simp_all add: accepted_def pulled_def ran_def)

text \<open>What one step does to the queue.\<close>

lemma pool_step_queue:
  assumes "pool_step s e s'" and "pool_inv s"
  shows "queue_abs (pool_queue s) @ accepted [e] = pulled [e] @ queue_abs (pool_queue s')"
  using assms
proof (cases rule: pool_step.cases)
  case (add j r s1)
  from assms(2) have "queue_inv (pool_queue s)" by (simp add: pool_inv_def)
  then show ?thesis
    using add signal_keeps(4) [OF add(3)] by (elim add_job_spec [of s j]) auto
next
  case (pull i j q)
  then show ?thesis using pool_inv_pull [OF assms(2) pull(3-5)] by simp
next
  case (end_job i)
  then show ?thesis
    using signal_keeps(4) [of "thread_end i s" s'] by (auto simp: thread_end_def split: if_splits)
qed (simp_all add: thread_begin_def)

lemma in_flight_goto:
  assumes "i < length (threads s)"
  shows "in_flight (goto i p s) + in_hand (threads s ! i) = in_flight s + in_hand p"
  using in_flight_update [OF assms] by (simp add: in_flight_def)

lemma in_flight_fields [simp]:
  "in_flight (s\<lparr>pool_queue := q\<rparr>) = in_flight s"
  "in_flight (s\<lparr>n_threads_free := n\<rparr>) = in_flight s"
  by (simp_all add: in_flight_def)

text \<open>What one step does to the jobs in the hands of the workers.\<close>

lemma pool_step_flight:
  assumes "pool_step s e s'"
  shows "in_flight s + mset (pulled [e]) = in_flight s' + mset (ran [e])"
  using assms
proof (cases rule: pool_step.cases)
  case (add j r s1)
  then have "threads s1 = threads s" by (auto simp: threadpool_add_job_def)
  with add signal_keeps(6) [OF add(3)] show ?thesis by (simp add: in_flight_def)
next
  case (pull i j q)
  then show ?thesis
    using in_flight_goto [of i "s\<lparr>pool_queue := q\<rparr>" "Fetched j"] by (simp add: in_hand_def)
next
  case (end_job i)
  then have "in_flight (thread_end i s) = in_flight s"
    using in_flight_goto [of i "s\<lparr>n_threads_free := n_threads_free s + 1\<rparr>" Pulling]
    by (simp add: in_hand_def thread_end_def)
  with end_job signal_keeps(6) [of "thread_end i s" s'] show ?thesis by (auto split: if_splits)
next
  case (begin_job i j)
  then show ?thesis
    using in_flight_goto [of i "s\<lparr>n_threads_free := n_threads_free s - 1\<rparr>" "Working j"]
    by (simp add: in_hand_def thread_begin_def)
next
  case (sleep i)
  then show ?thesis using in_flight_goto [of i s Waiting] by (simp add: in_hand_def)
next
  case (wake i)
  then show ?thesis using in_flight_goto [of i s Pulling] by (simp add: in_hand_def)
next
  case (run_job i j)
  then show ?thesis using in_flight_goto [of i s Finishing] by (simp add: in_hand_def)
qed

lemma pool_run_queue:
  "pool_run pool_init evs s \<Longrightarrow> accepted evs = pulled evs @ queue_abs (pool_queue s)"
proof (induction rule: pool_run.induct)
  case run_nil
  then show ?case
    by (simp add: pool_init_def init_threadpool_def create_threads_ok queue_inv_init(2))
next
  case (run_snoc evs s e s')
  then have "accepted evs @ accepted [e] = pulled evs @ (queue_abs (pool_queue s) @ accepted [e])"
    by simp
  also have "\<dots> = pulled evs @ pulled [e] @ queue_abs (pool_queue s')"
    using pool_step_queue [OF run_snoc.hyps(2) pool_run_inv [OF run_snoc.hyps(1)]] by simp
  finally show ?case by simp
qed

lemma pool_run_flight: "pool_run pool_init evs s \<Longrightarrow> mset (pulled evs) = mset (ran evs) + in_flight s"
proof (induction rule: pool_run.induct)
  case run_nil
  have "sum_list (replicate k ({#} :: 'a option multiset)) = {#}" for k by (induction k) auto
  then show ?case
    by (simp add: pool_init_def init_threadpool_def create_threads_ok in_flight_def in_hand_def)
next
  case (run_snoc evs s e s')
  with pool_step_flight [OF run_snoc.hyps(2)] show ?case by (simp add: ac_simps)
qed

section \<open>Progress\<close>

lemma signal_total: "\<exists>s'. signal s s'"
  using signal_none signal_one by (metis in_set_conv_nth)

lemma signal_other:
  assumes "signal s s'" and "i < length (threads s)" and "threads s ! i \<noteq> Waiting"
  shows "threads s' ! i = threads s ! i"
  using assms by (auto elim!: signalE simp: nth_list_update)

lemma pool_run_Cons:
  assumes "pool_run s1 evs s'" and "pool_step s e s1"
  shows "pool_run s (e # evs) s'"
  using assms(1)
proof (induction rule: pool_run.induct)
  case run_nil
  show ?case using pool_run.run_snoc [OF pool_run.run_nil assms(2)] by simp
next
  case (run_snoc evs s2 e2 s3)
  then show ?case using pool_run.run_snoc [of s "e # evs" s2 e2 s3] by simp
qed

definition startable :: "'j threadpool \<Rightarrow> 'j option \<Rightarrow> bool" where
  "startable s j \<longleftrightarrow> (\<exists>evs s'. pool_run s evs s' \<and> accepted evs = [] \<and> pulled evs = [j])"

lemma accepted_Cons: "accepted (e # evs) = accepted [e] @ accepted evs"
  and pulled_Cons: "pulled (e # evs) = pulled [e] @ pulled evs"
  by (simp_all add: accepted_def pulled_def)

lemma startable_step:
  assumes "pool_step s e s1" and "accepted [e] = []" and "pulled [e] = []" and "startable s1 j"
  shows "startable s j"
proof -
  from assms(4) obtain evs s' where "pool_run s1 evs s'" "accepted evs = []" "pulled evs = [j]"
    by (auto simp: startable_def)
  then have "pool_run s (e # evs) s' \<and> accepted (e # evs) = [] \<and> pulled (e # evs) = [j]"
    using assms(1-3) accepted_Cons [of e evs] pulled_Cons [of e evs] by (auto intro: pool_run_Cons)
  then show ?thesis unfolding startable_def by blast
qed

lemma startable_pulling:
  assumes "queue_inv (pool_queue s)" and "queue_abs (pool_queue s) = j # js"
    and "i < length (threads s)" and "threads s ! i = Pulling"
  shows "startable s j"
proof -
  have "pull_job (pool_queue s) = ret (Some (j, queue_pop (pool_queue s)))"
    using pull_job_spec(1) [OF assms(1)] assms(2) by simp
  then have "pool_step s (Pulled j) (goto i (Fetched j) (s\<lparr>pool_queue := queue_pop (pool_queue s)\<rparr>))"
    using assms(3,4) by (rule pool_step.pull [rotated 2])
  from pool_run.run_snoc [OF pool_run.run_nil this] show ?thesis
    unfolding startable_def by fastforce
qed

lemma startable_finishing:
  assumes "queue_inv (pool_queue s)" and "queue_abs (pool_queue s) = j # js"
    and "i < length (threads s)" and "threads s ! i = Finishing"
  shows "startable s j"
proof -
  let ?t = "thread_end i s"
  obtain s' where s': "signal ?t s'" using signal_total by blast
  define u where "u = (if n_threads_free ?t = n_threads ?t then s' else ?t)"
  have "pool_step s Silent u"
    using assms(3,4) s' by (intro pool_step.end_job [of i]) (simp_all add: u_def)
  moreover have "threads ?t ! i = Pulling" "length (threads ?t) = length (threads s)"
    "pool_queue ?t = pool_queue s"
    using assms(3) by (simp_all add: thread_end_def)
  then have "threads u ! i = Pulling" "pool_queue u = pool_queue s" "i < length (threads u)"
    using signal_other [OF s', of i] signal_keeps [OF s'] assms(3) by (auto simp: u_def)
  then have "startable u j" using assms(1,2) by (intro startable_pulling) simp_all
  ultimately show ?thesis using startable_step [of s Silent u j] by simp
qed

lemma startable_working:
  assumes "queue_inv (pool_queue s)" and "queue_abs (pool_queue s) = j # js"
    and "i < length (threads s)" and "threads s ! i = Working k"
  shows "startable s j"
proof (rule startable_step)
  show "pool_step s (Ran k) (goto i Finishing s)" using assms(3,4) by (rule pool_step.run_job)
  show "startable (goto i Finishing s) j"
    using assms by (intro startable_finishing [of _ _ js i]) simp_all
qed simp_all

lemma startable_awake:
  assumes "queue_inv (pool_queue s)" and "queue_abs (pool_queue s) = j # js"
    and "i < length (threads s)" and "threads s ! i \<noteq> Waiting"
  shows "startable s j"
proof (cases "threads s ! i")
  case (Fetched k)
  show ?thesis
  proof (rule startable_step)
    show "pool_step s Silent (thread_begin i k s)" using assms(3) Fetched by (rule pool_step.begin_job)
    show "startable (thread_begin i k s) j"
      using assms by (intro startable_working [of _ _ js i k]) (simp_all add: thread_begin_def)
  qed simp_all
qed (use assms startable_pulling startable_finishing startable_working in auto)

lemma awake_worker:
  assumes "pool_inv s" and "queue_abs (pool_queue s) \<noteq> []"
  shows "\<exists>i < length (threads s). threads s ! i \<noteq> Waiting"
proof -
  have "0 < length (queue_abs (pool_queue s))" using assms(2) by (simp only: length_greater_0_conv simp_thms)
  then have "0 < count_if awake (threads s)"
    using assms(1) unfolding pool_inv_def by linarith
  then have "\<exists>t \<in> set (threads s). t \<noteq> Waiting" by (auto simp: count_if_def filter_empty_conv)
  then show ?thesis by (metis in_set_conv_nth)
qed

section \<open>Properties\<close>

lemma sample_run:
  "\<exists>s. pool_run pool_init [Added (Some (3 :: nat)) 1] s \<and> queue_abs (pool_queue s) = [Some 3]"
proof -
  let ?s = "pool_init :: nat threadpool"
  have q: "queue_inv (pool_queue ?s)" "queue_abs (pool_queue ?s) = []" "threads ?s = replicate 12 Pulling"
    by (simp_all add: pool_init_def init_threadpool_def create_threads_ok queue_inv_init)
  have "length (queue_abs (pool_queue ?s)) < 128" by (subst q(2)) simp
  then obtain q' where "queue_push (pool_queue ?s) (Some 3) = ret (1, q')"
    "queue_abs q' = queue_abs (pool_queue ?s) @ [Some 3]"
    by (rule jq.push_room [OF q(1)])
  then have "queue_push (pool_queue ?s) (Some 3) = ret (1, q')" "queue_abs q' = [Some 3]"
    by (simp_all only: q(2) append_Nil)
  moreover have "signal (?s\<lparr>pool_queue := q'\<rparr>) (?s\<lparr>pool_queue := q'\<rparr>)"
    by (rule signal_none) (simp add: q)
  ultimately have "pool_step ?s (Added (Some 3) 1) (?s\<lparr>pool_queue := q'\<rparr>)"
    by (intro pool_step.add) (simp_all add: threadpool_add_job_def)
  from pool_run.run_snoc [OF pool_run.run_nil this] \<open>queue_abs q' = [Some 3]\<close> show ?thesis
    by (intro exI [of _ "?s\<lparr>pool_queue := q'\<rparr>"]) simp
qed

text \<open>C13: in every interleaving of the workers and the thread that adds jobs, the accepted jobs are
  the fetched jobs, in the same order, followed by those still queued; and every fetched job is
  executed once or still in the hands of one worker. No job is lost, duplicated or overtaken.\<close>

theorem pool_exactly_once:
  assumes "pool_run pool_init evs s"
  shows "accepted evs = pulled evs @ queue_abs (pool_queue s) \<and>
    mset (pulled evs) = mset (ran evs) + in_flight s"
  using pool_run_queue [OF assms] pool_run_flight [OF assms] by simp

theorem pool_exactly_once_witness:
  "\<exists>s. pool_run pool_init [Added (Some (3 :: nat)) 1] s \<and>
     [Some 3] = queue_abs (pool_queue s) \<and> in_flight s = {#}"
proof -
  obtain s where "pool_run pool_init [Added (Some (3 :: nat)) 1] s" using sample_run by blast
  with pool_exactly_once [OF this] show ?thesis by auto
qed

text \<open>C22: no wake-up is lost: whenever jobs are queued, as many workers as there are jobs (or all of
  them) are not asleep, and the first job can be fetched by steps of the workers alone.\<close>

theorem pool_no_lost_wakeup:
  assumes "pool_run pool_init evs s" and "queue_abs (pool_queue s) = j # js"
  shows "min (length (j # js)) DEFAULT_N_THREADS \<le> count_if awake (threads s) \<and>
    (\<exists>evs' s'. pool_run s evs' s' \<and> accepted evs' = [] \<and> pulled evs' = [j])"
proof -
  have inv: "pool_inv s" using assms(1) by (rule pool_run_inv)
  then obtain i where "i < length (threads s)" "threads s ! i \<noteq> Waiting"
    using awake_worker [of s] assms(2) by auto
  then have "startable s j"
    using inv assms(2) startable_awake [of s j js i] by (simp add: pool_inv_def)
  with inv assms(2) show ?thesis unfolding startable_def pool_inv_def by simp
qed

theorem pool_no_lost_wakeup_witness:
  "\<exists>s evs' s'. pool_run pool_init [Added (Some (3 :: nat)) 1] s \<and> pool_run s evs' s' \<and>
     pulled evs' = [Some 3]"
proof -
  obtain s where "pool_run pool_init [Added (Some (3 :: nat)) 1] s"
    "queue_abs (pool_queue s) = [Some 3]" using sample_run by blast
  with pool_no_lost_wakeup [OF this] show ?thesis by blast
qed

text \<open>The 8-bit counter of free threads never wraps: in every reachable state it is the number of
  threads minus those between its decrement and its increment.\<close>

lemma pool_free_counter:
  assumes "pool_run pool_init evs s"
  shows "unat (n_threads_free s) + count_if busy (threads s) = DEFAULT_N_THREADS"
  using pool_run_inv [OF assms] by (simp add: pool_inv_def)

text \<open>When \<^verbatim>\<open>pthread_create\<close> fails it returns a positive number, which \<^verbatim>\<open>init_threadpool\<close> does not
  notice: with every creation failing it still reports success and twelve free threads.\<close>

lemma init_threadpool_ignores_errors:
  assumes "\<forall>i. 0 < create i"
  shows "init_threadpool create = (1, \<lparr>threads = [] :: 'j pc list, n_threads_free = of_nat DEFAULT_N_THREADS,
    n_threads = of_nat DEFAULT_N_THREADS, pool_queue = queue_init\<rparr>)"
proof -
  have "create_threads create i k [] = (1, [] :: 'j pc list)" for i k
  proof (induction k arbitrary: i)
    case (Suc k)
    have "0 < create i" using assms by simp
    then show ?case using Suc.IH [of "Suc i"] by simp
  qed simp
  then show ?thesis by (simp add: init_threadpool_def)
qed

end
