(* ===== verification/Domain_Names.thy ===== *)
theory Domain_Names
  imports Dns_Prelude
begin

text \<open>
  Domain names in wire format (\<^verbatim>\<open>storage/message.c\<close>): the length check \<^verbatim>\<open>domain_len\<close>, the
  decompressing reader \<^verbatim>\<open>read_domain\<close> with its recursive treatment of compression pointers, and
  the label reversal \<^verbatim>\<open>domain_rev\<close> that turns a name into a key of the bucket tree. The
  specifications are \<open>rfc_name\<close> (what a compressed name in a packet denotes) and the encoding
  \<open>enc_name\<close> of a list of labels; \<open>name_at\<close> describes the bytes the reader visits.
\<close>

section \<open>Constants and the length check\<close>

abbreviation (input) DOMAIN_LEN_MAX :: int where "DOMAIN_LEN_MAX \<equiv> 255"
abbreviation (input) DOMAIN_BUF_LEN :: nat where "DOMAIN_BUF_LEN \<equiv> 512"
abbreviation (input) RR_BUF_SIZE :: nat where "RR_BUF_SIZE \<equiv> 512"

definition domain_len :: "mem option \<Rightarrow> int run" where
  "domain_len domain =
     bind_run (deref domain) (\<lambda>s.
     bind_run (strnlen s DOMAIN_BUF_LEN) (\<lambda>k.
     let result = int k + 1
     in ret (if result > DOMAIN_LEN_MAX then -1 else result)))"

section \<open>Reading a possibly compressed name\<close>

text \<open>The top two bits of a byte mark a compression pointer.\<close>

definition is_pointer :: "byte \<Rightarrow> bool" where
  "is_pointer c \<longleftrightarrow> (drop_bit 6 c AND 3) = 3"

definition pointer_target :: "byte \<Rightarrow> byte \<Rightarrow> ptr" where
  "pointer_target c c1 = uint (((push_bit 8 (ucast c) OR ucast c1) :: u16) AND 0x3FFF)"

text \<open>
  The loop of \<^verbatim>\<open>read_domain\<close>: \<open>src\<close> is the read position in the packet \<open>base\<close>, \<open>di\<close> the write
  position in \<open>dest\<close>, \<open>blen\<close> the variable \<^verbatim>\<open>buf_domain_len\<close> and \<open>off\<close> the value behind
  \<^verbatim>\<open>_offset\<close>. A pointer starts a recursive read at its target (with its own length and offset)
  and then leaves the loop. Pointer chains need not end, so the call may not return.
\<close>

partial_function (option) read_domain_loop ::
  "mem \<Rightarrow> ptr \<Rightarrow> mem \<Rightarrow> ptr \<Rightarrow> int \<Rightarrow> int \<Rightarrow> (int \<times> mem \<times> int) run" where
  "read_domain_loop base src dest di blen off =
     bind_run (rd8 base src) (\<lambda>c.
     if c = 0 then ret (blen, dest, off + 1)
     else if is_pointer c then
       bind_run (rd8 base (src + 1)) (\<lambda>c1.
       bind_run (read_domain_loop base (pointer_target c c1) dest di 1 0) (\<lambda>r.
       case r of (n, dest', _) \<Rightarrow>
         let dlen = n - 1 in ret (blen + dlen, dest', off + 1 + 1)))
     else
       bind_run (wr8 dest di c) (\<lambda>dest'.
       read_domain_loop base (src + 1) dest' (di + 1) (blen + 1) (off + 1)))"

declare read_domain_loop.simps [code]

definition read_domain :: "mem \<Rightarrow> ptr \<Rightarrow> mem \<Rightarrow> ptr \<Rightarrow> int \<Rightarrow> (int \<times> mem \<times> int) run" where
  "read_domain base src dest di off = read_domain_loop base src dest di 1 off"

section \<open>Reversing the labels of a name\<close>

text \<open>First loop of \<^verbatim>\<open>domain_rev\<close>: push each label, then its length, on the stack.\<close>

function domain_rev_push :: "mem \<Rightarrow> ptr \<Rightarrow> mem \<Rightarrow> int \<Rightarrow> (mem \<times> int) run" where
  "domain_rev_push src p stack sptr =
     bind_run (rd8 src p) (\<lambda>n.
     if n = 0 then ret (stack, sptr)
     else
       bind_run (rd_bytes src (p + 1) (unat n)) (\<lambda>bs.
       bind_run (wr_bytes stack sptr bs) (\<lambda>stack1.
       bind_run (wr8 stack1 (sptr + uint n) n) (\<lambda>stack2.
       domain_rev_push src (p + uint n + 1) stack2 (sptr + uint n + 1)))))"
  by pat_completeness auto
termination
proof (relation "measure (\<lambda>(src, p, stack, sptr). nat (int (length src) - p))")
  fix src :: mem and p :: ptr and n :: byte and stack stack2 :: mem and sptr :: int
  assume "rd8 src p = ret n"
  then have "p < int (length src)" by (auto simp: rd8_def split: if_splits)
  then show "((src, p + uint n + 1, stack2, sptr + uint n + 1), src, p, stack, sptr)
      \<in> measure (\<lambda>(src, p, stack, sptr). nat (int (length src) - p))"
    by simp
qed simp

text \<open>Second loop: pop the labels, last one first.\<close>

function domain_rev_pop :: "mem \<Rightarrow> int \<Rightarrow> mem \<Rightarrow> ptr \<Rightarrow> (mem \<times> ptr) run" where
  "domain_rev_pop stack sptr dest dp =
     (if sptr > 0 then
        bind_run (rd8 stack sptr) (\<lambda>n.
        if n = 0 then ret (dest, dp)
        else
          bind_run (rd_bytes stack (sptr - uint n) (unat n)) (\<lambda>bs.
          bind_run (wr_bytes dest (dp + 1) bs) (\<lambda>dest1.
          bind_run (wr8 dest1 dp n) (\<lambda>dest2.
          domain_rev_pop stack (sptr - (uint n + 1)) dest2 (dp + uint n + 1)))))
      else ret (dest, dp))"
  by pat_completeness auto
termination
  by (relation "measure (\<lambda>(stack, sptr, dest, dp). nat sptr)") (auto simp: add.commute)

declare domain_rev_push.simps [simp del] domain_rev_pop.simps [simp del]

definition domain_rev :: "mem \<Rightarrow> mem \<Rightarrow> mem run" where
  "domain_rev dest src =
     bind_run (domain_rev_push src 0 (replicate DOMAIN_BUF_LEN 0) 0) (\<lambda>(stack, sptr).
     bind_run (domain_rev_pop stack (sptr - 1) dest 0) (\<lambda>(dest1, dp).
     wr8 dest1 dp 0))"

section \<open>Specifications\<close>

text \<open>
  \<open>name_at base p bs n\<close>: a walk over the packet from \<open>p\<close> that takes bytes below 0xC0 as they come and follows the others
  meets a zero byte after the bytes \<open>bs\<close>; \<open>n\<close> bytes at \<open>p\<close> belong to it. This is what the code does, whatever the bytes
  mean; \<open>rfc_name\<close> below says what a name is.
\<close>

inductive name_at :: "mem \<Rightarrow> ptr \<Rightarrow> byte list \<Rightarrow> nat \<Rightarrow> bool" for base :: mem where
  name_end: "rd8 base p = ret 0 \<Longrightarrow> name_at base p [] 1"
| name_byte: "rd8 base p = ret c \<Longrightarrow> c \<noteq> 0 \<Longrightarrow> \<not> is_pointer c \<Longrightarrow>
    name_at base (p + 1) bs n \<Longrightarrow> name_at base p (c # bs) (Suc n)"
| name_pointer: "rd8 base p = ret c \<Longrightarrow> c \<noteq> 0 \<Longrightarrow> is_pointer c \<Longrightarrow> rd8 base (p + 1) = ret c1 \<Longrightarrow>
    name_at base (pointer_target c c1) bs n \<Longrightarrow> name_at base p bs 2"

inductive_cases name_at_ConsE: "name_at base p (c # bs) n"
inductive_cases name_at_NilE: "name_at base p [] n"

text \<open>Every compression pointer of the packet points strictly before itself.\<close>

definition backward_pointers :: "mem \<Rightarrow> bool" where
  "backward_pointers base \<longleftrightarrow>
     (\<forall>p < length base. Suc p < length base \<longrightarrow> is_pointer (base ! p) \<longrightarrow>
        pointer_target (base ! p) (base ! Suc p) < int p)"

text \<open>Labels, and the wire encoding of a list of labels.\<close>

type_synonym label = "byte list"

definition enc_label :: "label \<Rightarrow> byte list" where
  "enc_label l = of_nat (length l) # l"

definition enc_labels :: "label list \<Rightarrow> byte list" where
  "enc_labels ls = concat (map enc_label ls)"

definition enc_name :: "label list \<Rightarrow> byte list" where
  "enc_name ls = enc_labels ls @ [0]"

definition wf_label :: "label \<Rightarrow> bool" where
  "wf_label l \<longleftrightarrow> l \<noteq> [] \<and> length l < 256"

text \<open>
  Names as RFC 1035 (4.1.4) describes them: the root, a label of 1 to 63 bytes behind its length followed by the rest of
  the name, or two bytes from 0xC000 on that give the offset at which the rest of the name is found.
\<close>

inductive rfc_name :: "mem \<Rightarrow> ptr \<Rightarrow> label list \<Rightarrow> nat \<Rightarrow> bool" for base :: mem where
  rfc_root: "holds_at base p [0] \<Longrightarrow> rfc_name base p [] 1"
| rfc_label: "l \<noteq> [] \<Longrightarrow> length l < 64 \<Longrightarrow> holds_at base p (enc_label l) \<Longrightarrow>
    rfc_name base (p + int (Suc (length l))) ls n \<Longrightarrow> rfc_name base p (l # ls) (Suc (length l) + n)"
| rfc_pointer: "holds_at base p [c, c1] \<Longrightarrow> 192 \<le> unat c \<Longrightarrow>
    rfc_name base (int (256 * (unat c - 192) + unat c1)) ls n \<Longrightarrow> rfc_name base p ls 2"

text \<open>The bytes of a label that the code reads as such.\<close>

definition low_label :: "label \<Rightarrow> bool" where
  "low_label l \<longleftrightarrow> (\<forall>b \<in> set l. b \<noteq> 0 \<and> unat b < 192)"

section \<open>The bytes the reader visits\<close>

lemma name_at_positive: "name_at base p bs n \<Longrightarrow> 0 < n"
  by (induction rule: name_at.induct) auto

lemma name_at_deterministic:
  "name_at base p bs n \<Longrightarrow> name_at base p bs' n' \<Longrightarrow> bs' = bs \<and> n' = n"
proof (induction arbitrary: bs' n' rule: name_at.induct)
  case (name_end p)
  from name_end.prems show ?case
    by (cases rule: name_at.cases) (simp_all add: name_end.hyps)
next
  case (name_byte p c bs n)
  from name_byte.prems show ?case
  proof (cases rule: name_at.cases)
    case (name_byte c' cs m)
    with \<open>rd8 base p = ret c\<close> show ?thesis using name_byte.IH [of cs m] by simp
  qed (use name_byte.hyps in auto)
next
  case (name_pointer p c c1 bs n)
  from name_pointer.prems show ?case
  proof (cases rule: name_at.cases)
    case (name_pointer c' c1' m)
    with \<open>rd8 base p = ret c\<close> \<open>rd8 base (p + 1) = ret c1\<close> show ?thesis
      using name_pointer.IH [of bs' m] by simp
  qed (use name_pointer.hyps in auto)
qed

lemma read_domain_loop_name:
  "name_at base p bs n \<Longrightarrow> fits dest di (length bs) \<Longrightarrow>
     read_domain_loop base p dest di blen off =
       ret (blen + int (length bs), overlay dest di bs, off + int n)"
proof (induction arbitrary: dest di blen off rule: name_at.induct)
  case (name_end p)
  then show ?case by (subst read_domain_loop.simps) simp
next
  case (name_byte p c bs n)
  from name_byte.prems have one: "fits dest di 1" and rest: "fits dest (di + 1) (length bs)"
    by (auto simp: fits_def)
  have "overlay (overlay dest di [c]) (di + 1) bs = overlay dest di (c # bs)"
    using overlay_append [of dest di "[c]" bs] name_byte.prems by simp
  with name_byte.hyps name_byte.IH [of "overlay dest di [c]" "di + 1" "blen + 1" "off + 1"] one rest
  show ?case by (subst read_domain_loop.simps) (simp add: wr8_fits)
next
  case (name_pointer p c c1 bs n)
  then show ?case by (subst read_domain_loop.simps) simp
qed

lemma read_domain_loop_overflow:
  "name_at base p bs n \<Longrightarrow> 0 \<le> di \<Longrightarrow> di \<le> int (length dest) \<Longrightarrow> \<not> fits dest di (length bs) \<Longrightarrow>
     read_domain_loop base p dest di blen off = fail OutOfBounds"
proof (induction arbitrary: dest di blen off rule: name_at.induct)
  case (name_end p)
  then show ?case by (simp add: fits_def)
next
  case (name_byte p c bs n)
  show ?case
  proof (cases "fits dest di 1")
    case True
    then have "read_domain_loop base (p + 1) (overlay dest di [c]) (di + 1) (blen + 1) (off + 1)
        = fail OutOfBounds"
      using name_byte.prems by (intro name_byte.IH) (auto simp: fits_def)
    with True name_byte.hyps show ?thesis
      by (subst read_domain_loop.simps) (simp add: wr8_fits)
  next
    case False
    with name_byte.hyps show ?thesis
      by (subst read_domain_loop.simps) (simp add: wr8_not_fits)
  qed
next
  case (name_pointer p c c1 bs n)
  then show ?case by (subst read_domain_loop.simps) simp
qed

lemma read_domain_loop_sound:
  assumes "read_domain_loop base p dest di blen off = Some r"
  shows "case r of Inl e \<Rightarrow> True | Inr (k, dest', off') \<Rightarrow>
     \<exists>bs n. name_at base p bs n \<and> (bs = [] \<or> fits dest di (length bs)) \<and>
       k = blen + int (length bs) \<and> dest' = overlay dest di bs \<and> off' = off + int n"
proof (rule read_domain_loop.raw_induct [OF _ assms, where
    P = "\<lambda>base p dest di blen off r. case r of Inl e \<Rightarrow> True | Inr (k, dest', off') \<Rightarrow>
       \<exists>bs n. name_at base p bs n \<and> (bs = [] \<or> fits dest di (length bs)) \<and>
         k = blen + int (length bs) \<and> dest' = overlay dest di bs \<and> off' = off + int n"])
  fix f and base :: mem and p :: ptr and dest :: mem and di :: ptr and blen off :: int and r
  let ?Q = "\<lambda>base p dest di blen off r. case r of Inl e \<Rightarrow> True | Inr (k, dest', off') \<Rightarrow>
       \<exists>bs n. name_at base p bs n \<and> (bs = [] \<or> fits dest di (length bs)) \<and>
         k = blen + int (length bs) \<and> dest' = overlay dest di bs \<and> off' = off + int n"
  assume IH: "\<And>base p dest di blen off r. f base p dest di blen off = Some r \<Longrightarrow>
      ?Q base p dest di blen off r"
    and eq: "bind_run (rd8 base p) (\<lambda>c.
     if c = 0 then ret (blen, dest, off + 1)
     else if is_pointer c then
       bind_run (rd8 base (p + 1)) (\<lambda>c1.
       bind_run (f base (pointer_target c c1) dest di 1 0) (\<lambda>r.
       case r of (n, dest', _) \<Rightarrow>
         let dlen = n - 1 in ret (blen + dlen, dest', off + 1 + 1)))
     else
       bind_run (wr8 dest di c) (\<lambda>dest'.
       f base (p + 1) dest' (di + 1) (blen + 1) (off + 1))) = Some r"
  show "?Q base p dest di blen off r"
  proof (cases r)
    case (Inr t)
    with eq obtain c where c: "rd8 base p = ret c" by auto
    consider "c = 0" | "c \<noteq> 0" "is_pointer c" | "c \<noteq> 0" "\<not> is_pointer c" by blast
    then show ?thesis
    proof cases
      case 1
      with eq Inr c show ?thesis by (auto intro!: exI [of _ "[]"] name_at.intros)
    next
      case 2
      with eq Inr c obtain c1 n d u where c1: "rd8 base (p + 1) = ret c1"
        and rec: "f base (pointer_target c c1) dest di 1 0 = ret (n, d, u)"
        and t: "t = (blen + (n - 1), d, off + 1 + 1)"
        by (auto simp: Let_def split: prod.splits)
      from IH [OF rec] obtain bs m where bs: "name_at base (pointer_target c c1) bs m"
        "bs = [] \<or> fits dest di (length bs)" "n = 1 + int (length bs)" "d = overlay dest di bs"
        by auto
      then have "name_at base p bs 2" using c 2 c1 by (blast intro: name_at.intros)
      with bs t Inr show ?thesis by force
    next
      case 3
      with eq Inr c obtain d where d: "wr8 dest di c = ret d"
        and rec: "f base (p + 1) d (di + 1) (blen + 1) (off + 1) = ret t"
        by auto
      from d have one: "fits dest di 1" by (auto simp: wr8_def fits_def split: if_splits)
      with d have d': "d = overlay dest di [c]" by (simp add: wr8_fits)
      from IH [OF rec] obtain bs m where bs: "name_at base (p + 1) bs m"
        "bs = [] \<or> fits d (di + 1) (length bs)"
        and t: "t = (blen + 1 + int (length bs), overlay d (di + 1) bs, off + 1 + int m)"
        by (cases t) auto
      from one bs(2) d' have room: "fits dest di (Suc (length bs))"
        by (auto simp: fits_def)
      then have "overlay d (di + 1) bs = overlay dest di (c # bs)"
        using overlay_append [of dest di "[c]" bs] d' by simp
      moreover have "name_at base p (c # bs) (Suc m)"
        using c 3 bs(1) by (blast intro: name_at.intros)
      ultimately show ?thesis
        using t Inr room by (auto intro!: exI [of _ "c # bs"] exI [of _ "Suc m"])
    qed
  qed simp
qed

lemma read_domain_iff:
  "read_domain base p dest di off = ret (k, dest', off') \<longleftrightarrow>
     (\<exists>bs n. name_at base p bs n \<and> (bs = [] \<or> fits dest di (length bs)) \<and>
        k = int (length bs) + 1 \<and> dest' = overlay dest di bs \<and> off' = off + int n)"
  (is "_ \<longleftrightarrow> ?R")
proof
  assume "read_domain base p dest di off = ret (k, dest', off')"
  then show ?R
    unfolding read_domain_def
    by (drule_tac read_domain_loop_sound) (simp add: add.commute)
next
  have nil: "read_domain_loop base p dest di 1 off = ret (1, dest, off + int n)"
    if "name_at base p bs n" "bs = []" for bs n
    using that
  proof (induction arbitrary: off rule: name_at.induct)
    case (name_end p)
    then show ?case by (subst read_domain_loop.simps) simp
  next
    case (name_pointer p c c1 bs n)
    then show ?case by (subst read_domain_loop.simps) simp
  qed simp
  assume ?R
  then show "read_domain base p dest di off = ret (k, dest', off')"
    unfolding read_domain_def using nil read_domain_loop_name by fastforce
qed

section \<open>When the reader returns\<close>

text \<open>\<open>jumps base p q\<close>: at \<open>p\<close> the packet holds a compression pointer to \<open>q\<close>.\<close>

definition jumps :: "mem \<Rightarrow> ptr \<Rightarrow> ptr \<Rightarrow> bool" where
  "jumps base p q \<longleftrightarrow>
     (\<exists>c c1. rd8 base p = ret c \<and> c \<noteq> 0 \<and> is_pointer c \<and> rd8 base (p + 1) = ret c1 \<and>
        q = pointer_target c c1)"

definition jump_rel :: "mem \<Rightarrow> (ptr \<times> ptr) set" where
  "jump_rel base = {(q, p). jumps base p q}"

lemma read_domain_loop_cycle:
  assumes "\<forall>x \<in> S. \<exists>y \<in> S. jumps base x y" and "p \<in> S"
  shows "read_domain_loop base p dest di blen off = None"
proof (rule ccontr)
  assume "read_domain_loop base p dest di blen off \<noteq> None"
  then obtain r where r: "read_domain_loop base p dest di blen off = Some r" by auto
  have "base = base \<longrightarrow> p \<notin> S"
  proof (rule read_domain_loop.raw_induct
      [where P = "\<lambda>b p dest di blen off r. b = base \<longrightarrow> p \<notin> S", OF _ r])
    fix f b p dest di blen off r
    assume IH: "\<And>b p dest di blen off r. f b p dest di blen off = Some r \<Longrightarrow> b = base \<longrightarrow> p \<notin> S"
      and eq: "bind_run (rd8 b p) (\<lambda>c.
         if c = 0 then ret (blen, dest, off + 1)
         else if is_pointer c then
           bind_run (rd8 b (p + 1)) (\<lambda>c1.
           bind_run (f b (pointer_target c c1) dest di 1 0) (\<lambda>r.
           case r of (n, dest', _) \<Rightarrow>
             let dlen = n - 1 in ret (blen + dlen, dest', off + 1 + 1)))
         else
           bind_run (wr8 dest di c) (\<lambda>dest'.
           f b (p + 1) dest' (di + 1) (blen + 1) (off + 1))) = Some r"
    show "b = base \<longrightarrow> p \<notin> S"
    proof (intro impI notI)
      assume "b = base" "p \<in> S"
      then obtain c c1 where c: "rd8 b p = ret c" "c \<noteq> 0" "is_pointer c" "rd8 b (p + 1) = ret c1"
        and target: "pointer_target c c1 \<in> S"
        using assms(1) by (auto simp: jumps_def)
      with eq have "f b (pointer_target c c1) dest di 1 0 \<noteq> None"
        by (auto simp: bind_run_def split: Option.bind_splits)
      with IH \<open>b = base\<close> target show False by auto
    qed
  qed
  with assms(2) show False by simp
qed

lemma read_domain_loop_returns:
  assumes "wf (jump_rel base)"
  shows "read_domain_loop base p dest di blen off \<noteq> None"
proof (induction "nat (int (length dest) - di)" arbitrary: p dest di blen off rule: less_induct)
  case less
  show ?case
    using assms
  proof (induction p arbitrary: blen off rule: wf_induct_rule)
    case (less p)
    show ?case
    proof
      assume none: "read_domain_loop base p dest di blen off = None"
      obtain c where c: "rd8 base p = ret c" "c \<noteq> 0"
        using none by (subst (asm) read_domain_loop.simps)
          (auto simp: bind_run_eq_None split: if_splits)
      show False
      proof (cases "is_pointer c")
        case True
        with none c obtain c1 where c1: "rd8 base (p + 1) = ret c1"
          and "read_domain_loop base (pointer_target c c1) dest di 1 0 = None"
          by (subst (asm) read_domain_loop.simps) (auto simp: bind_run_eq_None Let_def split: prod.splits)
        moreover have "(pointer_target c c1, p) \<in> jump_rel base"
          using c True c1 by (auto simp: jump_rel_def jumps_def)
        ultimately show False using less.IH by blast
      next
        case False
        with none c obtain d where d: "wr8 dest di c = ret d"
          and rec: "read_domain_loop base (p + 1) d (di + 1) (blen + 1) (off + 1) = None"
          by (subst (asm) read_domain_loop.simps) (auto simp: bind_run_eq_None)
        from d have "length d = length dest" "0 \<le> di" "di < int (length dest)"
          by (auto simp: wr8_def split: if_splits)
        then have "nat (int (length d) - (di + 1)) < nat (int (length dest) - di)" by simp
        with \<open>\<And>p dest' di' blen off. nat (int (length dest') - di') < nat (int (length dest) - di) \<Longrightarrow>
            read_domain_loop base p dest' di' blen off \<noteq> None\<close> rec
        show False by blast
      qed
    qed
  qed
qed

lemma read_domain_returns_iff_aux:
  "(\<forall>p dest di off. read_domain base p dest di off \<noteq> None) \<longleftrightarrow> wf (jump_rel base)"
proof
  assume ret: "\<forall>p dest di off. read_domain base p dest di off \<noteq> None"
  show "wf (jump_rel base)"
  proof (rule ccontr)
    assume "\<not> wf (jump_rel base)"
    then obtain S p where "p \<in> S" "\<forall>x \<in> S. \<exists>y. (y, x) \<in> jump_rel base \<and> y \<in> S"
      by (simp add: wf_eq_minimal) metis
    then have "read_domain_loop base p [] 0 1 0 = None"
      by (intro read_domain_loop_cycle [of S]) (auto simp: jump_rel_def Bex_def conj_commute)
    with ret show False unfolding read_domain_def by blast
  qed
next
  assume "wf (jump_rel base)"
  then show "\<forall>p dest di off. read_domain base p dest di off \<noteq> None"
    by (auto simp: read_domain_def dest: read_domain_loop_returns)
qed

lemma backward_pointers_wf:
  assumes "backward_pointers base"
  shows "wf (jump_rel base)"
proof (rule wf_subset [OF wf_measure])
  show "jump_rel base \<subseteq> measure nat"
  proof (rule subrelI)
    fix q p
    assume "(q, p) \<in> jump_rel base"
    then obtain c c1 where q: "q = pointer_target c c1"
      and p: "rd8 base p = ret c" "is_pointer c" "rd8 base (p + 1) = ret c1"
      by (auto simp: jump_rel_def jumps_def)
    then have "0 \<le> p" "Suc (nat p) < length base" "c = base ! nat p" "c1 = base ! Suc (nat p)"
      by (auto simp: rd8_def nat_add_distrib split: if_splits)
    with p assms have "pointer_target c c1 < p"
      unfolding backward_pointers_def by (metis Suc_lessD nat_0_le)
    moreover have "0 \<le> pointer_target c c1" by (simp add: pointer_target_def)
    ultimately show "(q, p) \<in> measure nat" using q by simp
  qed
qed

section \<open>Names of RFC 1035\<close>

lemma is_pointer_iff: "is_pointer c \<longleftrightarrow> 192 \<le> unat c"
proof -
  have lt: "unat c < 256" using unsigned_less [of c] by simp
  have "drop_bit 6 c AND 3 = take_bit 2 (drop_bit 6 c)" by (simp add: take_bit_eq_mask mask_eq_exp_minus_1)
  moreover have "unat (take_bit 2 (drop_bit 6 c)) = take_bit 2 (drop_bit 6 (unat c))"
    using lt by (simp add: unsigned_take_bit_eq unsigned_drop_bit_eq take_bit_nat_eq_self)
  ultimately have "unat (drop_bit 6 c AND 3) = unat c div 64 mod 4"
    by (simp only: drop_bit_eq_div take_bit_eq_mod) simp
  moreover have "drop_bit 6 c AND 3 = 3 \<longleftrightarrow> unat (drop_bit 6 c AND 3) = 3" by (simp add: word_unat_eq_iff)
  moreover have "u div 64 mod 4 = 3 \<longleftrightarrow> 192 \<le> u" if "u < 256" for u :: nat
  proof -
    have "u div 64 < 4" using that by (intro less_mult_imp_div_less) simp
    then have "u div 64 mod 4 = u div 64" by (rule mod_less)
    moreover have "u div 64 = 3 \<longleftrightarrow> 192 \<le> u" using that by (intro iffI) linarith+
    ultimately show ?thesis by simp
  qed
  ultimately show ?thesis unfolding is_pointer_def using lt by metis
qed

lemma pointer_target_eq:
  assumes "192 \<le> unat c"
  shows "pointer_target c c1 = int (256 * (unat c - 192) + unat c1)"
proof -
  let ?w = "push_bit 8 (ucast c) :: u16"
  have lt: "unat c < 256" "unat c1 < 256" using unsigned_less [of c] unsigned_less [of c1] by simp_all
  have "?w OR ucast c1 = ?w + ucast c1"
    by (rule disjunctive_add_eq_or [symmetric]) (auto simp: bit_eq_iff bit_simps dest: bit_imp_le_length)
  moreover have "unat ?w = 256 * unat c"
  proof -
    have "unat ?w = take_bit 16 (push_bit 8 (take_bit 16 (unat c)))"
      by (simp only: unsigned_push_bit_eq unsigned_ucast_eq) simp
    with lt show ?thesis by (simp add: push_bit_eq_mult take_bit_eq_mod)
  qed
  moreover have "unat (ucast c1 :: u16) = unat c1" using lt by (simp add: unsigned_ucast_eq take_bit_eq_mod)
  ultimately have "unat (?w OR ucast c1) = 256 * unat c + unat c1" using lt by (simp add: unat_word_ariths)
  moreover have "(?w OR ucast c1) AND 0x3FFF = take_bit 14 (?w OR ucast c1)"
    by (simp add: take_bit_eq_mask mask_eq_exp_minus_1)
  ultimately have "unat ((?w OR ucast c1) AND 0x3FFF) = (256 * unat c + unat c1) mod 16384"
    by (simp only: unsigned_take_bit_eq) (simp add: take_bit_eq_mod)
  moreover have "(256 * unat c + unat c1) mod 16384 = 256 * (unat c - 192) + unat c1"
  proof -
    have "256 * unat c + unat c1 = 256 * (unat c - 192) + unat c1 + 3 * 16384" using assms by simp
    moreover have "256 * (unat c - 192) + unat c1 < 16384" using assms lt by linarith
    ultimately show ?thesis by (simp only: mod_mult_self1 mod_less)
  qed
  ultimately show ?thesis unfolding pointer_target_def by (metis int_nat_eq unat_eq_nat_uint uint_ge_0)
qed

lemma name_at_bytes:
  "holds_at base p bs \<Longrightarrow> \<forall>b \<in> set bs. b \<noteq> 0 \<and> unat b < 192 \<Longrightarrow> name_at base (p + int (length bs)) cs n \<Longrightarrow>
     name_at base p (bs @ cs) (length bs + n)"
proof (induction bs arbitrary: p)
  case (Cons b bs)
  from Cons.IH [of "p + 1"] Cons.prems have "name_at base (p + 1) (bs @ cs) (length bs + n)"
    by (simp add: add.assoc add.left_commute)
  with Cons.prems show ?case by (auto intro!: name_byte simp: is_pointer_iff)
qed simp

lemma rfc_name_at: "rfc_name base p ls n \<Longrightarrow> \<forall>l \<in> set ls. low_label l \<Longrightarrow> name_at base p (enc_labels ls) n"
proof (induction rule: rfc_name.induct)
  case (rfc_root p)
  then show ?case using name_end [of base p] by (simp add: enc_labels_def)
next
  case (rfc_label l p ls n)
  have "unat (of_nat (length l) :: byte) = length l" using rfc_label.hyps(2) by (simp add: unat_of_nat)
  moreover have "(of_nat (length l) :: byte) \<noteq> 0"
    using rfc_label.hyps(1,2) by (metis calculation length_0_conv unsigned_0)
  ultimately have "\<forall>b \<in> set (enc_label l). b \<noteq> 0 \<and> unat b < 192"
    using rfc_label.hyps(2) rfc_label.prems by (auto simp: enc_label_def low_label_def)
  with name_at_bytes [OF rfc_label.hyps(3)] rfc_label.IH rfc_label.prems show ?case
    by (simp add: enc_labels_def enc_label_def)
next
  case (rfc_pointer p c c1 ls n)
  moreover from rfc_pointer.hyps(2) have "c \<noteq> 0" by auto
  ultimately show ?case using name_pointer [of base p c c1] by (auto simp: is_pointer_iff pointer_target_eq)
qed

text \<open>A byte of a label from 0xC0 on sends the reader elsewhere.\<close>

lemma read_domain_bytes:
  "holds_at base p bs \<Longrightarrow> \<forall>b \<in> set bs. b \<noteq> 0 \<and> unat b < 192 \<Longrightarrow> fits dest di (length bs) \<Longrightarrow>
     read_domain_loop base p dest di blen off =
       read_domain_loop base (p + int (length bs)) (overlay dest di bs) (di + int (length bs))
         (blen + int (length bs)) (off + int (length bs))"
proof (induction bs arbitrary: p dest di blen off)
  case (Cons b bs)
  have one: "fits dest di 1" and rest: "fits (overlay dest di [b]) (di + 1) (length bs)"
    using Cons.prems(3) by (auto simp: fits_def)
  have "overlay (overlay dest di [b]) (di + 1) bs = overlay dest di (b # bs)"
    using overlay_append [of dest di "[b]" bs] Cons.prems(3) by simp
  with Cons.IH [OF _ _ rest, of "p + 1" "blen + 1" "off + 1"] Cons.prems one show ?case
    by (subst read_domain_loop.simps) (auto simp: wr8_fits is_pointer_iff algebra_simps)
qed (simp add: overlay_def)

section \<open>Walks without an end\<close>

definition follows :: "mem \<Rightarrow> ptr \<Rightarrow> ptr \<Rightarrow> bool" where
  "follows base p q \<longleftrightarrow> (\<exists>c. rd8 base p = ret c \<and> c \<noteq> 0 \<and> \<not> is_pointer c \<and> q = p + 1) \<or> jumps base p q"

definition endless :: "mem \<Rightarrow> ptr \<Rightarrow> bool" where
  "endless base p \<longleftrightarrow> (\<exists>S. p \<in> S \<and> (\<forall>x \<in> S. \<exists>y \<in> S. follows base x y))"

lemma endless_no_name: "name_at base p bs n \<Longrightarrow> \<not> endless base p"
proof -
  have "name_at base p bs n \<Longrightarrow> \<forall>x \<in> S. \<exists>y \<in> S. follows base x y \<Longrightarrow> p \<notin> S" for S
    by (induction rule: name_at.induct) (force simp: follows_def jumps_def)+
  then show "name_at base p bs n \<Longrightarrow> \<not> endless base p" unfolding endless_def by blast
qed

lemma read_domain_loop_faults:
  assumes "read_domain_loop base p dest di blen off = Some r"
  shows "case r of Inl e \<Rightarrow> e = OutOfBounds | Inr x \<Rightarrow> True"
proof (rule read_domain_loop.raw_induct [OF _ assms, where
      P = "\<lambda>base p dest di blen off r. case r of Inl e \<Rightarrow> e = OutOfBounds | Inr x \<Rightarrow> True"])
    fix f and base :: mem and p :: ptr and dest :: mem and di :: ptr and blen off :: int and r
    let ?Q = "\<lambda>r. case r of Inl e \<Rightarrow> e = OutOfBounds | Inr x \<Rightarrow> True"
    assume IH: "\<And>base p dest di blen off r. f base p dest di blen off = Some r \<Longrightarrow> ?Q r"
      and eq: "bind_run (rd8 base p) (\<lambda>c.
       if c = 0 then ret (blen, dest, off + 1)
       else if is_pointer c then
         bind_run (rd8 base (p + 1)) (\<lambda>c1.
         bind_run (f base (pointer_target c c1) dest di 1 0) (\<lambda>r.
         case r of (n, dest', _) \<Rightarrow>
           let dlen = n - 1 in ret (blen + dlen, dest', off + 1 + 1)))
       else
         bind_run (wr8 dest di c) (\<lambda>dest'.
         f base (p + 1) dest' (di + 1) (blen + 1) (off + 1))) = Some r"
    then show "?Q r"
      by (auto simp: rd8_def wr8_def bind_run_def Let_def split: if_splits sum.splits Option.bind_splits prod.splits dest!: IH)
qed

section \<open>Reversal of labels\<close>

lemma unat_length_label: "wf_label l \<Longrightarrow> unat (of_nat (length l) :: byte) = length l"
  by (simp add: wf_label_def unsigned_of_nat take_bit_nat_eq_self)

lemma uint_length_label: "wf_label l \<Longrightarrow> uint (of_nat (length l) :: byte) = int (length l)"
  by (metis uint_nat unat_length_label)

lemma length_label_neq_0: "wf_label l \<Longrightarrow> (of_nat (length l) :: byte) \<noteq> 0"
  using unat_length_label [of l] by (auto simp: wf_label_def)

lemmas label_simps = unat_length_label uint_length_label length_label_neq_0

lemma enc_labels_simps [simp]:
  "enc_labels [] = []"
  "enc_labels (l # ls) = enc_label l @ enc_labels ls"
  "enc_labels (ls @ ls') = enc_labels ls @ enc_labels ls'"
  by (simp_all add: enc_labels_def)

lemma length_enc_label [simp]: "length (enc_label l) = Suc (length l)"
  by (simp add: enc_label_def)

lemma length_enc_name [simp]: "length (enc_name ls) = Suc (length (enc_labels ls))"
  by (simp add: enc_name_def)

lemma length_enc_labels_rev [simp]: "length (enc_labels (rev ls)) = length (enc_labels ls)"
  by (induction ls) auto

text \<open>The contents of the stack between the two loops: each label followed by its length.\<close>

definition stacked :: "label list \<Rightarrow> byte list" where
  "stacked ls = concat (map (\<lambda>l. l @ [of_nat (length l)]) ls)"

lemma stacked_simps [simp]:
  "stacked [] = []"
  "stacked (l # ls) = l @ of_nat (length l) # stacked ls"
  "stacked (ls @ ls') = stacked ls @ stacked ls'"
  by (simp_all add: stacked_def)

lemma length_stacked [simp]: "length (stacked ls) = length (enc_labels ls)"
  by (induction ls) auto

lemma domain_rev_push_spec:
  assumes "\<forall>l \<in> set ls. wf_label l" and "holds_at src p (enc_name ls)"
    and "fits stack sptr (length (enc_labels ls))"
  shows "domain_rev_push src p stack sptr =
    ret (overlay stack sptr (stacked ls), sptr + int (length (enc_labels ls)))"
  using assms
proof (induction ls arbitrary: p stack sptr)
  case Nil
  then show ?case by (subst domain_rev_push.simps) (simp add: enc_name_def)
next
  case (Cons l ls)
  let ?n = "of_nat (length l) :: byte"
  from Cons.prems(1) have l: "wf_label l" by simp
  from Cons.prems(2) have p: "rd8 src p = ret ?n" "holds_at src (p + 1) l"
    and rest: "holds_at src (p + int (length l) + 1) (enc_name ls)"
    by (simp_all add: enc_name_def enc_label_def add.assoc add.commute)
  from Cons.prems(3) have f: "fits stack sptr (length l)"
    "fits stack (sptr + int (length l)) 1"
    "fits stack (sptr + int (length l) + 1) (length (enc_labels ls))"
    by (auto simp: fits_def)
  have "overlay (overlay stack sptr l) (sptr + int (length l)) [?n] = overlay stack sptr (l @ [?n])"
    using Cons.prems(3) by (intro overlay_append) (auto simp: fits_def)
  moreover have "overlay (overlay stack sptr (l @ [?n])) (sptr + int (length l) + 1) (stacked ls)
      = overlay stack sptr (stacked (l # ls))"
    using Cons.prems(3) overlay_append [of stack sptr "l @ [?n]" "stacked ls"]
    by (simp add: fits_def ac_simps)
  moreover have "rd_bytes src (p + 1) (length l) = ret l"
    using p(2) by (rule rd_bytes_holds_at)
  ultimately show ?case
    using l p f rest Cons.IH [of "p + int (length l) + 1" "overlay stack sptr (l @ [?n])"
        "sptr + int (length l) + 1"] Cons.prems
    by (subst domain_rev_push.simps)
      (simp add: label_simps wr_bytes_fits wr8_fits fits_def)
qed

lemma domain_rev_pop_spec:
  assumes "\<forall>l \<in> set ls. wf_label l" and "holds_at stack 0 (stacked ls)"
    and "fits dest dp (length (enc_labels ls))"
  shows "domain_rev_pop stack (int (length (enc_labels ls)) - 1) dest dp =
    ret (overlay dest dp (enc_labels (rev ls)), dp + int (length (enc_labels ls)))"
  using assms
proof (induction ls arbitrary: dest dp rule: rev_induct)
  case Nil
  then show ?case by (subst domain_rev_pop.simps) simp
next
  case (snoc l ls)
  let ?n = "of_nat (length l) :: byte" and ?k = "int (length (enc_labels ls))"
  from snoc.prems(1) have l: "wf_label l" by simp
  then have pos: "0 < int (length l) + ?k" by (cases l) (auto simp: wf_label_def)
  from snoc.prems(2) have s: "holds_at stack 0 (stacked ls)" "holds_at stack ?k l"
    "rd8 stack (?k + int (length l)) = ret ?n"
    by simp_all
  from snoc.prems(3) have f: "fits dest (dp + 1) (length l)" "fits dest dp (Suc (length l))"
    "fits dest (dp + int (length l) + 1) (length (enc_labels ls))"
    by (auto simp: fits_def)
  have "rd_bytes stack ?k (length l) = ret l"
    using s(2) by (rule rd_bytes_holds_at)
  moreover have "overlay (overlay dest dp (enc_label l)) (dp + int (length l) + 1) (enc_labels (rev ls))
      = overlay dest dp (enc_labels (rev (ls @ [l])))"
    using snoc.prems(3) overlay_append [of dest dp "enc_label l" "enc_labels (rev ls)"]
    by (simp add: ac_simps)
  ultimately show ?case
    using l pos s f wr8_overlay_before [OF f(2), of ?n] snoc.IH [of "overlay dest dp (enc_label l)" "dp + int (length l) + 1"] snoc.prems
    by (subst domain_rev_pop.simps)
      (simp add: label_simps wr_bytes_fits enc_label_def algebra_simps)
qed

lemma domain_rev_spec:
  assumes "\<forall>l \<in> set ls. wf_label l" and "holds_at src 0 (enc_name ls)"
    and "length (enc_labels ls) \<le> DOMAIN_BUF_LEN" and "length (enc_name ls) \<le> length dest"
  shows "domain_rev dest src = ret (overlay dest 0 (enc_name (rev ls)))"
proof -
  let ?stack = "overlay (replicate DOMAIN_BUF_LEN 0) 0 (stacked ls)"
    and ?k = "int (length (enc_labels ls))"
  have fs: "fits (replicate DOMAIN_BUF_LEN 0) 0 (length (stacked ls))"
    using assms(3) by (simp add: fits_def)
  have fd: "fits dest 0 (length (enc_labels ls))" "fits dest ?k 1"
    using assms(4) by (simp_all add: fits_def)
  have "domain_rev_push src 0 (replicate DOMAIN_BUF_LEN 0) 0 = ret (?stack, ?k)"
    using domain_rev_push_spec [OF assms(1,2), of "replicate DOMAIN_BUF_LEN 0" 0] fs by simp
  moreover have "domain_rev_pop ?stack (?k - 1) dest 0 = ret (overlay dest 0 (enc_labels (rev ls)), ?k)"
    using domain_rev_pop_spec [OF assms(1) holds_at_overlay [OF fs] fd(1)] by simp
  moreover have "wr8 (overlay dest 0 (enc_labels (rev ls))) ?k 0 = ret (overlay dest 0 (enc_name (rev ls)))"
    using fd overlay_append [of dest 0 "enc_labels (rev ls)" "[0]"] assms(4)
    by (simp add: wr8_fits enc_name_def fits_def)
  ultimately show ?thesis by (simp add: domain_rev_def)
qed

section \<open>Properties\<close>

text \<open>C17: \<^verbatim>\<open>read_domain\<close> decompresses names: at a position where the packet holds a name as RFC 1035 describes it, with labels
  of non-zero bytes below 0xC0, and with room for it in the destination, it returns, stores the labels with their
  length bytes, gives their number plus one, and advances the offset by what the name occupies at that position.\<close>

theorem read_domain_decompresses:
  assumes "rfc_name base p ls n" and "\<forall>l \<in> set ls. low_label l" and "fits dest di (length (enc_labels ls))"
  shows "read_domain base p dest di off =
    ret (int (length (enc_labels ls)) + 1, overlay dest di (enc_labels ls), off + int n)"
  using read_domain_loop_name [OF rfc_name_at [OF assms(1,2)] assms(3)] by (simp add: read_domain_def add.commute)

theorem read_domain_decompresses_witness:
  "read_domain [7, 1, 99, 0, 2, 97, 98, 0xC0, 1, 5] 4 [0, 0, 0, 0, 0, 0, 0, 0] 0 0 = ret (6, [2, 97, 98, 1, 99, 0, 0, 0], 5)"
proof -
  let ?b = "[7, 1, 99, 0, 2, 97, 98, 0xC0, 1, 5] :: mem"
  have "rfc_name ?b 3 [] 1" by (rule rfc_root) (simp add: rd8_def)
  then have "rfc_name ?b 1 [[99]] 3" using rfc_label [of "[99]" ?b 1 "[]" 1] by (simp add: enc_label_def rd8_def numeral_eq_Suc)
  then have "rfc_name ?b 7 [[99]] 2" by (intro rfc_pointer [of _ _ "0xC0" 1]) (simp_all add: rd8_def)
  then have "rfc_name ?b 4 [[97, 98], [99]] 5"
    using rfc_label [of "[97, 98]" ?b 4 "[[99]]" 2] by (simp add: enc_label_def rd8_def numeral_eq_Suc)
  from read_domain_decompresses [OF this, of "[0, 0, 0, 0, 0, 0, 0, 0]" 0 0] show ?thesis
    by (simp add: low_label_def enc_labels_def enc_label_def fits_def overlay_def)
qed

text \<open>C18: when reading a name ends. From every position and with every buffer the call ends, with a result or with an access
  outside a buffer, exactly if no compression pointers lead to each other without an end; otherwise some call recurses
  forever. And where the walk over labels and pointers never meets a zero byte no call returns a name: if it does not recurse
  forever, it runs over the end of the destination.\<close>

theorem read_domain_ends_iff:
  "(wf (jump_rel base) \<longleftrightarrow> (\<forall>p dest di off. (\<exists>x. read_domain base p dest di off = ret x) \<or>
      read_domain base p dest di off = fail OutOfBounds)) \<and>
   (\<forall>p dest di off x. endless base p \<longrightarrow> read_domain base p dest di off \<noteq> ret x)"
proof
  have "(\<forall>p dest di off. (\<exists>x. read_domain base p dest di off = ret x) \<or> read_domain base p dest di off = fail OutOfBounds) \<longleftrightarrow>
      (\<forall>p dest di off. read_domain base p dest di off \<noteq> None)" (is "?A \<longleftrightarrow> ?B")
  proof
    assume ?A
    then show ?B by (metis option.distinct(1))
  next
    assume b: ?B
    show ?A
    proof (intro allI)
      fix p dest di off
      obtain r where r: "read_domain base p dest di off = Some r" using b by (metis option.exhaust)
      from read_domain_loop_faults [OF r [unfolded read_domain_def]] r show
        "(\<exists>x. read_domain base p dest di off = ret x) \<or> read_domain base p dest di off = fail OutOfBounds"
        by (cases r) auto
    qed
  qed
  then show "wf (jump_rel base) \<longleftrightarrow> (\<forall>p dest di off. (\<exists>x. read_domain base p dest di off = ret x) \<or>
      read_domain base p dest di off = fail OutOfBounds)" using read_domain_returns_iff_aux by blast
  show "\<forall>p dest di off x. endless base p \<longrightarrow> read_domain base p dest di off \<noteq> ret x"
  proof (intro allI impI notI)
    fix p dest di off x assume "endless base p" "read_domain base p dest di off = ret x"
    moreover obtain k d o' where "x = (k, d, o')" by (cases x)
    ultimately show False using read_domain_iff [of base p dest di off k d o'] endless_no_name by blast
  qed
qed

text \<open>The packet whose pointer leads back to the label before it.\<close>

theorem read_domain_ends_iff_witness:
  "read_domain [1, 97, 0xC0, 0] 0 (replicate 512 0) 0 0 = fail OutOfBounds"
proof -
  let ?b = "[1, 97, 0xC0, 0] :: mem"
  have "pointer_target 0xC0 0 = 0" using pointer_target_eq [of "0xC0" 0] by simp
  then have "follows ?b 0 1" "follows ?b 1 2" "follows ?b 2 0"
    by (simp_all add: follows_def jumps_def rd8_def is_pointer_iff)
  then have "endless ?b 0" unfolding endless_def by (intro exI [of _ "{0, 1, 2}"]) auto
  moreover have "wf (jump_rel ?b)"
  proof (rule wf_subset [OF wf_measure])
    show "jump_rel ?b \<subseteq> measure nat" by (auto simp: jump_rel_def jumps_def rd8_def is_pointer_iff pointer_target_eq nth_Cons' split: if_splits)
  qed
  ultimately show ?thesis using read_domain_ends_iff [of ?b] by blast
qed

text \<open>C32: a byte of a label from 0xC0 on is taken for a compression pointer: the reader stores the bytes of the label before it
  and goes on at the offset formed from this byte and the one after it; when that lies outside of the packet the read faults, although the packet
  may hold a proper name.\<close>

theorem high_label_byte_misread:
  assumes "holds_at base p (enc_label (before @ b # after))" and "length (before @ b # after) < 64"
    and "low_label before" and "192 \<le> unat b" and "rd8 base (p + int (length before) + 2) = ret c"
    and "fits dest di (Suc (length before))" and "length base \<le> 256 * (unat b - 192) + unat c"
  shows "read_domain base p dest di off = fail OutOfBounds"
proof -
  define n where "n = (of_nat (length (before @ b # after)) :: byte)"
  have "unat (of_nat k :: byte) = k" if "k < 64" for k using that by (simp add: unat_of_nat)
  then have n: "unat n = length (before @ b # after)" using assms(2) n_def by blast
  then have "n \<noteq> 0" by auto
  with n assms(2,3) have low: "\<forall>x \<in> set (n # before). x \<noteq> 0 \<and> unat x < 192" by (auto simp: low_label_def)
  have at: "holds_at base p (n # before)" "rd8 base (p + int (length (n # before))) = ret b"
    using assms(1) unfolding enc_label_def n_def [symmetric] by (simp_all add: algebra_simps)
  have "read_domain base p dest di off = read_domain_loop base (p + int (length (n # before)))
      (overlay dest di (n # before)) (di + int (length (n # before))) (1 + int (length (n # before))) (off + int (length (n # before)))"
    unfolding read_domain_def using read_domain_bytes [OF at(1) low] assms(6) by simp
  moreover have "rd8 base (pointer_target b c) = fail OutOfBounds"
  proof -
    obtain k where "pointer_target b c = int k" "length base \<le> k" using pointer_target_eq [OF assms(4)] assms(7) by blast
    then show ?thesis by (simp add: rd8_def)
  qed
  then have "read_domain_loop base (pointer_target b c) d i 1 0 = fail OutOfBounds" for d i
    by (subst read_domain_loop.simps) simp
  moreover have "b \<noteq> 0" using assms(4) by auto
  moreover have "rd8 base (p + int (length (n # before)) + 1) = ret c" using assms(5) by (simp add: algebra_simps)
  ultimately show ?thesis using at(2) assms(4)
    by (subst (asm) read_domain_loop.simps) (simp add: is_pointer_iff)
qed

theorem high_label_byte_misread_witness:
  "rfc_name [1, 0xC3, 0] 0 [[0xC3]] 3 \<and> read_domain [1, 0xC3, 0] 0 (replicate 512 0) 0 0 = fail OutOfBounds"
proof
  have "rfc_name [1, 0xC3, 0] 2 [] 1" by (rule rfc_root) (simp add: rd8_def)
  then show "rfc_name [1, 0xC3, 0] 0 [[0xC3]] 3"
    using rfc_label [of "[0xC3]" "[1, 0xC3, 0]" 0 "[]" 1] by (simp add: enc_label_def rd8_def numeral_eq_Suc)
  show "read_domain [1, 0xC3, 0] 0 (replicate 512 0) 0 0 = fail OutOfBounds"
    by (rule high_label_byte_misread [where before = "[]" and b = "0xC3" and after = "[]" and c = 0])
      (simp_all add: enc_label_def rd8_def low_label_def fits_def)
qed

text \<open>In a packet whose compression pointers all point strictly before themselves (as RFC 1035
  asks) every call of \<^verbatim>\<open>read_domain\<close> returns or faults.\<close>

lemma read_domain_backward_returns:
  assumes "backward_pointers base"
  shows "read_domain base p dest di off \<noteq> None"
  using read_domain_loop_returns [OF backward_pointers_wf [OF assms]]
  by (simp add: read_domain_def)

text \<open>A name that does not fit the destination makes \<^verbatim>\<open>read_domain\<close> write outside of it: there
  is no bound check, and a 512-byte stack buffer is overrun by a packet with a longer name.\<close>

lemma read_domain_overflows:
  assumes "name_at base p bs n" and "0 \<le> di" and "di \<le> int (length dest)"
    and "int (length dest) < di + int (length bs)"
  shows "read_domain base p dest di off = fail OutOfBounds"
  using read_domain_loop_overflow [OF assms(1-3), of 1 off] assms(4)
  by (simp add: read_domain_def fits_def)

text \<open>C27: \<^verbatim>\<open>domain_rev\<close> writes the name with its labels in reverse order, provided the labels fit
  its 512-byte stack and the name fits the destination.\<close>

theorem domain_rev_reverses:
  assumes "\<forall>l \<in> set ls. wf_label l" and "holds_at src 0 (enc_name ls)"
    and "length (enc_labels ls) \<le> DOMAIN_BUF_LEN" and "length (enc_name ls) \<le> length dest"
  shows "domain_rev dest src = ret (overlay dest 0 (enc_name (rev ls)))"
  using assms by (rule domain_rev_spec)

theorem domain_rev_reverses_witness:
  "domain_rev [7, 7, 7, 7, 7, 7] [2, 97, 98, 1, 99, 0] = ret [1, 99, 2, 97, 98, 0]"
  using domain_rev_reverses [of "[[97, 98], [99]]" "[2, 97, 98, 1, 99, 0]" "[7, 7, 7, 7, 7, 7]"]
  by (simp add: wf_label_def enc_name_def enc_labels_def enc_label_def overlay_def rd8_def)

text \<open>Reversing twice gives the original name back.\<close>

lemma domain_rev_involution:
  assumes "\<forall>l \<in> set ls. wf_label l" and "holds_at src 0 (enc_name ls)"
    and "length (enc_labels ls) \<le> DOMAIN_BUF_LEN" and "length (enc_name ls) \<le> length mid"
    and "length (enc_name ls) \<le> length dest"
  shows "bind_run (domain_rev mid src) (domain_rev dest) = ret (overlay dest 0 (enc_name ls))"
proof -
  let ?mid = "overlay mid 0 (enc_name (rev ls))"
  have len: "length (enc_labels (rev ls)) = length (enc_labels ls)"
    by (simp add: enc_labels_def length_concat rev_map [symmetric] sum_list_rev)
  with assms(4) have "holds_at ?mid 0 (enc_name (rev ls))"
    by (intro holds_at_overlay) (simp add: fits_def enc_name_def)
  then have "domain_rev dest ?mid = ret (overlay dest 0 (enc_name (rev (rev ls))))"
    using assms len by (intro domain_rev_spec) (simp_all add: enc_name_def)
  with domain_rev_spec [OF assms(1-4)] show ?thesis by simp
qed

end
