(* ===== verification/Message.thy ===== *)
theory Message
  imports Domain_Names
begin

text \<open>
  DNS messages (\<^verbatim>\<open>storage/message.h\<close>, \<^verbatim>\<open>storage/message.c\<close>): the message structures, the flag
  bits, parsing a packet (\<^verbatim>\<open>message_from_buf\<close>), serialising a message (\<^verbatim>\<open>message_to_u8\<close>), and the
  operations on questions and resource records. Heap blocks are their contents; a pointer
  that may be null is an option; an array of pointers is a list of options. Reads and writes
  outside a block fault. Logging is left out.
\<close>

section \<open>Structures\<close>

record message_header =
  msg_id :: u16
  misc1 :: byte
  misc2 :: byte
  qdcount :: u16
  ancount :: u16
  nscount :: u16
  arcount :: u16

record message_question =
  qname :: "mem option"
  qtype :: u16
  qclass :: u16

record resource_record =
  rr_name :: "mem option"
  rr_type :: u16
  rr_class :: u16
  ttl :: u32
  rdlength :: u16
  rdata :: "mem option"

type_synonym 'a ptr_array = "'a option list option"

record message =
  header :: message_header
  question :: "message_question ptr_array"
  answer :: "resource_record ptr_array"
  authority :: "resource_record ptr_array"
  addition :: "resource_record ptr_array"

text \<open>Zeroed structures, as left by \<^verbatim>\<open>memset(p, 0, sizeof *p)\<close>.\<close>

definition zero_header :: message_header where
  "zero_header = \<lparr>msg_id = 0, misc1 = 0, misc2 = 0, qdcount = 0, ancount = 0, nscount = 0,
     arcount = 0\<rparr>"

definition zero_message :: message where
  "zero_message = \<lparr>header = zero_header, question = None, answer = None, authority = None,
     addition = None\<rparr>"

definition zero_rr :: resource_record where
  "zero_rr = \<lparr>rr_name = None, rr_type = 0, rr_class = 0, ttl = 0, rdlength = 0, rdata = None\<rparr>"

section \<open>Constants and flag bits\<close>

abbreviation (input) QR_REQ :: byte where "QR_REQ \<equiv> 0"
abbreviation (input) QR_RESP :: byte where "QR_RESP \<equiv> 1"
abbreviation (input) OPCODE_QUERY :: byte where "OPCODE_QUERY \<equiv> 0"
abbreviation (input) AA_TRUE :: byte where "AA_TRUE \<equiv> 1"
abbreviation (input) TC_FALSE :: byte where "TC_FALSE \<equiv> 0"
abbreviation (input) RD_FALSE :: byte where "RD_FALSE \<equiv> 0"
abbreviation (input) RA_TRUE :: byte where "RA_TRUE \<equiv> 1"
abbreviation (input) RA_FALSE :: byte where "RA_FALSE \<equiv> 0"
abbreviation (input) Z_FLAG :: byte where "Z_FLAG \<equiv> 0"
abbreviation (input) RCODE_NO_ERROR :: byte where "RCODE_NO_ERROR \<equiv> 0"
abbreviation (input) RCODE_FORMAT_ERROR :: byte where "RCODE_FORMAT_ERROR \<equiv> 1"
abbreviation (input) RCODE_SERVER_FAILURE :: byte where "RCODE_SERVER_FAILURE \<equiv> 2"
abbreviation (input) RRCLASS_IN :: u16 where "RRCLASS_IN \<equiv> 1"
abbreviation (input) RRTYPE_A :: u16 where "RRTYPE_A \<equiv> 1"
abbreviation (input) RRTYPE_NS :: u16 where "RRTYPE_NS \<equiv> 2"
abbreviation (input) RRTYPE_CNAME :: u16 where "RRTYPE_CNAME \<equiv> 5"
abbreviation (input) RRTYPE_SOA :: u16 where "RRTYPE_SOA \<equiv> 6"
abbreviation (input) RRTYPE_PTR :: u16 where "RRTYPE_PTR \<equiv> 12"
abbreviation (input) RRTYPE_MX :: u16 where "RRTYPE_MX \<equiv> 15"
abbreviation (input) RRTYPE_TXT :: u16 where "RRTYPE_TXT \<equiv> 16"
abbreviation (input) RRTYPE_AAAA :: u16 where "RRTYPE_AAAA \<equiv> 28"
abbreviation (input) RRTYPE_OPT :: u16 where "RRTYPE_OPT \<equiv> 41"

definition misc_QR :: "byte \<Rightarrow> byte" where "misc_QR x = drop_bit 7 (x AND 0x80)"
definition misc_OPCODE :: "byte \<Rightarrow> byte" where "misc_OPCODE x = drop_bit 3 (x AND 0x78)"
definition misc_AA :: "byte \<Rightarrow> byte" where "misc_AA x = drop_bit 2 (x AND 0x04)"
definition misc_TC :: "byte \<Rightarrow> byte" where "misc_TC x = drop_bit 1 (x AND 0x02)"
definition misc_RD :: "byte \<Rightarrow> byte" where "misc_RD x = x AND 0x01"
definition misc_RA :: "byte \<Rightarrow> byte" where "misc_RA x = drop_bit 7 (x AND 0x80)"
definition misc_Z :: "byte \<Rightarrow> byte" where "misc_Z x = drop_bit 4 (x AND 0x70)"
definition misc_RCODE :: "byte \<Rightarrow> byte" where "misc_RCODE x = x AND 0x0F"

definition create_misc1 :: "byte \<Rightarrow> byte \<Rightarrow> byte \<Rightarrow> byte \<Rightarrow> byte \<Rightarrow> byte" where
  "create_misc1 qr opcode aa tc rd =
     (push_bit 7 qr AND 0x80) OR (push_bit 3 opcode AND 0x78) OR (push_bit 2 aa AND 0x04) OR
     (push_bit 1 tc AND 0x02) OR (rd AND 0x01)"

definition create_misc2 :: "byte \<Rightarrow> byte \<Rightarrow> byte \<Rightarrow> byte" where
  "create_misc2 ra z rcode =
     (push_bit 7 ra AND 0x80) OR (push_bit 4 z AND 0x70) OR (rcode AND 0x0F)"

section \<open>Integers in network order\<close>

definition u8n_to_u32h :: "mem \<Rightarrow> ptr \<Rightarrow> u32 run" where
  "u8n_to_u32h m p =
     bind_run (rd8 m p) (\<lambda>b0. bind_run (rd8 m (p + 1)) (\<lambda>b1.
     bind_run (rd8 m (p + 2)) (\<lambda>b2. bind_run (rd8 m (p + 3)) (\<lambda>b3.
     ret (ntohl (load32 b0 b1 b2 b3))))))"

definition u8n_to_u16h :: "mem \<Rightarrow> ptr \<Rightarrow> u16 run" where
  "u8n_to_u16h m p =
     bind_run (rd8 m p) (\<lambda>b0. bind_run (rd8 m (p + 1)) (\<lambda>b1. ret (ntohs (load16 b0 b1))))"

definition u8n_to_u8h :: "mem \<Rightarrow> ptr \<Rightarrow> byte run" where
  "u8n_to_u8h m p = rd8 m p"

definition u32h_to_u8n :: "u32 \<Rightarrow> mem \<Rightarrow> ptr \<Rightarrow> mem run" where
  "u32h_to_u8n h m p = wr_bytes m p (store32 (htonl h))"

definition u16h_to_u8n :: "u16 \<Rightarrow> mem \<Rightarrow> ptr \<Rightarrow> mem run" where
  "u16h_to_u8n h m p = wr_bytes m p (store16 (htons h))"

section \<open>Copying questions and records\<close>

text \<open>
  Both copy the structure first and then replace the pointers by fresh copies of the blocks;
  when the name is too long they return -1 and leave the pointers of the source in place.
\<close>

definition mq_copy :: "message_question \<Rightarrow> (int \<times> message_question) run" where
  "mq_copy src =
     bind_run (domain_len (qname src)) (\<lambda>dlen.
     if dlen < 0 then ret (-1, src)
     else
       bind_run (deref (qname src)) (\<lambda>s.
       bind_run (rd_bytes s 0 (nat dlen)) (\<lambda>bs.
       ret (1, src\<lparr>qname := Some bs\<rparr>))))"

definition rr_copy :: "resource_record \<Rightarrow> (int \<times> resource_record) run" where
  "rr_copy src =
     bind_run (domain_len (rr_name src)) (\<lambda>dlen.
     if dlen < 0 then ret (-1, src)
     else
       bind_run
         (if rdlength src \<noteq> 0 then
            bind_run (deref (rdata src)) (\<lambda>d.
            bind_run (rd_bytes d 0 (unat (rdlength src))) (\<lambda>bs. ret (Some bs)))
          else ret None) (\<lambda>rd.
       bind_run (deref (rr_name src)) (\<lambda>s.
       bind_run (rd_bytes s 0 (nat dlen)) (\<lambda>bs.
       ret (1, src\<lparr>rr_name := Some bs, rdata := rd\<rparr>)))))"

section \<open>Parsing a packet\<close>

definition msg_header_from_buf :: "mem \<Rightarrow> ptr \<Rightarrow> message_header run" where
  "msg_header_from_buf buf p =
     bind_run (u8n_to_u16h buf p) (\<lambda>i.
     bind_run (u8n_to_u8h buf (p + 2)) (\<lambda>m1.
     bind_run (u8n_to_u8h buf (p + 3)) (\<lambda>m2.
     bind_run (u8n_to_u16h buf (p + 4)) (\<lambda>qd.
     bind_run (u8n_to_u16h buf (p + 6)) (\<lambda>an.
     bind_run (u8n_to_u16h buf (p + 8)) (\<lambda>ns.
     bind_run (u8n_to_u16h buf (p + 10)) (\<lambda>ar.
     ret \<lparr>msg_id = i, misc1 = m1, misc2 = m2, qdcount = qd, ancount = an, nscount = ns,
          arcount = ar\<rparr>)))))))"

definition msg_question_from_buf :: "mem \<Rightarrow> ptr \<Rightarrow> (int \<times> message_question option) run" where
  "msg_question_from_buf base buf =
     bind_run (read_domain base buf (replicate DOMAIN_BUF_LEN 0) 0 0) (\<lambda>(qname_len, domainbuf, offset).
     if qname_len < 0 then ret (-1, None)
     else
       bind_run (rd_bytes domainbuf 0 (nat qname_len)) (\<lambda>name.
       bind_run (u8n_to_u16h base (buf + offset)) (\<lambda>t.
       bind_run (u8n_to_u16h base (buf + offset + 2)) (\<lambda>c.
       ret (offset + 2 + 2, Some \<lparr>qname = Some name, qtype = t, qclass = c\<rparr>)))))"

text \<open>
  The \<^verbatim>\<open>switch\<close> of \<^verbatim>\<open>msg_rr_from_buf\<close>: fill \<^verbatim>\<open>rrbuf\<close> from the record data at \<open>buf\<close> and compute
  \<^verbatim>\<open>real_rdlength\<close>. In the SOA case \<^verbatim>\<open>buf\<close> is advanced by \<^verbatim>\<open>mname_offset\<close> before the second name
  is read, and the five counters are read from \<^verbatim>\<open>buf + mname_offset + rname_offset\<close>.
\<close>

definition rdata_from_buf :: "mem \<Rightarrow> ptr \<Rightarrow> u16 \<Rightarrow> u16 \<Rightarrow> (u16 \<times> mem) run" where
  "rdata_from_buf base buf t rdlen =
     (let rrbuf = replicate RR_BUF_SIZE 0 in
      if t = RRTYPE_SOA then
        bind_run (read_domain base buf rrbuf 0 0) (\<lambda>(mname_len, rrbuf1, mname_offset).
        let buf1 = buf + mname_offset in
        bind_run (read_domain base buf1 rrbuf1 mname_len 0) (\<lambda>(rname_len, rrbuf2, rname_offset).
        bind_run (rd_bytes base (buf1 + mname_offset + rname_offset) 20) (\<lambda>bs.
        bind_run (wr_bytes rrbuf2 (mname_len + rname_len) bs) (\<lambda>rrbuf3.
        ret (word_of_int (mname_len + rname_len + 20), rrbuf3)))))
      else if t = RRTYPE_MX then
        bind_run (rd_bytes base buf 2) (\<lambda>bs.
        bind_run (wr_bytes rrbuf 0 bs) (\<lambda>rrbuf1.
        bind_run (read_domain base (buf + 2) rrbuf1 2 0) (\<lambda>(exchange_len, rrbuf2, _).
        ret (word_of_int (exchange_len + 2), rrbuf2))))
      else if t = RRTYPE_NS \<or> t = RRTYPE_PTR \<or> t = RRTYPE_TXT \<or> t = RRTYPE_CNAME then
        bind_run (read_domain base buf rrbuf 0 0) (\<lambda>(len, rrbuf1, _).
        ret (word_of_int len, rrbuf1))
      else
        bind_run (rd_bytes base buf (unat rdlen)) (\<lambda>bs.
        bind_run (wr_bytes rrbuf 0 bs) (\<lambda>rrbuf1.
        ret (rdlen, rrbuf1))))"

definition msg_rr_from_buf :: "mem \<Rightarrow> ptr \<Rightarrow> (int \<times> resource_record option) run" where
  "msg_rr_from_buf base buf =
     bind_run (read_domain base buf (replicate DOMAIN_BUF_LEN 0) 0 0) (\<lambda>(name_len, domainbuf, offset).
     if name_len < 0 then ret (-1, None)
     else
       bind_run (rd_bytes domainbuf 0 (nat name_len)) (\<lambda>name.
       bind_run (u8n_to_u16h base (buf + offset)) (\<lambda>t.
       bind_run (u8n_to_u16h base (buf + offset + 2)) (\<lambda>c.
       bind_run (u8n_to_u32h base (buf + offset + 4)) (\<lambda>tt.
       bind_run (u8n_to_u16h base (buf + offset + 8)) (\<lambda>rdlen.
       bind_run (rdata_from_buf base (buf + offset + 10) t rdlen) (\<lambda>(real_rdlength, rrbuf).
       bind_run
         (if real_rdlength \<noteq> 0
          then bind_run (rd_bytes rrbuf 0 (unat real_rdlength)) (\<lambda>bs. ret (Some bs))
          else ret None) (\<lambda>rd.
       ret (offset + 2 + 2 + 4 + 2 + uint rdlen,
            Some \<lparr>rr_name = Some name, rr_type = t, rr_class = c, ttl = tt,
                  rdlength = real_rdlength, rdata = rd\<rparr>)))))))))"

text \<open>
  The loop over a section: allocate and fill one slot after the other, advancing the read
  pointer by the size each item reports, and stop with -1 at the first item that fails.
\<close>

fun read_items :: "(ptr \<Rightarrow> (int \<times> 'a option) run) \<Rightarrow> nat \<Rightarrow> ptr \<Rightarrow> (int \<times> 'a option list \<times> ptr) run"
where
  "read_items f 0 p = ret (1, [], p)"
| "read_items f (Suc k) p =
     bind_run (f p) (\<lambda>(n, x).
     if n < 0 then ret (-1, [x], p)
     else
       bind_run (read_items f k (p + n)) (\<lambda>(r, xs, q).
       ret (r, x # xs, q)))"

text \<open>The array pointer is only assigned when the section is not empty.\<close>

definition section_ptr :: "u16 \<Rightarrow> 'a option list \<Rightarrow> 'a ptr_array \<Rightarrow> 'a ptr_array" where
  "section_ptr cnt xs old = (if cnt \<noteq> 0 then Some xs else old)"

definition message_from_buf :: "mem \<Rightarrow> u32 \<Rightarrow> message \<Rightarrow> (int \<times> message) run" where
  "message_from_buf buf len msg =
     (if len < 12 then ret (-1, msg)
      else
        bind_run (msg_header_from_buf buf 0) (\<lambda>h.
        let msg = msg\<lparr>header := h\<rparr> in
        if misc_TC (misc1 h) \<noteq> 0 then ret (-1, msg)
        else
          bind_run (read_items (msg_question_from_buf buf) (unat (qdcount h)) 12) (\<lambda>(r, qs, p).
          let msg = msg\<lparr>question := section_ptr (qdcount h) qs (question msg)\<rparr> in
          if r < 0 then ret (-1, msg) else
          bind_run (read_items (msg_rr_from_buf buf) (unat (ancount h)) p) (\<lambda>(r, ans, p).
          let msg = msg\<lparr>answer := section_ptr (ancount h) ans (answer msg)\<rparr> in
          if r < 0 then ret (-1, msg) else
          bind_run (read_items (msg_rr_from_buf buf) (unat (nscount h)) p) (\<lambda>(r, nss, p).
          let msg = msg\<lparr>authority := section_ptr (nscount h) nss (authority msg)\<rparr> in
          if r < 0 then ret (-1, msg) else
          bind_run (read_items (msg_rr_from_buf buf) (unat (arcount h)) p) (\<lambda>(r, ars, p).
          let msg = msg\<lparr>addition := section_ptr (arcount h) ars (addition msg)\<rparr> in
          if r < 0 then ret (-1, msg) else ret (1, msg)))))))"

section \<open>Serialising a message\<close>

definition msg_header_to_u8 :: "message_header \<Rightarrow> mem \<Rightarrow> ptr \<Rightarrow> (int \<times> mem) run" where
  "msg_header_to_u8 h dest p =
     bind_run (u16h_to_u8n (msg_id h) dest p) (\<lambda>dest.
     bind_run (wr8 dest (p + 2) (misc1 h)) (\<lambda>dest.
     bind_run (wr8 dest (p + 3) (misc2 h)) (\<lambda>dest.
     bind_run (u16h_to_u8n (qdcount h) dest (p + 4)) (\<lambda>dest.
     bind_run (u16h_to_u8n (ancount h) dest (p + 6)) (\<lambda>dest.
     bind_run (u16h_to_u8n (nscount h) dest (p + 8)) (\<lambda>dest.
     bind_run (u16h_to_u8n (arcount h) dest (p + 10)) (\<lambda>dest.
     ret (12, dest))))))))"

definition msg_question_to_u8 :: "message_question \<Rightarrow> mem \<Rightarrow> ptr \<Rightarrow> (int \<times> mem) run" where
  "msg_question_to_u8 q dest p =
     bind_run (domain_len (qname q)) (\<lambda>len_qname.
     if len_qname = -1 then ret (-1, dest)
     else
       bind_run (deref (qname q)) (\<lambda>s.
       bind_run (rd_bytes s 0 (nat len_qname)) (\<lambda>bs.
       bind_run (wr_bytes dest p bs) (\<lambda>dest.
       bind_run (u16h_to_u8n (qtype q) dest (p + len_qname)) (\<lambda>dest.
       bind_run (u16h_to_u8n (qclass q) dest (p + len_qname + 2)) (\<lambda>dest.
       ret (len_qname + 2 + 2, dest)))))))"

definition msg_rr_to_u8 :: "resource_record \<Rightarrow> mem \<Rightarrow> ptr \<Rightarrow> (int \<times> mem) run" where
  "msg_rr_to_u8 rr dest p =
     bind_run (domain_len (rr_name rr)) (\<lambda>len_name.
     if len_name = -1 then ret (-1, dest)
     else
       bind_run (deref (rr_name rr)) (\<lambda>s.
       bind_run (rd_bytes s 0 (nat len_name)) (\<lambda>bs.
       bind_run (wr_bytes dest p bs) (\<lambda>dest.
       bind_run (u16h_to_u8n (rr_type rr) dest (p + len_name)) (\<lambda>dest.
       bind_run (u16h_to_u8n (rr_class rr) dest (p + len_name + 2)) (\<lambda>dest.
       bind_run (u32h_to_u8n (ttl rr) dest (p + len_name + 4)) (\<lambda>dest.
       bind_run (u16h_to_u8n (rdlength rr) dest (p + len_name + 8)) (\<lambda>dest.
       bind_run
         (if rdlength rr \<noteq> 0 then
            bind_run (deref (rdata rr)) (\<lambda>d.
            bind_run (rd_bytes d 0 (unat (rdlength rr))) (\<lambda>ds.
            wr_bytes dest (p + len_name + 10) ds))
          else ret dest) (\<lambda>dest.
       ret (len_name + 2 + 2 + 4 + 2 + uint (rdlength rr), dest))))))))))"

text \<open>
  The loop over a section. A null entry ends the call with -1 (the result \<^term>\<open>None\<close> here). What an
  item reports is added to the write pointer and to the section size, also when it is -1.
\<close>

fun write_items ::
  "('a \<Rightarrow> mem \<Rightarrow> ptr \<Rightarrow> (int \<times> mem) run) \<Rightarrow> 'a option list \<Rightarrow> nat \<Rightarrow> mem \<Rightarrow> ptr \<Rightarrow> u32 \<Rightarrow>
     (mem \<times> (ptr \<times> u32) option) run"
where
  "write_items f xs 0 dest p sz = ret (dest, Some (p, sz))"
| "write_items f [] (Suc k) dest p sz = fail OutOfBounds"
| "write_items f (None # xs) (Suc k) dest p sz = ret (dest, None)"
| "write_items f (Some x # xs) (Suc k) dest p sz =
     bind_run (f x dest p) (\<lambda>(tmp, dest').
     write_items f xs k dest' (p + tmp) (sz + word_of_int tmp))"

definition write_section ::
  "('a \<Rightarrow> mem \<Rightarrow> ptr \<Rightarrow> (int \<times> mem) run) \<Rightarrow> 'a ptr_array \<Rightarrow> u16 \<Rightarrow> mem \<Rightarrow> ptr \<Rightarrow>
     (mem \<times> (ptr \<times> u32) option) run"
where
  "write_section f arr cnt dest p =
     (if cnt = 0 then ret (dest, Some (p, 0))
      else case arr of None \<Rightarrow> ret (dest, None)
           | Some xs \<Rightarrow> write_items f xs (unat cnt) dest p 0)"

definition message_to_u8 :: "message \<Rightarrow> mem \<Rightarrow> ptr \<Rightarrow> (int \<times> mem) run" where
  "message_to_u8 msg dest p =
     bind_run (msg_header_to_u8 (header msg) dest p) (\<lambda>(hsize, dest).
     bind_run (write_section msg_question_to_u8 (question msg) (qdcount (header msg)) dest (p + hsize))
       (\<lambda>(dest, r). case r of None \<Rightarrow> ret (-1, dest) | Some (p, qsize) \<Rightarrow>
     bind_run (write_section msg_rr_to_u8 (answer msg) (ancount (header msg)) dest p)
       (\<lambda>(dest, r). case r of None \<Rightarrow> ret (-1, dest) | Some (p, ansize) \<Rightarrow>
     bind_run (write_section msg_rr_to_u8 (authority msg) (nscount (header msg)) dest p)
       (\<lambda>(dest, r). case r of None \<Rightarrow> ret (-1, dest) | Some (p, nssize) \<Rightarrow>
     bind_run (write_section msg_rr_to_u8 (addition msg) (arcount (header msg)) dest p)
       (\<lambda>(dest, r). case r of None \<Rightarrow> ret (-1, dest) | Some (p, arsize) \<Rightarrow>
     ret (sint (word_of_int hsize + qsize + ansize + nssize + arsize), dest))))))"

section \<open>Releasing, building and comparing\<close>

text \<open>Both do nothing on a null pointer; otherwise the blocks are freed and the pointers cleared.\<close>

definition free_heap_message_question :: "message_question option \<Rightarrow> message_question option" where
  "free_heap_message_question mqptr = map_option (\<lambda>q. q\<lparr>qname := None\<rparr>) mqptr"

definition free_heap_resource_record :: "resource_record option \<Rightarrow> resource_record option" where
  "free_heap_resource_record rrptr = map_option (\<lambda>rr. rr\<lparr>rr_name := None, rdata := None\<rparr>) rrptr"

text \<open>The release loop of one section: it stops at a null entry and must not run off the array.\<close>

fun free_items :: "nat \<Rightarrow> 'a option list \<Rightarrow> unit run" where
  "free_items 0 xs = ret ()"
| "free_items (Suc k) [] = fail OutOfBounds"
| "free_items (Suc k) (None # xs) = ret ()"
| "free_items (Suc k) (Some x # xs) = free_items k xs"

definition free_section :: "u16 \<Rightarrow> 'a ptr_array \<Rightarrow> 'a ptr_array run" where
  "free_section cnt arr =
     (case arr of None \<Rightarrow> ret None
      | Some xs \<Rightarrow> bind_run (free_items (unat cnt) xs) (\<lambda>_. ret None))"

definition free_heap_message :: "message \<Rightarrow> (int \<times> message) run" where
  "free_heap_message msg =
     bind_run (free_section (qdcount (header msg)) (question msg)) (\<lambda>qs.
     bind_run (free_section (ancount (header msg)) (answer msg)) (\<lambda>ans.
     bind_run (free_section (nscount (header msg)) (authority msg)) (\<lambda>nss.
     bind_run (free_section (arcount (header msg)) (addition msg)) (\<lambda>ars.
     ret (1, msg\<lparr>question := qs, answer := ans, authority := nss, addition := ars\<rparr>)))))"

definition create_resource_record ::
  "mem \<Rightarrow> u16 \<Rightarrow> u16 \<Rightarrow> u32 \<Rightarrow> u16 \<Rightarrow> mem \<Rightarrow> resource_record run"
where
  "create_resource_record name t c tt rdlen rd =
     bind_run (domain_len (Some name)) (\<lambda>dlen.
     if dlen = -1 then fail ThreadExit
     else
       bind_run (rd_bytes name 0 (nat dlen)) (\<lambda>nm.
       bind_run (rd_bytes rd 0 (unat rdlen)) (\<lambda>d.
       ret \<lparr>rr_name = Some nm, rr_type = t, rr_class = c, ttl = tt, rdlength = rdlen,
            rdata = (if rdlen \<noteq> 0 then Some d else None)\<rparr>)))"

text \<open>A C \<^verbatim>\<open>int\<close> passed as a \<^verbatim>\<open>size_t\<close>.\<close>

definition size_t :: "int \<Rightarrow> nat" where
  "size_t i = nat (i mod 2 ^ 64)"

definition rr_cmp :: "resource_record \<Rightarrow> resource_record \<Rightarrow> bool run" where
  "rr_cmp rr1 rr2 =
     bind_run (domain_len (rr_name rr1)) (\<lambda>dlen.
     bind_run (deref (rr_name rr1)) (\<lambda>n1.
     bind_run (deref (rr_name rr2)) (\<lambda>n2.
     bind_run (strncmp n1 n2 (size_t dlen)) (\<lambda>c.
     if c = 0 \<and> rdlength rr1 = rdlength rr2 \<and> rr_type rr1 = rr_type rr2 \<and>
        rr_class rr1 = rr_class rr2
     then
       if rdlength rr1 = 0 then ret True
       else
         bind_run (deref (rdata rr1)) (\<lambda>d1.
         bind_run (deref (rdata rr2)) (\<lambda>d2.
         bind_run (strncmp d1 d2 (unat (rdlength rr1))) (\<lambda>c.
         ret (c = 0))))
     else ret False))))"

definition check_blocked :: "resource_record \<Rightarrow> bool run" where
  "check_blocked rr =
     bind_run (deref (rdata rr)) (\<lambda>d.
     bind_run (rd_bytes d 0 4) (\<lambda>bs. ret (bs = [0, 0, 0, 0])))"

definition construct_error_response :: "byte \<Rightarrow> message option \<Rightarrow> int \<times> message option" where
  "construct_error_response rcode msgptr =
     (case msgptr of None \<Rightarrow> (-1, None)
      | Some _ \<Rightarrow> (1, Some (zero_message\<lparr>header := zero_header\<lparr>
          misc1 := create_misc1 QR_RESP OPCODE_QUERY AA_TRUE TC_FALSE RD_FALSE,
          misc2 := create_misc2 RA_TRUE Z_FLAG rcode\<rparr>\<rparr>)))"

end
