(* ===== verification/Message_Codec.thy ===== *)
theory Message_Codec
  imports Message
begin

text \<open>
  The wire format of RFC 1035 as an encoding function, and the correctness of
  \<^verbatim>\<open>message_to_u8\<close> and \<^verbatim>\<open>message_from_buf\<close> against it. The contract of one item of a section
  (a question or a resource record) is the locale \<open>item_writer\<close> for serialising and
  \<open>item_reader\<close> for parsing; the loops over a section are proved once in the locales.
\<close>

section \<open>The wire format\<close>

definition be16 :: "u16 \<Rightarrow> byte list" where
  "be16 w = store16 (htons w)"

definition be32 :: "u32 \<Rightarrow> byte list" where
  "be32 w = store32 (htonl w)"

definition enc_header :: "message_header \<Rightarrow> byte list" where
  "enc_header h = be16 (msg_id h) @ [misc1 h, misc2 h] @ be16 (qdcount h) @ be16 (ancount h) @
     be16 (nscount h) @ be16 (arcount h)"

definition bytes_of :: "mem option \<Rightarrow> byte list" where
  "bytes_of b = (case b of None \<Rightarrow> [] | Some s \<Rightarrow> s)"

definition enc_question :: "message_question \<Rightarrow> byte list" where
  "enc_question q = bytes_of (qname q) @ be16 (qtype q) @ be16 (qclass q)"

definition enc_rr :: "resource_record \<Rightarrow> byte list" where
  "enc_rr rr = bytes_of (rr_name rr) @ be16 (rr_type rr) @ be16 (rr_class rr) @ be32 (ttl rr) @
     be16 (rdlength rr) @ bytes_of (rdata rr)"

definition section_items :: "'a ptr_array \<Rightarrow> 'a list" where
  "section_items arr = (case arr of None \<Rightarrow> [] | Some xs \<Rightarrow> List.map_filter id xs)"

definition enc_section :: "('a \<Rightarrow> byte list) \<Rightarrow> 'a ptr_array \<Rightarrow> byte list" where
  "enc_section enc arr = concat (map enc (section_items arr))"

definition enc_message :: "message \<Rightarrow> byte list" where
  "enc_message m = enc_header (header m) @ enc_section enc_question (question m) @
     enc_section enc_rr (answer m) @ enc_section enc_rr (authority m) @
     enc_section enc_rr (addition m)"

section \<open>Well-formed messages\<close>

text \<open>A NUL-terminated name whose length byte count fits the limit of \<^verbatim>\<open>domain_len\<close>.\<close>

definition c_name :: "mem option \<Rightarrow> bool" where
  "c_name nm = (case nm of None \<Rightarrow> False
     | Some s \<Rightarrow> s \<noteq> [] \<and> last s = 0 \<and> nul_free (butlast s) \<and> length s \<le> 255)"

text \<open>No byte of it looks like a compression pointer to \<^verbatim>\<open>read_domain\<close>.\<close>

definition pointer_free :: "byte list \<Rightarrow> bool" where
  "pointer_free bs \<longleftrightarrow> list_all (\<lambda>b. \<not> is_pointer b) bs"

definition wf_question :: "message_question \<Rightarrow> bool" where
  "wf_question q \<longleftrightarrow> c_name (qname q)"

definition wf_rr :: "resource_record \<Rightarrow> bool" where
  "wf_rr rr \<longleftrightarrow> c_name (rr_name rr) \<and>
     (case rdata rr of None \<Rightarrow> rdlength rr = 0
      | Some d \<Rightarrow> rdlength rr \<noteq> 0 \<and> length d = unat (rdlength rr))"

definition wf_section :: "('a \<Rightarrow> bool) \<Rightarrow> 'a ptr_array \<Rightarrow> u16 \<Rightarrow> bool" where
  "wf_section ok arr cnt = (case arr of None \<Rightarrow> cnt = 0
     | Some xs \<Rightarrow> cnt \<noteq> 0 \<and> length xs = unat cnt \<and>
         list_all (\<lambda>x. case x of None \<Rightarrow> False | Some y \<Rightarrow> ok y) xs)"

definition wf_message :: "message \<Rightarrow> bool" where
  "wf_message m \<longleftrightarrow>
     wf_section wf_question (question m) (qdcount (header m)) \<and>
     wf_section wf_rr (answer m) (ancount (header m)) \<and>
     wf_section wf_rr (authority m) (nscount (header m)) \<and>
     wf_section wf_rr (addition m) (arcount (header m))"

text \<open>
  What the parser reads back unchanged: names without pointer bytes, and record data that fits
  \<^verbatim>\<open>rrbuf\<close> and, for the types whose data the parser expands, is an uncompressed name. SOA records
  are not among them.
\<close>

definition plain_name :: "byte list \<Rightarrow> bool" where
  "plain_name s \<longleftrightarrow> s \<noteq> [] \<and> last s = 0 \<and> nul_free (butlast s) \<and> pointer_free s"

definition plain_rdata :: "u16 \<Rightarrow> byte list \<Rightarrow> bool" where
  "plain_rdata t d \<longleftrightarrow> length d \<le> RR_BUF_SIZE \<and> t \<noteq> RRTYPE_SOA \<and>
     (if t = RRTYPE_MX then 2 < length d \<and> plain_name (drop 2 d)
      else if t = RRTYPE_NS \<or> t = RRTYPE_PTR \<or> t = RRTYPE_TXT \<or> t = RRTYPE_CNAME
      then plain_name d else True)"

definition plain_question :: "message_question \<Rightarrow> bool" where
  "plain_question q \<longleftrightarrow> wf_question q \<and> pointer_free (bytes_of (qname q))"

definition plain_rr :: "resource_record \<Rightarrow> bool" where
  "plain_rr rr \<longleftrightarrow> wf_rr rr \<and> pointer_free (bytes_of (rr_name rr)) \<and>
     plain_rdata (rr_type rr) (bytes_of (rdata rr))"

definition plain_message :: "message \<Rightarrow> bool" where
  "plain_message m \<longleftrightarrow> misc_TC (misc1 (header m)) = 0 \<and>
     wf_section plain_question (question m) (qdcount (header m)) \<and>
     wf_section plain_rr (answer m) (ancount (header m)) \<and>
     wf_section plain_rr (authority m) (nscount (header m)) \<and>
     wf_section plain_rr (addition m) (arcount (header m))"

section \<open>Integers and headers\<close>

lemma length_be [simp]: "length (be16 w) = 2" "length (be32 v) = 4"
  by (simp_all add: be16_def be32_def)

lemma u16h_to_u8n_fits: "fits m p 2 \<Longrightarrow> u16h_to_u8n w m p = ret (overlay m p (be16 w))"
  by (simp add: u16h_to_u8n_def be16_def wr_bytes_fits)

lemma u32h_to_u8n_fits: "fits m p 4 \<Longrightarrow> u32h_to_u8n w m p = ret (overlay m p (be32 w))"
  by (simp add: u32h_to_u8n_def be32_def wr_bytes_fits)

lemma u8n_to_u16h_be16: "holds_at m p (be16 w) \<Longrightarrow> u8n_to_u16h m p = ret w"
  by (auto simp: u8n_to_u16h_def be16_def store16_def load16_store16)

lemma u8n_to_u32h_be32: "holds_at m p (be32 w) \<Longrightarrow> u8n_to_u32h m p = ret w"
  by (simp add: u8n_to_u32h_def be32_def store32_def load32_bytes add.assoc)

lemma length_enc_header [simp]: "length (enc_header h) = 12"
  by (simp add: enc_header_def)

lemma overlay_append':
  "fits m p (length as + length bs) \<Longrightarrow> q = p + int (length as) \<Longrightarrow>
     overlay (overlay m p as) q bs = overlay m p (as @ bs)"
  by (simp add: overlay_append)

text \<open>One more field after the bytes already written.\<close>

lemma fits_mono: "fits m p n \<Longrightarrow> k \<le> n \<Longrightarrow> fits m p k"
  by (auto simp: fits_def)

lemma fits_shift: "fits m p (k + n) \<Longrightarrow> fits m (p + int k) n"
  by (auto simp: fits_def)

lemma put_bytes_after:
  assumes "fits m p (length as + length bs)" and "q = p + int (length as)"
  shows "wr_bytes (overlay m p as) q bs = ret (overlay m p (as @ bs))"
proof -
  have "fits m p (length as)" using assms(1) by (rule fits_mono) simp
  then have "fits (overlay m p as) q (length bs)"
    using assms by (simp add: fits_shift)
  then show ?thesis using assms by (simp add: wr_bytes_fits overlay_append')
qed

lemma put_after:
  "fits m p (length as + 2) \<Longrightarrow> q = p + int (length as) \<Longrightarrow>
     u16h_to_u8n w (overlay m p as) q = ret (overlay m p (as @ be16 w))"
  "fits m p (length as + 4) \<Longrightarrow> q = p + int (length as) \<Longrightarrow>
     u32h_to_u8n v (overlay m p as) q = ret (overlay m p (as @ be32 v))"
  "fits m p (length as + 1) \<Longrightarrow> q = p + int (length as) \<Longrightarrow>
     wr8 (overlay m p as) q b = ret (overlay m p (as @ [b]))"
  using put_bytes_after [of m p as "be16 w" q] put_bytes_after [of m p as "be32 v" q]
    put_bytes_after [of m p as "[b]" q]
  by (simp_all add: u16h_to_u8n_def be16_def u32h_to_u8n_def be32_def wr8_wr_bytes)

lemma msg_header_to_u8_writes:
  assumes "fits dest p 12"
  shows "msg_header_to_u8 h dest p = ret (12, overlay dest p (enc_header h))"
  using fits_mono [OF assms]
  by (simp add: msg_header_to_u8_def u16h_to_u8n_fits put_after enc_header_def)

lemma msg_header_from_buf_reads:
  "holds_at m p (enc_header h) \<Longrightarrow> msg_header_from_buf m p = ret h"
  by (simp add: msg_header_from_buf_def enc_header_def u8n_to_u8h_def add.assoc)
    (auto dest!: u8n_to_u16h_be16)

section \<open>Names\<close>

lemma c_nameE:
  assumes "c_name nm"
  obtains bs where "nm = Some (bs @ [0])" "nul_free bs" "length bs < 255"
proof -
  from assms obtain s where s: "nm = Some s" "s \<noteq> []" "last s = 0" "nul_free (butlast s)" "length s \<le> 255"
    by (auto simp: c_name_def split: option.splits)
  then have "nm = Some (butlast s @ [0])" using append_butlast_last_id [of s] by simp
  with s that [of "butlast s"] show ?thesis by simp
qed

lemma plain_nameE:
  assumes "plain_name s"
  obtains bs where "s = bs @ [0]" "nul_free bs" "pointer_free bs"
proof -
  from assms have s: "s = butlast s @ [0]" "nul_free (butlast s)" "pointer_free s"
    using append_butlast_last_id [of s] by (auto simp: plain_name_def)
  then have "pointer_free (butlast s)"
    by (metis list_all_append pointer_free_def)
  with s that show ?thesis by blast
qed

lemma domain_len_c_name: "c_name nm \<Longrightarrow> domain_len nm = ret (int (length (bytes_of nm)))"
proof (erule c_nameE)
  fix bs assume "nm = Some (bs @ [0])" "nul_free bs" "length bs < 255"
  then show ?thesis
    using strnlen_cstring [of bs 512 "[]"] by (simp add: domain_len_def bytes_of_def)
qed

lemma bytes_of_simps [simp]: "bytes_of (Some s) = s" "bytes_of None = []"
  by (simp_all add: bytes_of_def)

lemma c_name_block:
  assumes "c_name nm"
  obtains s where "nm = Some s" "domain_len (Some s) = ret (int (length s))" "length s \<le> 255"
proof -
  from assms obtain bs where "nm = Some (bs @ [0])" "length bs < 255" by (auto elim: c_nameE)
  with domain_len_c_name [OF assms] that [of "bs @ [0]"] show ?thesis by simp
qed

lemma rd_bytes_all [simp]: "rd_bytes s 0 (length s) = ret s"
  by (simp add: rd_bytes_def)

lemma name_at_plain:
  "nul_free bs \<Longrightarrow> pointer_free bs \<Longrightarrow> holds_at m p (bs @ [0]) \<Longrightarrow> name_at m p bs (Suc (length bs))"
proof (induction bs arbitrary: p)
  case Nil
  then show ?case using name_end [of m p] by simp
next
  case (Cons b bs)
  then show ?case by (auto intro!: name_byte simp: pointer_free_def)
qed

text \<open>Reading an uncompressed name into a zeroed buffer.\<close>

lemma read_domain_plain:
  assumes "nul_free bs" "pointer_free bs" "holds_at m p (bs @ [0])" "fits dest di (length bs)"
  shows "read_domain m p dest di 0 =
    ret (int (length bs) + 1, overlay dest di bs, int (length bs) + 1)"
  using read_domain_loop_name [OF name_at_plain [OF assms(1-3)] assms(4), of 1 0]
  by (simp add: read_domain_def add.commute)

lemma overlay_zeros:
  assumes "length bs < n"
  shows "take (Suc (length bs)) (overlay (replicate n 0) 0 bs) = bs @ [0]"
proof -
  have "replicate (n - length bs) (0::byte) = 0 # replicate (n - length bs - 1) 0"
    using assms by (cases "n - length bs") simp_all
  then show ?thesis by (simp add: overlay_def)
qed

lemma rd_bytes_overlay_zeros:
  "length bs < n \<Longrightarrow> rd_bytes (overlay (replicate n 0) 0 bs) 0 (Suc (length bs)) = ret (bs @ [0])"
  using overlay_zeros [of bs n] by (simp add: rd_bytes_def overlay_def)

lemma wf_section_SomeE:
  assumes "wf_section ok (Some ys) cnt"
  obtains xs where "ys = map Some xs" "list_all ok xs" "section_items (Some ys) = xs"
    "cnt \<noteq> 0" "length xs = unat cnt"
proof -
  from assms have ys: "cnt \<noteq> 0" "length ys = unat cnt"
    "list_all (\<lambda>x. case x of None \<Rightarrow> False | Some y \<Rightarrow> ok y) ys"
    by (simp_all add: wf_section_def)
  from ys(3) have "ys = map Some (List.map_filter id ys) \<and> list_all ok (List.map_filter id ys)"
    by (induction ys) (auto simp: map_filter_simps split: option.splits)
  then have "ys = map Some (section_items (Some ys))" "list_all ok (section_items (Some ys))"
    by (simp_all add: section_items_def)
  moreover from this(1) have "length (section_items (Some ys)) = unat cnt"
    using ys(2) by (metis length_map)
  ultimately show ?thesis using that ys(1) by blast
qed

section \<open>The contract of an item and the loops over a section\<close>

locale item_writer =
  fixes enc :: "'a \<Rightarrow> byte list"
    and put :: "'a \<Rightarrow> mem \<Rightarrow> ptr \<Rightarrow> (int \<times> mem) run"
    and ok :: "'a \<Rightarrow> bool"
  assumes put_item: "ok x \<Longrightarrow> fits dest p (length (enc x)) \<Longrightarrow>
    put x dest p = ret (int (length (enc x)), overlay dest p (enc x))"
begin

lemma write_items_ok:
  "list_all ok xs \<Longrightarrow> fits dest p (length (concat (map enc xs))) \<Longrightarrow>
     write_items put (map Some xs) (length xs) dest p sz =
       ret (overlay dest p (concat (map enc xs)),
            Some (p + int (length (concat (map enc xs))), sz + of_nat (length (concat (map enc xs)))))"
proof (induction xs arbitrary: dest p sz)
  case Nil
  then show ?case by simp
next
  case (Cons x xs)
  let ?e = "enc x" and ?es = "concat (map enc xs)"
  from Cons.prems have f: "fits dest p (length ?e)" "fits dest (p + int (length ?e)) (length ?es)"
    by (auto simp: fits_def)
  have "overlay (overlay dest p ?e) (p + int (length ?e)) ?es = overlay dest p (?e @ ?es)"
    using Cons.prems(2) by (intro overlay_append) simp
  then show ?case
    using Cons.prems(1) f
      Cons.IH [of "overlay dest p ?e" "p + int (length ?e)" "sz + of_nat (length ?e)"]
    by (simp add: put_item add.assoc)
qed

text \<open>A fault in the middle of a section.\<close>

lemma write_items_fault:
  assumes "\<And>dest p. put y dest p = fail e"
  shows "list_all ok xs \<Longrightarrow> fits dest p (length (concat (map enc xs))) \<Longrightarrow>
    write_items put (map Some xs @ Some y # ys) (Suc (length xs + k)) dest p sz = fail e"
proof (induction xs arbitrary: dest p sz)
  case (Cons x xs)
  then have "fits dest p (length (enc x))" "fits dest (p + int (length (enc x))) (length (concat (map enc xs)))"
    by (auto simp: fits_def)
  with Cons show ?case by (simp add: put_item)
qed (simp add: assms)

lemma write_section_ok:
  assumes "wf_section ok arr cnt" and "fits dest p (length (enc_section enc arr))"
  shows "write_section put arr cnt dest p =
    ret (overlay dest p (enc_section enc arr),
         Some (p + int (length (enc_section enc arr)), of_nat (length (enc_section enc arr))))"
proof (cases arr)
  case None
  with assms show ?thesis
    by (simp add: write_section_def enc_section_def section_items_def wf_section_def)
next
  case (Some ys)
  then obtain xs where "ys = map Some xs" "list_all ok xs" "section_items arr = xs"
    "cnt \<noteq> 0" "length xs = unat cnt"
    using assms(1) by (auto elim: wf_section_SomeE)
  with Some assms(2) write_items_ok [of xs dest p 0] show ?thesis
    by (simp add: write_section_def enc_section_def)
qed

end

locale item_reader =
  fixes enc :: "'a \<Rightarrow> byte list"
    and get :: "mem \<Rightarrow> ptr \<Rightarrow> (int \<times> 'a option) run"
    and ok :: "'a \<Rightarrow> bool"
  assumes get_item: "ok x \<Longrightarrow> holds_at base p (enc x) \<Longrightarrow>
    get base p = ret (int (length (enc x)), Some x)"
begin

lemma read_items_ok:
  "list_all ok xs \<Longrightarrow> holds_at base p (concat (map enc xs)) \<Longrightarrow>
     read_items (get base) (length xs) p =
       ret (1, map Some xs, p + int (length (concat (map enc xs))))"
  by (induction xs arbitrary: p) (auto simp: get_item add.assoc)

lemma read_section_ok:
  assumes "wf_section ok arr cnt" and "holds_at base p (enc_section enc arr)"
  shows "\<exists>xs. read_items (get base) (unat cnt) p =
      ret (1, xs, p + int (length (enc_section enc arr))) \<and> section_ptr cnt xs None = arr"
proof (cases arr)
  case None
  with assms show ?thesis
    by (simp add: enc_section_def section_items_def wf_section_def section_ptr_def)
next
  case (Some ys)
  then obtain xs where "ys = map Some xs" "list_all ok xs" "section_items arr = xs"
    "cnt \<noteq> 0" "length xs = unat cnt"
    using assms(1) by (auto elim: wf_section_SomeE)
  with Some assms(2) read_items_ok [of xs base p] show ?thesis
    by (auto simp: enc_section_def section_ptr_def)
qed

end

section \<open>Questions and resource records satisfy the contracts\<close>

interpretation question_writer: item_writer enc_question msg_question_to_u8 wf_question
proof
  fix q dest p
  assume "wf_question q" and f: "fits dest p (length (enc_question q))"
  then obtain s where s: "qname q = Some s" "domain_len (Some s) = ret (int (length s))"
    by (auto simp: wf_question_def elim: c_name_block)
  then have "fits dest p (length s + 4)" using f by (simp add: enc_question_def)
  then have "\<And>k. k \<le> length s + 4 \<Longrightarrow> fits dest p k" by (rule fits_mono)
  with s show "msg_question_to_u8 q dest p =
      ret (int (length (enc_question q)), overlay dest p (enc_question q))"
    by (simp add: msg_question_to_u8_def wr_bytes_fits put_after enc_question_def add.assoc)
qed

interpretation rr_writer: item_writer enc_rr msg_rr_to_u8 wf_rr
proof
  fix rr dest p
  assume ok: "wf_rr rr" and f: "fits dest p (length (enc_rr rr))"
  then obtain s where s: "rr_name rr = Some s" "domain_len (Some s) = ret (int (length s))"
    by (auto simp: wf_rr_def elim: c_name_block)
  let ?d = "bytes_of (rdata rr)"
  have "fits dest p (length s + 10 + length ?d)" using f s by (simp add: enc_rr_def add.assoc)
  then have fk: "\<And>k. k \<le> length s + 10 + length ?d \<Longrightarrow> fits dest p k" by (rule fits_mono)
  show "msg_rr_to_u8 rr dest p = ret (int (length (enc_rr rr)), overlay dest p (enc_rr rr))"
  proof (cases "rdata rr")
    case None
    with ok have "rdlength rr = 0" by (simp add: wf_rr_def)
    with s None fk show ?thesis
      by (simp add: msg_rr_to_u8_def wr_bytes_fits put_after enc_rr_def add.assoc
          cong: bind_run_weak_cong)
  next
    case (Some d)
    with ok have d: "rdlength rr \<noteq> 0" "unat (rdlength rr) = length d"
      by (simp_all add: wf_rr_def)
    then have "uint (rdlength rr) = int (length d)"
      by (simp flip: d(2))
    with d s Some fk show ?thesis
      by (simp add: msg_rr_to_u8_def wr_bytes_fits put_after put_bytes_after enc_rr_def add.assoc
          cong: bind_run_weak_cong)
  qed
qed

lemma msg_question_from_buf_reads:
  assumes bs: "qname q = Some (bs @ [0])" "nul_free bs" "pointer_free bs" "length bs < DOMAIN_BUF_LEN"
    and h: "holds_at base p (enc_question q)"
  shows "msg_question_from_buf base p = ret (int (length (enc_question q)), Some q)"
proof -
  from bs h have h1: "holds_at base p (bs @ [0])"
    and "holds_at base (p + (int (length bs) + 1)) (be16 (qtype q))"
    and "holds_at base (p + (int (length bs) + 1) + 2) (be16 (qclass q))"
    by (simp_all add: enc_question_def ac_simps)
  then have "u8n_to_u16h base (p + (int (length bs) + 1)) = ret (qtype q)"
    and "u8n_to_u16h base (p + (int (length bs) + 1) + 2) = ret (qclass q)"
    by (blast intro: u8n_to_u16h_be16)+
  moreover have "read_domain base p (replicate DOMAIN_BUF_LEN 0) 0 0 =
      ret (int (length bs) + 1, overlay (replicate DOMAIN_BUF_LEN 0) 0 bs, int (length bs) + 1)"
    using bs h1 by (intro read_domain_plain) (auto simp: fits_def)
  moreover have "nat (int (length bs) + 1) = Suc (length bs)" by simp
  ultimately show ?thesis
    using bs rd_bytes_overlay_zeros [of bs DOMAIN_BUF_LEN]
    by (simp add: msg_question_from_buf_def enc_question_def)
qed

interpretation question_reader: item_reader enc_question msg_question_from_buf plain_question
proof
  fix q base p
  assume ok: "plain_question q" and h: "holds_at base p (enc_question q)"
  from ok obtain bs where bs: "qname q = Some (bs @ [0])" "nul_free bs" "length bs < 255" "pointer_free bs"
    by (auto simp: plain_question_def wf_question_def pointer_free_def elim!: c_nameE)
  then show "msg_question_from_buf base p = ret (int (length (enc_question q)), Some q)"
    using h by (intro msg_question_from_buf_reads) auto
qed

lemma take_overlay_all: "length d \<le> n \<Longrightarrow> take (length d) (overlay (replicate n 0) 0 d) = d"
  by (simp add: overlay_def)

lemma rdata_from_buf_plain:
  assumes "plain_rdata t d" and "holds_at base q d" and "length d = unat rdlen"
  shows "\<exists>rrbuf. rdata_from_buf base q t rdlen = ret (rdlen, rrbuf) \<and>
    length rrbuf = RR_BUF_SIZE \<and> take (length d) rrbuf = d"
proof -
  let ?z = "replicate RR_BUF_SIZE 0 :: mem"
  have len: "length d \<le> RR_BUF_SIZE" and soa: "t \<noteq> RRTYPE_SOA"
    using assms(1) by (simp_all add: plain_rdata_def)
  have rdlen: "word_of_int (int (length d)) = rdlen"
    using assms(3) by simp
  have name: ?thesis
    if t: "t = RRTYPE_NS \<or> t = RRTYPE_PTR \<or> t = RRTYPE_TXT \<or> t = RRTYPE_CNAME"
  proof -
    from t assms(1) obtain bs where bs: "d = bs @ [0]" "nul_free bs" "pointer_free bs"
      by (auto simp: plain_rdata_def elim!: plain_nameE)
    then have "read_domain base q ?z 0 0 =
        ret (int (length bs) + 1, overlay ?z 0 bs, int (length bs) + 1)"
      using assms(2) len by (intro read_domain_plain) (auto simp: fits_def)
    moreover have "rdata_from_buf base q t rdlen =
        bind_run (read_domain base q ?z 0 0) (\<lambda>(len, rrbuf1, _). ret (word_of_int len, rrbuf1))"
      using t by (elim disjE) (simp_all add: rdata_from_buf_def Let_def)
    ultimately show ?thesis
      using bs len rdlen overlay_zeros [of bs RR_BUF_SIZE] by (simp add: fits_def add.commute)
  qed
  have mx: ?thesis if t: "t = RRTYPE_MX"
  proof -
    from t assms(1) have long: "2 < length d" and pn: "plain_name (drop 2 d)"
      by (simp_all add: plain_rdata_def)
    from pn obtain bs where bs: "drop 2 d = bs @ [0]" "nul_free bs" "pointer_free bs"
      by (rule plain_nameE)
    define hd2 where "hd2 = take 2 d"
    have d: "d = hd2 @ bs @ [0]" and h2: "length hd2 = 2"
      using long bs(1) append_take_drop_id [of 2 d] by (simp_all add: hd2_def)
    have "rd_bytes base q 2 = ret hd2"
      using rd_bytes_holds_at [of base q hd2] assms(2) d h2 by simp
    moreover have "wr_bytes ?z 0 hd2 = ret (overlay ?z 0 hd2)"
      using h2 by (intro wr_bytes_fits) (simp add: fits_def)
    moreover have "read_domain base (q + 2) (overlay ?z 0 hd2) 2 0 =
        ret (int (length bs) + 1, overlay (overlay ?z 0 hd2) 2 bs, int (length bs) + 1)"
      using bs assms(2) d h2 len by (intro read_domain_plain) (auto simp: fits_def)
    moreover have "overlay (overlay ?z 0 hd2) 2 bs = overlay ?z 0 (hd2 @ bs)"
      using len d h2 by (intro overlay_append') (auto simp: fits_def)
    moreover have "rdata_from_buf base q t rdlen =
        bind_run (rd_bytes base q 2) (\<lambda>bs.
        bind_run (wr_bytes ?z 0 bs) (\<lambda>rrbuf1.
        bind_run (read_domain base (q + 2) rrbuf1 2 0) (\<lambda>(exchange_len, rrbuf2, _).
        ret (word_of_int (exchange_len + 2), rrbuf2))))"
      using t by (simp add: rdata_from_buf_def Let_def)
    ultimately show ?thesis
      using rdlen d h2 len overlay_zeros [of "hd2 @ bs" RR_BUF_SIZE]
      by (simp add: fits_def add.commute)
  qed
  have other: ?thesis if "t \<noteq> RRTYPE_MX"
    "\<not> (t = RRTYPE_NS \<or> t = RRTYPE_PTR \<or> t = RRTYPE_TXT \<or> t = RRTYPE_CNAME)"
  proof -
    have "rd_bytes base q (unat rdlen) = ret d"
      using rd_bytes_holds_at [OF assms(2)] assms(3) by simp
    moreover have "wr_bytes ?z 0 d = ret (overlay ?z 0 d)"
      using len by (intro wr_bytes_fits) (simp add: fits_def)
    ultimately show ?thesis
      using that soa len take_overlay_all [of d RR_BUF_SIZE]
      by (simp add: rdata_from_buf_def fits_def)
  qed
  from name mx other show ?thesis by blast
qed

interpretation rr_reader: item_reader enc_rr msg_rr_from_buf plain_rr
proof
  fix rr base p
  assume ok: "plain_rr rr" and h: "holds_at base p (enc_rr rr)"
  then obtain bs where bs: "rr_name rr = Some (bs @ [0])" "nul_free bs" "length bs < 255" "pointer_free bs"
    by (auto simp: plain_rr_def wf_rr_def pointer_free_def elim!: c_nameE)
  let ?o = "int (length bs) + 1" and ?d = "bytes_of (rdata rr)"
  from h bs have h1: "holds_at base p (bs @ [0])"
    and "holds_at base (p + ?o) (be16 (rr_type rr))"
    and "holds_at base (p + ?o + 2) (be16 (rr_class rr))"
    and "holds_at base (p + ?o + 4) (be32 (ttl rr))"
    and "holds_at base (p + ?o + 8) (be16 (rdlength rr))"
    and h2: "holds_at base (p + ?o + 10) ?d"
    by (simp_all add: enc_rr_def ac_simps)
  then have f: "u8n_to_u16h base (p + ?o) = ret (rr_type rr)"
    "u8n_to_u16h base (p + ?o + 2) = ret (rr_class rr)"
    "u8n_to_u32h base (p + ?o + 4) = ret (ttl rr)"
    "u8n_to_u16h base (p + ?o + 8) = ret (rdlength rr)"
    by (blast intro: u8n_to_u16h_be16 u8n_to_u32h_be32)+
  have dlen: "length ?d = unat (rdlength rr)" and pd: "plain_rdata (rr_type rr) ?d"
    using ok by (auto simp: plain_rr_def wf_rr_def split: option.splits)
  obtain rrbuf where rrbuf:
    "rdata_from_buf base (p + ?o + 10) (rr_type rr) (rdlength rr) = ret (rdlength rr, rrbuf)"
    "length rrbuf = RR_BUF_SIZE" "take (length ?d) rrbuf = ?d"
    using rdata_from_buf_plain [OF pd h2 dlen] by blast
  have rd: "(if rdlength rr \<noteq> 0 then bind_run (rd_bytes rrbuf 0 (unat (rdlength rr))) (\<lambda>bs. ret (Some bs))
      else ret None) = ret (rdata rr)"
  proof (cases "rdata rr")
    case None
    with ok show ?thesis by (simp add: plain_rr_def wf_rr_def)
  next
    case (Some d)
    with ok rrbuf pd show ?thesis
      by (auto simp: plain_rr_def wf_rr_def plain_rdata_def rd_bytes_take)
  qed
  have dom: "read_domain base p (replicate DOMAIN_BUF_LEN 0) 0 0 =
      ret (?o, overlay (replicate DOMAIN_BUF_LEN 0) 0 bs, ?o)"
    using bs h1 by (intro read_domain_plain) (auto simp: fits_def)
  have name: "rd_bytes (overlay (replicate DOMAIN_BUF_LEN 0) 0 bs) 0 (nat ?o) = ret (bs @ [0])"
    using rd_bytes_overlay_zeros [of bs DOMAIN_BUF_LEN] bs(3) by (simp add: nat_add_distrib)
  have "uint (rdlength rr) = int (length ?d)" by (simp add: dlen)
  then show "msg_rr_from_buf base p = ret (int (length (enc_rr rr)), Some rr)"
    using f rrbuf(1) rd dom name bs(1)
    by (simp add: msg_rr_from_buf_def enc_rr_def cong: bind_run_weak_cong if_weak_cong)
qed

section \<open>Whole messages\<close>

lemma message_to_u8_writes:
  assumes "wf_message m" and "fits dest p (length (enc_message m))" and "length (enc_message m) < 2 ^ 31"
  shows "message_to_u8 m dest p = ret (int (length (enc_message m)), overlay dest p (enc_message m))"
proof -
  let ?h = "enc_header (header m)" and ?q = "enc_section enc_question (question m)"
    and ?a = "enc_section enc_rr (answer m)" and ?n = "enc_section enc_rr (authority m)"
    and ?r = "enc_section enc_rr (addition m)"
  have fk: "\<And>k. k \<le> 12 + length ?q + length ?a + length ?n + length ?r \<Longrightarrow> fits dest p k"
    using fits_mono [OF assms(2)] by (simp add: enc_message_def)
  have ok: "wf_section wf_question (question m) (qdcount (header m))"
    "wf_section wf_rr (answer m) (ancount (header m))"
    "wf_section wf_rr (authority m) (nscount (header m))"
    "wf_section wf_rr (addition m) (arcount (header m))"
    using assms(1) by (simp_all add: wf_message_def)
  have H: "msg_header_to_u8 (header m) dest p = ret (12, overlay dest p ?h)"
    by (rule msg_header_to_u8_writes) (rule fk, simp)
  have Q: "write_section msg_question_to_u8 (question m) (qdcount (header m)) (overlay dest p ?h) (p + 12)
      = ret (overlay dest p (?h @ ?q), Some (p + int (length (?h @ ?q)), of_nat (length ?q)))"
    using question_writer.write_section_ok [OF ok(1), of "overlay dest p ?h" "p + 12"]
      fk [of "12 + length ?q"] fits_shift [of dest p 12 "length ?q"]
    by (simp add: fk overlay_append' add.assoc)
  have rr: "write_section msg_rr_to_u8 arr cnt (overlay dest p as) (p + int (length as))
      = ret (overlay dest p (as @ enc_section enc_rr arr),
             Some (p + int (length (as @ enc_section enc_rr arr)), of_nat (length (enc_section enc_rr arr))))"
    if "wf_section wf_rr arr cnt"
      "length as + length (enc_section enc_rr arr) \<le> 12 + length ?q + length ?a + length ?n + length ?r"
    for arr cnt as
    using rr_writer.write_section_ok [OF that(1), of "overlay dest p as" "p + int (length as)"] that(2)
      fk [of "length as + length (enc_section enc_rr arr)"]
      fits_shift [of dest p "length as" "length (enc_section enc_rr arr)"]
    by (simp add: fk overlay_append' add.assoc)
  have A: "write_section msg_rr_to_u8 (answer m) (ancount (header m)) (overlay dest p (?h @ ?q))
      (p + int (length (?h @ ?q)))
      = ret (overlay dest p ((?h @ ?q) @ ?a), Some (p + int (length ((?h @ ?q) @ ?a)), of_nat (length ?a)))"
    by (rule rr [OF ok(2)]) simp
  have N: "write_section msg_rr_to_u8 (authority m) (nscount (header m)) (overlay dest p ((?h @ ?q) @ ?a))
      (p + int (length ((?h @ ?q) @ ?a)))
      = ret (overlay dest p (((?h @ ?q) @ ?a) @ ?n),
             Some (p + int (length (((?h @ ?q) @ ?a) @ ?n)), of_nat (length ?n)))"
    by (rule rr [OF ok(3)]) simp
  have R: "write_section msg_rr_to_u8 (addition m) (arcount (header m))
      (overlay dest p (((?h @ ?q) @ ?a) @ ?n)) (p + int (length (((?h @ ?q) @ ?a) @ ?n)))
      = ret (overlay dest p ((((?h @ ?q) @ ?a) @ ?n) @ ?r),
             Some (p + int (length ((((?h @ ?q) @ ?a) @ ?n) @ ?r)), of_nat (length ?r)))"
    by (rule rr [OF ok(4)]) simp
  have "(word_of_int 12 + of_nat (length ?q) + of_nat (length ?a) + of_nat (length ?n) +
      of_nat (length ?r) :: u32) = of_nat (length (enc_message m))"
    by (simp add: enc_message_def)
  then have sum: "sint (word_of_int 12 + of_nat (length ?q) + of_nat (length ?a) + of_nat (length ?n) +
      of_nat (length ?r) :: u32) = int (length (enc_message m))"
    using sint_u32_of_nat [OF assms(3)] by simp
  show ?thesis
    unfolding message_to_u8_def H bind_run_simps prod.case Q option.case A N R sum
    by (simp add: enc_message_def)
qed

text \<open>A record without a name makes the writer follow a null pointer.\<close>

lemma message_to_u8_fault:
  assumes "wf_section wf_question (question m) (qdcount (header m))"
    and "answer m = Some (map Some rrs @ Some rr # rest)" and "length rrs < unat (ancount (header m))"
    and "\<forall>x \<in> set rrs. wf_rr x" and "rr_name rr = None"
    and "fits dest p (length (enc_header (header m) @ enc_section enc_question (question m) @ concat (map enc_rr rrs)))"
  shows "message_to_u8 m dest p = fail NullDeref"
proof -
  let ?h = "enc_header (header m)" and ?q = "enc_section enc_question (question m)" and ?a = "concat (map enc_rr rrs)"
  have fk: "\<And>k. k \<le> 12 + length ?q + length ?a \<Longrightarrow> fits dest p k"
    using fits_mono [OF assms(6)] by simp
  have H: "msg_header_to_u8 (header m) dest p = ret (12, overlay dest p ?h)"
    by (rule msg_header_to_u8_writes) (rule fk, simp)
  have Q: "write_section msg_question_to_u8 (question m) (qdcount (header m)) (overlay dest p ?h) (p + 12)
      = ret (overlay dest p (?h @ ?q), Some (p + int (length (?h @ ?q)), of_nat (length ?q)))"
    using question_writer.write_section_ok [OF assms(1), of "overlay dest p ?h" "p + 12"]
      fk [of "12 + length ?q"] fits_shift [of dest p 12 "length ?q"]
    by (simp add: fk overlay_append' add.assoc)
  obtain k where k: "unat (ancount (header m)) = Suc (length rrs + k)" using assms(3) less_iff_Suc_add by auto
  then have "ancount (header m) \<noteq> 0" by auto
  moreover have "fits (overlay dest p (?h @ ?q)) (p + int (length (?h @ ?q))) (length ?a)"
    using fits_shift [of dest p "12 + length ?q" "length ?a"] fk by simp
  then have "write_items msg_rr_to_u8 (map Some rrs @ Some rr # rest) (Suc (length rrs + k)) (overlay dest p (?h @ ?q))
      (p + int (length (?h @ ?q))) 0 = fail NullDeref"
    using assms(4,5) by (intro rr_writer.write_items_fault) (simp_all add: msg_rr_to_u8_def domain_len_def list_all_iff)
  ultimately have "write_section msg_rr_to_u8 (answer m) (ancount (header m)) (overlay dest p (?h @ ?q))
      (p + int (length (?h @ ?q))) = fail NullDeref"
    using assms(2) k by (simp add: write_section_def)
  then show ?thesis unfolding message_to_u8_def H bind_run_simps prod.case Q option.case by simp
qed

lemma message_from_buf_reads:
  assumes "plain_message m" and "holds_at buf 0 (enc_message m)" and "12 \<le> len"
  shows "message_from_buf buf len zero_message = ret (1, m)"
proof -
  let ?h = "enc_header (header m)" and ?q = "enc_section enc_question (question m)"
    and ?a = "enc_section enc_rr (answer m)" and ?n = "enc_section enc_rr (authority m)"
    and ?r = "enc_section enc_rr (addition m)"
  let ?p1 = "12 + int (length ?q)" let ?p2 = "?p1 + int (length ?a)" let ?p3 = "?p2 + int (length ?n)"
  from assms(2) have at: "holds_at buf 0 ?h" "holds_at buf 12 ?q" "holds_at buf ?p1 ?a"
    "holds_at buf ?p2 ?n" "holds_at buf ?p3 ?r"
    by (simp_all add: enc_message_def)
  have ok: "misc_TC (misc1 (header m)) = 0"
    "wf_section plain_question (question m) (qdcount (header m))"
    "wf_section plain_rr (answer m) (ancount (header m))"
    "wf_section plain_rr (authority m) (nscount (header m))"
    "wf_section plain_rr (addition m) (arcount (header m))"
    using assms(1) by (simp_all add: plain_message_def)
  obtain qs where qs: "read_items (msg_question_from_buf buf) (unat (qdcount (header m))) 12 = ret (1, qs, ?p1)"
    "section_ptr (qdcount (header m)) qs None = question m"
    using question_reader.read_section_ok [OF ok(2) at(2)] by blast
  obtain ans where ans: "read_items (msg_rr_from_buf buf) (unat (ancount (header m))) ?p1 = ret (1, ans, ?p2)"
    "section_ptr (ancount (header m)) ans None = answer m"
    using rr_reader.read_section_ok [OF ok(3) at(3)] by blast
  obtain nss where nss: "read_items (msg_rr_from_buf buf) (unat (nscount (header m))) ?p2 = ret (1, nss, ?p3)"
    "section_ptr (nscount (header m)) nss None = authority m"
    using rr_reader.read_section_ok [OF ok(4) at(4)] by blast
  obtain ars where ars: "read_items (msg_rr_from_buf buf) (unat (arcount (header m))) ?p3
      = ret (1, ars, ?p3 + int (length ?r))"
    "section_ptr (arcount (header m)) ars None = addition m"
    using rr_reader.read_section_ok [OF ok(5) at(5)] by blast
  show ?thesis
    using assms(3) ok(1) qs ans nss ars msg_header_from_buf_reads [OF at(1)]
    by (simp add: message_from_buf_def zero_message_def Let_def not_less cong: bind_run_weak_cong)
qed

lemma plain_imp_wf: "wf_section plain_question qa c \<Longrightarrow> wf_section wf_question qa c"
  "wf_section plain_rr ra c \<Longrightarrow> wf_section wf_rr ra c"
  by (auto simp: wf_section_def plain_question_def plain_rr_def list_all_iff split: option.splits)

lemma plain_message_wf: "plain_message m \<Longrightarrow> wf_message m"
  by (simp add: plain_message_def wf_message_def plain_imp_wf)

end
