(* ===== verification/Message_Props.thy ===== *)
theory Message_Props
  imports Message_Codec
begin

text \<open>
  Properties of the message layer: the two directions of the codec compose to the identity,
  every accepted packet gives a message with consistent counts and terminated names, the only
  two rejections of the parser, release of a parsed message, copies of records, the flag bytes,
  and the inputs on which the parser leaves its buffers.
\<close>

section \<open>What the parser accepts\<close>

definition nul_terminated :: "mem option \<Rightarrow> bool" where
  "nul_terminated nm = (case nm of None \<Rightarrow> False
     | Some s \<Rightarrow> s \<noteq> [] \<and> last s = 0 \<and> nul_free (butlast s) \<and> length s \<le> DOMAIN_BUF_LEN)"

definition parsed_question :: "message_question \<Rightarrow> bool" where
  "parsed_question q \<longleftrightarrow> nul_terminated (qname q)"

definition parsed_rr :: "resource_record \<Rightarrow> bool" where
  "parsed_rr rr \<longleftrightarrow> nul_terminated (rr_name rr) \<and> unat (rdlength rr) \<le> RR_BUF_SIZE \<and>
     (case rdata rr of None \<Rightarrow> rdlength rr = 0
      | Some d \<Rightarrow> rdlength rr \<noteq> 0 \<and> length d = unat (rdlength rr))"

definition parsed_message :: "message \<Rightarrow> bool" where
  "parsed_message m \<longleftrightarrow>
     wf_section parsed_question (question m) (qdcount (header m)) \<and>
     wf_section parsed_rr (answer m) (ancount (header m)) \<and>
     wf_section parsed_rr (authority m) (nscount (header m)) \<and>
     wf_section parsed_rr (addition m) (arcount (header m))"

lemma name_at_nul_free: "name_at base p bs n \<Longrightarrow> nul_free bs"
  by (induction rule: name_at.induct) auto

lemma read_domain_zeroed:
  assumes "read_domain base p (replicate DOMAIN_BUF_LEN 0) 0 0 = ret (k, domainbuf, off)"
    and "rd_bytes domainbuf 0 (nat k) = ret name"
  shows "1 \<le> k \<and> 1 \<le> off \<and> nul_terminated (Some name)"
proof -
  let ?z = "replicate DOMAIN_BUF_LEN 0 :: mem"
  from assms(1) obtain bs n where bs: "name_at base p bs n" "bs = [] \<or> fits ?z 0 (length bs)"
    and k: "k = int (length bs) + 1" "domainbuf = overlay ?z 0 bs" "off = int n"
    by (auto simp: read_domain_iff)
  from bs(2) have le: "length bs \<le> DOMAIN_BUF_LEN" by (auto simp: fits_def)
  then have "length (overlay ?z 0 bs) = DOMAIN_BUF_LEN" by (simp add: fits_def)
  moreover have "nat k = Suc (length bs)" using k(1) by simp
  ultimately have lt: "length bs < DOMAIN_BUF_LEN" using assms(2) k
    by (auto simp: rd_bytes_def split: if_splits)
  then have "name = bs @ [0]"
    using assms(2) k \<open>nat k = Suc (length bs)\<close> rd_bytes_overlay_zeros [of bs DOMAIN_BUF_LEN] by simp
  then show ?thesis
    using lt k name_at_positive [OF bs(1)] name_at_nul_free [OF bs(1)]
    by (simp add: nul_terminated_def)
qed

lemma msg_question_from_buf_parsed:
  assumes "msg_question_from_buf base p = ret (n, x)"
  shows "0 \<le> n \<and> (\<exists>q. x = Some q \<and> parsed_question q)"
proof -
  from assms obtain k domainbuf off where dom:
    "read_domain base p (replicate DOMAIN_BUF_LEN 0) 0 0 = ret (k, domainbuf, off)"
    by (auto simp: msg_question_from_buf_def)
  have "1 \<le> k" using dom by (auto simp: read_domain_iff)
  with assms dom obtain name t c where name: "rd_bytes domainbuf 0 (nat k) = ret name"
    and "n = off + 2 + 2" "x = Some \<lparr>qname = Some name, qtype = t, qclass = c\<rparr>"
    by (auto simp: msg_question_from_buf_def)
  with read_domain_zeroed [OF dom name] show ?thesis by (simp add: parsed_question_def)
qed

lemma rdata_from_buf_length:
  "rdata_from_buf base q t rdlen = ret (r, rrbuf) \<Longrightarrow> length rrbuf = RR_BUF_SIZE"
proof -
  have rd: "length d' = length d"
    if "read_domain b p d di off = ret (k, d', off')" for b p d di off k d' off'
    using that by (auto simp: read_domain_iff)
  assume "rdata_from_buf base q t rdlen = ret (r, rrbuf)"
  then show ?thesis
    by (auto simp: rdata_from_buf_def Let_def split: if_splits dest!: wr_bytes_length rd)
qed

lemma msg_rr_from_buf_parsed:
  assumes "msg_rr_from_buf base p = ret (n, x)"
  shows "0 \<le> n \<and> (\<exists>rr. x = Some rr \<and> parsed_rr rr)"
proof -
  from assms obtain k domainbuf off where dom:
    "read_domain base p (replicate DOMAIN_BUF_LEN 0) 0 0 = ret (k, domainbuf, off)"
    by (auto simp: msg_rr_from_buf_def)
  have "1 \<le> k" using dom by (auto simp: read_domain_iff)
  with assms dom obtain name t c tt rdlen r rrbuf rd where
    name: "rd_bytes domainbuf 0 (nat k) = ret name"
    and rr: "rdata_from_buf base (p + off + 10) t rdlen = ret (r, rrbuf)"
    and rd: "(if r \<noteq> 0 then bind_run (rd_bytes rrbuf 0 (unat r)) (\<lambda>bs. ret (Some bs)) else ret None) = ret rd"
    and n: "n = off + 2 + 2 + 4 + 2 + uint rdlen"
    and x: "x = Some \<lparr>rr_name = Some name, rr_type = t, rr_class = c, ttl = tt, rdlength = r, rdata = rd\<rparr>"
    by (auto simp: msg_rr_from_buf_def)
  from read_domain_zeroed [OF dom name] have "1 \<le> off" "nul_terminated (Some name)" by auto
  moreover have "(case rd of None \<Rightarrow> r = 0 | Some d \<Rightarrow> r \<noteq> 0 \<and> length d = unat r) \<and> unat r \<le> RR_BUF_SIZE"
    using rd rdata_from_buf_length [OF rr] by (auto simp: rd_bytes_def split: if_splits)
  ultimately show ?thesis using n x by (auto simp: parsed_rr_def split: option.splits)
qed

lemma read_items_all:
  assumes "\<And>p n x. f p = ret (n, x) \<Longrightarrow> 0 \<le> n \<and> (\<exists>y. x = Some y \<and> ok y)"
  shows "read_items f k p = ret (r, xs, q) \<Longrightarrow>
    r = 1 \<and> length xs = k \<and> list_all (\<lambda>x. case x of None \<Rightarrow> False | Some y \<Rightarrow> ok y) xs"
proof (induction k arbitrary: p xs)
  case 0
  then show ?case by simp
next
  case (Suc k)
  then obtain n x where fx: "f p = ret (n, x)" by auto
  with assms obtain y where "x = Some y" "ok y" "0 \<le> n" by blast
  with Suc.prems fx obtain ys where "read_items f k (p + n) = ret (r, ys, q)" "xs = x # ys"
    by auto
  with Suc.IH [of "p + n" ys] \<open>x = Some y\<close> \<open>ok y\<close> show ?case by simp
qed

lemma read_questions:
  "read_items (msg_question_from_buf base) k p = ret (r, xs, q) \<Longrightarrow>
     r = 1 \<and> length xs = k \<and> list_all (\<lambda>x. case x of None \<Rightarrow> False | Some y \<Rightarrow> parsed_question y) xs"
  by (rule read_items_all [rotated]) (auto dest: msg_question_from_buf_parsed)

lemma read_rrs:
  "read_items (msg_rr_from_buf base) k p = ret (r, xs, q) \<Longrightarrow>
     r = 1 \<and> length xs = k \<and> list_all (\<lambda>x. case x of None \<Rightarrow> False | Some y \<Rightarrow> parsed_rr y) xs"
  by (rule read_items_all [rotated]) (auto dest: msg_rr_from_buf_parsed)

lemma section_ptr_wf:
  "length xs = unat cnt \<Longrightarrow> list_all (\<lambda>x. case x of None \<Rightarrow> False | Some y \<Rightarrow> ok y) xs \<Longrightarrow>
     wf_section ok (section_ptr cnt xs None) cnt"
  by (auto simp: section_ptr_def wf_section_def)

lemma message_from_buf_cases:
  assumes "message_from_buf buf len zero_message = ret (r, m)"
  shows "(r = -1 \<and> (len < 12 \<or> misc_TC (misc1 (header m)) \<noteq> 0)) \<or>
    (r = 1 \<and> \<not> len < 12 \<and> misc_TC (misc1 (header m)) = 0 \<and> parsed_message m)"
proof (cases "len < 12")
  case True
  with assms show ?thesis by (simp add: message_from_buf_def)
next
  case False
  with assms obtain h where h: "msg_header_from_buf buf 0 = ret h"
    by (auto simp: message_from_buf_def)
  show ?thesis
  proof (cases "misc_TC (misc1 h) = 0")
    case False
    with \<open>\<not> len < 12\<close> h assms show ?thesis by (auto simp: message_from_buf_def Let_def)
  next
    case True
    with \<open>\<not> len < 12\<close> h assms obtain r1 qs p1 where
      qs: "read_items (msg_question_from_buf buf) (unat (qdcount h)) 12 = ret (r1, qs, p1)"
      by (auto simp: message_from_buf_def Let_def)
    note Q = read_questions [OF qs]
    with True \<open>\<not> len < 12\<close> h qs assms obtain r2 ans p2 where
      ans: "read_items (msg_rr_from_buf buf) (unat (ancount h)) p1 = ret (r2, ans, p2)"
      by (auto simp: message_from_buf_def Let_def)
    note A = read_rrs [OF ans]
    with True \<open>\<not> len < 12\<close> h qs Q ans assms obtain r3 nss p3 where
      nss: "read_items (msg_rr_from_buf buf) (unat (nscount h)) p2 = ret (r3, nss, p3)"
      by (auto simp: message_from_buf_def Let_def)
    note N = read_rrs [OF nss]
    with True \<open>\<not> len < 12\<close> h qs Q ans A nss assms obtain r4 ars p4 where
      ars: "read_items (msg_rr_from_buf buf) (unat (arcount h)) p3 = ret (r4, ars, p4)"
      by (auto simp: message_from_buf_def Let_def)
    note R = read_rrs [OF ars]
    from True \<open>\<not> len < 12\<close> h qs Q ans A nss N ars R assms
    have "r = 1" "m = zero_message\<lparr>header := h, question := section_ptr (qdcount h) qs None,
        answer := section_ptr (ancount h) ans None, authority := section_ptr (nscount h) nss None,
        addition := section_ptr (arcount h) ars None\<rparr>"
      by (auto simp: message_from_buf_def Let_def zero_message_def)
    with True \<open>\<not> len < 12\<close> Q A N R show ?thesis
      by (auto simp: parsed_message_def section_ptr_wf)
  qed
qed

section \<open>Release of a parsed message\<close>

lemma free_items_all:
  "list_all (\<lambda>x. case x of None \<Rightarrow> False | Some y \<Rightarrow> ok y) xs \<Longrightarrow> free_items (length xs) xs = ret ()"
  by (induction xs) (auto split: option.splits)

lemma free_section_wf: "wf_section ok arr cnt \<Longrightarrow> free_section cnt arr = ret None"
proof (cases arr)
  case None
  then show ?thesis by (simp add: free_section_def)
next
  case (Some xs)
  moreover assume "wf_section ok arr cnt"
  ultimately show ?thesis
    using free_items_all [of ok xs] by (simp add: free_section_def wf_section_def)
qed

lemma free_heap_message_wf:
  "parsed_message m \<Longrightarrow>
     free_heap_message m = ret (1, m\<lparr>question := None, answer := None, authority := None, addition := None\<rparr>)"
  by (simp add: free_heap_message_def parsed_message_def free_section_wf [where ok = parsed_question]
      free_section_wf [where ok = parsed_rr])

section \<open>Copies\<close>

lemma rr_copy_wf: "wf_rr rr \<Longrightarrow> rr_copy rr = ret (1, rr)"
proof -
  assume ok: "wf_rr rr"
  then obtain s where s: "rr_name rr = Some s" "domain_len (Some s) = ret (int (length s))"
    by (auto simp: wf_rr_def elim: c_name_block)
  show ?thesis
  proof (cases "rdata rr")
    case None
    with ok s show ?thesis by (simp add: rr_copy_def wf_rr_def)
  next
    case (Some d)
    with ok have "rdlength rr \<noteq> 0" "unat (rdlength rr) = length d" by (simp_all add: wf_rr_def)
    with s Some show ?thesis by (simp add: rr_copy_def)
  qed
qed

lemma mq_copy_wf: "wf_question q \<Longrightarrow> mq_copy q = ret (1, q)"
  by (auto simp: wf_question_def mq_copy_def elim!: c_name_block)

section \<open>Flag bytes\<close>

lemma byte_eqI:
  fixes a b :: byte
  assumes "bit a 0 = bit b 0" "bit a 1 = bit b 1" "bit a 2 = bit b 2" "bit a 3 = bit b 3"
    "bit a 4 = bit b 4" "bit a 5 = bit b 5" "bit a 6 = bit b 6" "bit a 7 = bit b 7"
  shows "a = b"
proof (rule bit_word_eqI)
  fix n assume "n < LENGTH(8)"
  then have "n < 8" by simp
  then have "n = 0 \<or> n = 1 \<or> n = 2 \<or> n = 3 \<or> n = 4 \<or> n = 5 \<or> n = 6 \<or> n = 7" by presburger
  then show "bit a n = bit b n" using assms by (elim disjE) simp_all
qed

lemmas misc_defs = misc_QR_def misc_OPCODE_def misc_AA_def misc_TC_def misc_RD_def misc_RA_def
  misc_Z_def misc_RCODE_def create_misc1_def create_misc2_def

lemma create_misc1_bits:
  "misc_QR (create_misc1 qr opcode aa tc rd) = qr AND 1"
  "misc_OPCODE (create_misc1 qr opcode aa tc rd) = opcode AND 15"
  "misc_AA (create_misc1 qr opcode aa tc rd) = aa AND 1"
  "misc_TC (create_misc1 qr opcode aa tc rd) = tc AND 1"
  "misc_RD (create_misc1 qr opcode aa tc rd) = rd AND 1"
  by (rule byte_eqI; simp add: misc_defs bit_simps del: push_bit_Suc)+

lemma create_misc2_bits:
  "misc_RA (create_misc2 ra z rcode) = ra AND 1"
  "misc_Z (create_misc2 ra z rcode) = z AND 7"
  "misc_RCODE (create_misc2 ra z rcode) = rcode AND 15"
  by (rule byte_eqI; simp add: misc_defs bit_simps del: push_bit_Suc)+

section \<open>Comparing records\<close>

text \<open>The part of record data that \<^verbatim>\<open>strncmp\<close> looks at.\<close>

definition upto_nul :: "byte list \<Rightarrow> byte list" where
  "upto_nul bs = takeWhile (\<lambda>c. c \<noteq> 0) bs"

lemma strncmp_same_length:
  "length as = n \<Longrightarrow> length bs = n \<Longrightarrow>
     \<exists>c. strncmp as bs n = ret c \<and> (c = 0 \<longleftrightarrow> upto_nul as = upto_nul bs)"
proof (induction as arbitrary: bs n)
  case Nil
  then show ?case by (simp add: upto_nul_def)
next
  case (Cons a as)
  then obtain b bs' where bs: "bs = b # bs'" by (cases bs) auto
  with Cons.prems Cons.IH [of "n - 1" bs'] show ?case by (auto simp: upto_nul_def)
qed

lemma rr_cmp_wf:
  assumes "wf_rr rr1" and "wf_rr rr2"
  shows "rr_cmp rr1 rr2 = ret (rr_name rr1 = rr_name rr2 \<and> rdlength rr1 = rdlength rr2 \<and>
    rr_type rr1 = rr_type rr2 \<and> rr_class rr1 = rr_class rr2 \<and>
    upto_nul (bytes_of (rdata rr1)) = upto_nul (bytes_of (rdata rr2)))"
proof -
  from assms(1) obtain as where as: "rr_name rr1 = Some (as @ [0])" "nul_free as" "length as < 255"
    by (auto simp: wf_rr_def elim: c_nameE)
  from assms(2) obtain bs where bs: "rr_name rr2 = Some (bs @ [0])" "nul_free bs"
    by (auto simp: wf_rr_def elim: c_nameE)
  have dl: "domain_len (rr_name rr1) = ret (int (Suc (length as)))"
    using domain_len_c_name [of "rr_name rr1"] assms(1) as(1) by (simp add: wf_rr_def)
  have sz: "size_t (int (Suc (length as))) = Suc (length as)"
    using as(3) by (simp add: size_t_def)
  obtain c where c: "strncmp (as @ [0]) (bs @ [0]) (Suc (length as)) = ret c" "c = 0 \<longleftrightarrow> as = bs"
    using strncmp_cstring [OF as(2) bs(2), of "Suc (length as)" "[]" "[]"] by auto
  show ?thesis
  proof (cases "rdlength rr1 = rdlength rr2 \<and> rdlength rr1 \<noteq> 0")
    case True
    with assms obtain d1 d2 where d: "rdata rr1 = Some d1" "rdata rr2 = Some d2"
      "length d1 = unat (rdlength rr1)" "length d2 = unat (rdlength rr1)"
      by (auto simp: wf_rr_def split: option.splits)
    with strncmp_same_length [of d1 "unat (rdlength rr1)" d2] obtain e
      where "strncmp d1 d2 (unat (rdlength rr1)) = ret e" "e = 0 \<longleftrightarrow> upto_nul d1 = upto_nul d2"
      by auto
    with True as(1) bs(1) dl sz c d show ?thesis by (auto simp: rr_cmp_def)
  next
    case False
    with assms have "rdlength rr1 = rdlength rr2 \<Longrightarrow> rdata rr1 = None \<and> rdata rr2 = None"
      by (auto simp: wf_rr_def split: option.splits)
    with False as(1) bs(1) dl sz c show ?thesis by (auto simp: rr_cmp_def)
  qed
qed

section \<open>Where the codec goes wrong\<close>

lemma domain_len_long:
  assumes "nul_free bs" and "255 \<le> length bs" and "length bs < 512"
  shows "domain_len (Some (bs @ [0])) = ret (-1)"
  using assms strnlen_cstring [of bs 512 "[]"] by (simp add: domain_len_def)

lemma rdata_opaque:
  assumes "t \<notin> {RRTYPE_SOA, RRTYPE_MX, RRTYPE_NS, RRTYPE_PTR, RRTYPE_TXT, RRTYPE_CNAME}"
    and "rd_bytes base buf (unat rdlen) = ret bs" and "RR_BUF_SIZE < unat rdlen"
  shows "rdata_from_buf base buf t rdlen = fail OutOfBounds"
proof -
  have "length bs = unat rdlen" using assms(2) by (rule rd_bytes_length)
  with assms show ?thesis
    by (auto simp: rdata_from_buf_def Let_def wr_bytes_def)
qed

lemma overlay_zeros_nul:
  assumes "length bs < n"
  shows "overlay (replicate n 0) 0 bs = overlay (replicate n 0) 0 (bs @ [0])"
proof -
  have "replicate (n - length bs) (0 :: byte) = 0 # replicate (n - Suc (length bs)) 0"
    using assms by (metis Suc_diff_Suc replicate_Suc)
  then show ?thesis by (simp add: overlay_def)
qed

lemma rdata_soa:
  assumes "name_at base buf mname n1" and "name_at base (buf + int n1) rname n2"
    and "rd_bytes base (buf + 2 * int n1 + int n2) 20 = ret cs"
    and "length mname + length rname + 22 \<le> RR_BUF_SIZE"
  shows "rdata_from_buf base buf RRTYPE_SOA rdlen =
    ret (of_nat (length mname + length rname + 22),
         overlay (replicate RR_BUF_SIZE 0) 0 (mname @ [0] @ rname @ [0] @ cs))"
proof -
  let ?z = "replicate RR_BUF_SIZE 0 :: mem"
  let ?b1 = "overlay ?z 0 (mname @ [0])" let ?b2 = "overlay ?z 0 (mname @ [0] @ rname)"
  have cs: "length cs = 20" using assms(3) by (rule rd_bytes_length)
  have f: "\<And>k. k \<le> RR_BUF_SIZE \<Longrightarrow> fits ?z 0 k" by (simp add: fits_def)
  have "read_domain base buf ?z 0 0 = ret (int (length mname) + 1, ?b1, int n1)"
    using assms(1,4) f overlay_zeros_nul [of mname RR_BUF_SIZE] by (auto simp: read_domain_iff)
  moreover have "overlay ?b1 (int (length mname) + 1) rname = ?b2"
    using overlay_append [of ?z 0 "mname @ [0]" rname] assms(4) f by (simp add: ac_simps)
  then have "read_domain base (buf + int n1) ?b1 (int (length mname) + 1) 0 =
      ret (int (length rname) + 1, ?b2, int n2)"
    using assms(2,4) f by (auto simp: read_domain_iff) (auto simp: fits_def)
  moreover have "wr_bytes (overlay ?z 0 ((mname @ [0] @ rname) @ [0])) (int (length mname + length rname) + 2) cs =
      ret (overlay ?z 0 (mname @ [0] @ rname @ [0] @ cs))"
    using put_bytes_after [of ?z 0 "(mname @ [0] @ rname) @ [0]" cs "int (length mname + length rname) + 2"]
      assms(4) cs f by simp
  ultimately show ?thesis
    using assms(3,4) overlay_zeros_nul [of "mname @ [0] @ rname" RR_BUF_SIZE]
    by (simp add: rdata_from_buf_def Let_def algebra_simps)
qed

section \<open>Properties\<close>

text \<open>A response with one question and one address record, used as a concrete input.\<close>

definition sample_rr :: resource_record where
  "sample_rr = \<lparr>rr_name = Some [1, 97, 0], rr_type = 1, rr_class = 1, ttl = 60, rdlength = 4,
     rdata = Some [10, 0, 0, 1]\<rparr>"

definition sample_message :: message where
  "sample_message = \<lparr>header = \<lparr>msg_id = 7, misc1 = 0x80, misc2 = 0, qdcount = 1, ancount = 1,
       nscount = 0, arcount = 0\<rparr>,
     question = Some [Some \<lparr>qname = Some [1, 97, 0], qtype = 1, qclass = 1\<rparr>],
     answer = Some [Some sample_rr], authority = None, addition = None\<rparr>"

lemmas sample_simps = sample_rr_def sample_message_def plain_rr_def plain_question_def
  plain_rdata_def wf_rr_def wf_question_def wf_section_def c_name_def pointer_free_def
  is_pointer_def plain_name_def

lemma wf_sample_rr: "wf_rr sample_rr"
  by (simp add: sample_simps)

lemma plain_sample_message: "plain_message sample_message"
  by (simp add: plain_message_def sample_simps misc_TC_def)

lemma length_sample: "length (enc_message sample_message) = 36"
  by (simp add: enc_message_def enc_header_def enc_section_def section_items_def enc_question_def
      enc_rr_def be16_def be32_def sample_simps map_filter_simps)

text \<open>C8: writing a message and parsing the bytes gives the message back. It holds for messages
  that are not truncated, whose counts match their sections, whose names are at most 255 bytes
  long without a byte that looks like a compression pointer, and whose record data fits 512
  bytes and is of a type other than SOA (with a plain name where the type carries one).\<close>

theorem message_roundtrip:
  assumes "plain_message m" and "length (enc_message m) \<le> length dest"
    and "length (enc_message m) < 2 ^ 31"
  shows "bind_run (message_to_u8 m dest 0)
           (\<lambda>(n, buf). message_from_buf buf (word_of_int n) zero_message) = ret (1, m)"
proof -
  let ?n = "length (enc_message m)"
  have f: "fits dest 0 ?n" using assms(2) by (simp add: fits_def)
  have "12 \<le> ?n" by (simp add: enc_message_def)
  then have "12 \<le> (word_of_int (int ?n) :: u32)"
    using assms(3) by (simp add: word_le_nat_alt unat_of_nat)
  with message_to_u8_writes [OF plain_message_wf [OF assms(1)] f assms(3)]
    message_from_buf_reads [OF assms(1) holds_at_overlay [OF f]]
  show ?thesis by simp
qed

theorem message_roundtrip_witness:
  "bind_run (message_to_u8 sample_message (replicate 36 0) 0)
     (\<lambda>(n, buf). message_from_buf buf (word_of_int n) zero_message) = ret (1, sample_message)"
  by (rule message_roundtrip) (simp_all add: plain_sample_message length_sample)

text \<open>C20: \<^verbatim>\<open>message_to_u8\<close> writes exactly the wire format of the message at the given position,
  leaves the rest of the buffer alone and returns the number of bytes written.\<close>

theorem message_to_u8_wire_format:
  assumes "wf_message m" and "fits dest p (length (enc_message m))"
    and "length (enc_message m) < 2 ^ 31"
  shows "message_to_u8 m dest p = ret (int (length (enc_message m)), overlay dest p (enc_message m))"
  using assms by (rule message_to_u8_writes)

theorem message_to_u8_wire_format_witness:
  "message_to_u8 sample_message (replicate 40 0) 2 =
     ret (36, overlay (replicate 40 0) 2 (enc_message sample_message))"
  using message_to_u8_wire_format [OF plain_message_wf [OF plain_sample_message], of "replicate 40 0" 2]
  by (simp add: length_sample fits_def)

text \<open>C19: a packet that \<^verbatim>\<open>message_from_buf\<close> accepts gives a message in which every array has exactly
  the number of entries its header count says, no entry is null, every name is NUL-terminated
  within 512 bytes, and every record carries as many data bytes as its length field says.\<close>

theorem message_from_buf_wellformed:
  assumes "message_from_buf buf len zero_message = ret (r, m)" and "0 \<le> r"
  shows "parsed_message m"
  using message_from_buf_cases [OF assms(1)] assms(2) by auto

theorem message_from_buf_wellformed_witness: "parsed_message sample_message"
proof (rule message_from_buf_wellformed)
  show "message_from_buf (enc_message sample_message) 36 zero_message = ret (1, sample_message)"
    by (rule message_from_buf_reads) (simp_all add: plain_sample_message)
qed simp

text \<open>C29: the parser rejects a packet for two reasons only, fewer than twelve bytes or the
  truncation flag: whenever it returns, the result is -1 in exactly these cases and 1 otherwise.
  A packet that ends early is not rejected but read past its end.\<close>

theorem message_from_buf_rejects:
  assumes "message_from_buf buf len zero_message = ret (r, m)"
  shows "(r = -1 \<longleftrightarrow> len < 12 \<or> misc_TC (misc1 (header m)) \<noteq> 0) \<and> (r = -1 \<or> r = 1)"
  using message_from_buf_cases [OF assms] by auto

theorem message_from_buf_rejects_witness:
  "message_from_buf [0, 7, 1] 3 zero_message = ret (-1, zero_message) \<and>
   ((-1 :: int) = -1 \<longleftrightarrow> (3 :: u32) < 12 \<or> misc_TC (misc1 (header zero_message)) \<noteq> 0)"
proof -
  have "message_from_buf [0, 7, 1] 3 zero_message = ret (-1, zero_message)"
    by (simp add: message_from_buf_def)
  with message_from_buf_rejects [OF this] show ?thesis by blast
qed

text \<open>Releasing a parsed message frees every section without a fault and leaves no pointer
  behind.\<close>

lemma parse_then_free:
  assumes "message_from_buf buf len zero_message = ret (1, m)"
  shows "free_heap_message m =
    ret (1, m\<lparr>question := None, answer := None, authority := None, addition := None\<rparr>)"
  using message_from_buf_cases [OF assms] by (intro free_heap_message_wf) simp

text \<open>Record data longer than the 512-byte buffer of \<^verbatim>\<open>msg_rr_from_buf\<close>, of any type that is
  copied verbatim, is written past the end of that buffer.\<close>

lemma long_rdata_overflows:
  assumes "t \<notin> {RRTYPE_SOA, RRTYPE_MX, RRTYPE_NS, RRTYPE_PTR, RRTYPE_TXT, RRTYPE_CNAME}"
    and "rd_bytes base buf (unat rdlen) = ret bs" and "RR_BUF_SIZE < unat rdlen"
  shows "rdata_from_buf base buf t rdlen = fail OutOfBounds"
  using assms by (rule rdata_opaque)

lemma long_rdata_overflows_witness:
  "rdata_from_buf (replicate 600 1) 0 RRTYPE_A 600 = fail OutOfBounds"
  by (rule long_rdata_overflows) (simp_all add: rd_bytes_take)

text \<open>A question whose name is longer than \<^verbatim>\<open>domain_len\<close> allows is not reported by
  \<^verbatim>\<open>message_to_u8\<close>: the -1 of the item is added to the size, the header alone is written and 11 is
  returned.\<close>

lemma message_to_u8_long_name:
  assumes "nul_free bs" and "255 \<le> length bs" and "length bs < 512" and "fits dest 0 12"
    and "qdcount (header m) = 1" and "ancount (header m) = 0" and "nscount (header m) = 0"
    and "arcount (header m) = 0" and "question m = Some [Some q]" and "qname q = Some (bs @ [0])"
  shows "message_to_u8 m dest 0 = ret (11, overlay dest 0 (enc_header (header m)))"
  using assms domain_len_long [OF assms(1-3)]
  by (simp add: message_to_u8_def write_section_def msg_question_to_u8_def msg_header_to_u8_writes)

text \<open>C39: the five counters of an SOA record are not read from behind its two names: the length of
  the first name is added twice, so they come from that many bytes further on.\<close>

theorem soa_counters_misplaced:
  assumes "name_at base buf mname n1" and "name_at base (buf + int n1) rname n2"
    and "rd_bytes base (buf + 2 * int n1 + int n2) 20 = ret cs"
    and "length mname + length rname + 22 \<le> RR_BUF_SIZE"
  shows "rdata_from_buf base buf RRTYPE_SOA rdlen =
    ret (of_nat (length mname + length rname + 22),
         overlay (replicate RR_BUF_SIZE 0) 0 (mname @ [0] @ rname @ [0] @ cs))"
  using assms by (rule rdata_soa)

theorem soa_counters_misplaced_witness:
  "rdata_from_buf ([1, 97, 0, 1, 98, 0] @ map word_of_nat [1..<24]) 0 RRTYPE_SOA 26 =
     ret (26, overlay (replicate RR_BUF_SIZE 0) 0 ([1, 97, 0, 1, 98, 0] @ map word_of_nat [4..<24]))"
proof -
  let ?b = "[1, 97, 0, 1, 98, 0] @ map word_of_nat [1..<24] :: mem"
  have "name_at ?b 0 [1, 97] (Suc (Suc (Suc 0)))" "name_at ?b 3 [1, 98] (Suc (Suc (Suc 0)))"
    using name_at_plain [of "[1, 97]" ?b 0] name_at_plain [of "[1, 98]" ?b 3]
    by (simp_all add: rd8_def pointer_free_def is_pointer_def)
  moreover have "rd_bytes ?b 9 20 = ret (map word_of_nat [4..<24])"
    by (simp add: rd_bytes_def upt_conv_Cons)
  ultimately show ?thesis
    using soa_counters_misplaced [of ?b 0 "[1, 97]" "Suc (Suc (Suc 0))" "[1, 98]" "Suc (Suc (Suc 0))"
        "map word_of_nat [4..<24]" 26]
    by simp
qed

text \<open>\<^verbatim>\<open>rr_copy\<close> makes an equal record out of fresh blocks when the record is well-formed; when its
  name is too long it reports -1 and the copy shares its blocks with the source.\<close>

lemma rr_copy_result:
  "(wf_rr rr \<longrightarrow> rr_copy rr = ret (1, rr)) \<and>
   (\<forall>bs. nul_free bs \<and> 255 \<le> length bs \<and> length bs < 512 \<and> rr_name rr = Some (bs @ [0]) \<longrightarrow>
      rr_copy rr = ret (-1, rr))"
proof (intro conjI allI impI)
  fix bs assume "nul_free bs \<and> 255 \<le> length bs \<and> length bs < 512 \<and> rr_name rr = Some (bs @ [0])"
  then show "rr_copy rr = ret (-1, rr)" by (simp add: rr_copy_def domain_len_long)
qed (rule rr_copy_wf)

end
