(* ===== verification/Client.thy ===== *)
theory Client
  imports Message_Props
begin

text \<open>
  The client of the external resolver (\<^verbatim>\<open>socket/client.c\<close>): \<^verbatim>\<open>send_question\<close> forwards a query under a random
  identifier with an EDNS record, and accepts a reply with the same identifier. The sockets and the
  remote resolver are an argument: whether the socket could be made and configured, the
  number \<^verbatim>\<open>rand\<close> returned, and the reply to the bytes sent (\<^term>\<open>None\<close> when none arrives in time).
\<close>

section \<open>The outside world of one exchange\<close>

abbreviation (input) CLIENT_BUFFER_SIZE :: nat where "CLIENT_BUFFER_SIZE \<equiv> 4096"

record net =
  socket_ok :: bool
  option_ok :: bool
  new_id :: u16
  exchange :: "byte list \<Rightarrow> byte list option"

section \<open>Operations\<close>

text \<open>The entry of a pointer array: a null array, an index behind its end or a null entry fault.\<close>

definition entry_at :: "'a ptr_array \<Rightarrow> nat \<Rightarrow> 'a run" where
  "entry_at arr i =
     bind_run (deref arr) (\<lambda>xs. if length xs \<le> i then fail OutOfBounds else deref (xs ! i))"

text \<open>The search for the OPT record, from index \<open>i\<close> on with \<open>k\<close> entries left.\<close>

fun find_opt :: "resource_record ptr_array \<Rightarrow> nat \<Rightarrow> nat \<Rightarrow> nat option run" where
  "find_opt arr i 0 = ret None"
| "find_opt arr i (Suc k) =
     bind_run (entry_at arr i) (\<lambda>rr.
     if rr_type rr = RRTYPE_OPT then ret (Some i) else find_opt arr (Suc i) k)"

text \<open>The pointers copied into the longer array.\<close>

definition old_entries :: "'a ptr_array \<Rightarrow> nat \<Rightarrow> 'a option list run" where
  "old_entries arr n =
     (if n = 0 then ret []
      else bind_run (deref arr) (\<lambda>xs. if length xs < n then fail OutOfBounds else ret (take n xs)))"

text \<open>
  EDNS: append an OPT record when there is none (with a full section the 16-bit counter wraps to zero
  and the copy loop runs away), or set the TTL of the one that is there.
\<close>

definition add_edns :: "message \<Rightarrow> message run" where
  "add_edns req =
     (let n = arcount (header req) in
      bind_run (find_opt (addition req) 0 (unat n)) (\<lambda>opt.
      case opt of
        None \<Rightarrow>
          if n + 1 = 0 then fail OutOfBounds
          else
            bind_run (old_entries (addition req) (unat n)) (\<lambda>xs.
            bind_run (create_resource_record [0, 0, 0, 0] RRTYPE_OPT (of_nat CLIENT_BUFFER_SIZE) 0 0 [0, 0, 0, 0]) (\<lambda>rr.
            ret (req\<lparr>header := (header req)\<lparr>arcount := n + 1\<rparr>, addition := Some (xs @ [Some rr])\<rparr>)))
      | Some i \<Rightarrow>
          bind_run (deref (addition req)) (\<lambda>xs.
          ret (req\<lparr>addition := Some (xs[i := map_option (\<lambda>rr. rr\<lparr>ttl := of_nat CLIENT_BUFFER_SIZE\<rparr>) (xs ! i)])\<rparr>))))"

definition set_id :: "u16 \<Rightarrow> message \<Rightarrow> message" where
  "set_id i m = m\<lparr>header := (header m)\<lparr>msg_id := i\<rparr>\<rparr>"

text \<open>The receive buffer after \<^verbatim>\<open>recvfrom\<close>: at most 4096 bytes of the datagram, then zeros.\<close>

definition received :: "byte list \<Rightarrow> mem" where
  "received bs = take CLIENT_BUFFER_SIZE bs @ replicate (CLIENT_BUFFER_SIZE - length bs) 0"

text \<open>The results are the return value, the request and the response message.\<close>

definition send_question :: "net \<Rightarrow> message \<Rightarrow> message \<Rightarrow> (int \<times> message \<times> message) run" where
  "send_question net req resp =
     (if \<not> socket_ok net then fail ThreadExit
      else if \<not> option_ok net then ret (-1, req, resp)
      else
        let old_id = msg_id (header req) in
        bind_run (add_edns (set_id (new_id net) req)) (\<lambda>req.
        bind_run (message_to_u8 req (replicate CLIENT_BUFFER_SIZE 0) 0) (\<lambda>(n, buffer).
        if n < 0 then ret (-1, req, resp)
        else
          let req = set_id old_id req in
          case exchange net (take (nat n) buffer) of
            None \<Rightarrow> ret (-1, req, resp)
          | Some reply \<Rightarrow>
              bind_run (message_from_buf (received reply) (of_nat (min (length reply) CLIENT_BUFFER_SIZE)) resp)
                (\<lambda>(r, resp).
              if r < 0 then ret (-1, req, resp)
              else if msg_id (header resp) \<noteq> new_id net then
                bind_run (free_heap_message resp) (\<lambda>(_, resp). ret (-1, req, resp))
              else ret (1, req, set_id old_id resp)))))"

section \<open>What is sent\<close>

definition has_opt :: "message \<Rightarrow> bool" where
  "has_opt m \<longleftrightarrow> (case addition m of None \<Rightarrow> False
     | Some xs \<Rightarrow> \<exists>x \<in> set xs. case x of None \<Rightarrow> False | Some rr \<Rightarrow> rr_type rr = RRTYPE_OPT)"

definition opt_rr :: resource_record where
  "opt_rr = \<lparr>rr_name = Some [0], rr_type = RRTYPE_OPT, rr_class = of_nat CLIENT_BUFFER_SIZE, ttl = 0,
     rdlength = 0, rdata = None\<rparr>"

lemma create_opt: "create_resource_record [0, 0, 0, 0] RRTYPE_OPT (of_nat CLIENT_BUFFER_SIZE) 0 0 [0, 0, 0, 0] = ret opt_rr"
  by (simp add: create_resource_record_def domain_len_def strnlen_def rd_bytes_def opt_rr_def)

lemma wf_opt_rr: "wf_rr opt_rr"
  by (simp add: wf_rr_def opt_rr_def c_name_def)

lemma wf_section_nth:
  assumes "wf_section ok arr cnt" and "i < unat cnt"
  shows "\<exists>x. entry_at arr i = ret x \<and> ok x"
proof -
  from assms obtain xs where xs: "arr = Some xs" "length xs = unat cnt"
    "list_all (\<lambda>x. case x of None \<Rightarrow> False | Some y \<Rightarrow> ok y) xs"
    by (auto simp: wf_section_def split: option.splits)
  then have "case xs ! i of None \<Rightarrow> False | Some y \<Rightarrow> ok y" using assms(2) by (simp add: list_all_length)
  with xs assms(2) show ?thesis by (auto simp: entry_at_def split: option.splits)
qed

lemma find_opt_ok:
  assumes "wf_section ok arr cnt"
  shows "i + k \<le> unat cnt \<Longrightarrow> \<exists>r. find_opt arr i k = ret r \<and>
    (case r of None \<Rightarrow> True | Some j \<Rightarrow> j < i + k \<and> (\<exists>rr. entry_at arr j = ret rr \<and> rr_type rr = RRTYPE_OPT))"
proof (induction k arbitrary: i)
  case (Suc k)
  then obtain x where x: "entry_at arr i = ret x" using wf_section_nth [OF assms, of i] by auto
  show ?case
  proof (cases "rr_type x = RRTYPE_OPT")
    case True
    with x show ?thesis by auto
  next
    case False
    with Suc.IH [of "Suc i"] Suc.prems x show ?thesis by (auto split: option.splits)
  qed
qed simp

lemma wf_section_append:
  assumes "wf_section ok arr cnt" and "ok x" and "cnt + 1 \<noteq> 0"
  shows "\<exists>xs. old_entries arr (unat cnt) = ret xs \<and> wf_section ok (Some (xs @ [Some x])) (cnt + 1) \<and>
    enc_section enc (Some (xs @ [Some x])) = enc_section enc arr @ enc x"
proof -
  have "unat (cnt + 1) = Suc (unat cnt)" using assms(3) by (simp add: unatSuc add.commute)
  with assms show ?thesis
    by (cases arr) (auto simp: wf_section_def old_entries_def unat_eq_zero enc_section_def section_items_def
        map_filter_def)
qed

lemma wf_section_update:
  assumes "wf_section ok (Some xs) cnt" and "\<And>x. ok x \<Longrightarrow> ok (f x)"
  shows "wf_section ok (Some (xs[i := map_option f (xs ! i)])) cnt"
proof (cases "i < length xs")
  case True
  with assms show ?thesis
    by (auto simp: wf_section_def list_all_length nth_list_update split: option.splits)
qed (use assms(1) in \<open>simp add: list_update_beyond not_less\<close>)

lemma enc_section_update:
  assumes "i < length xs" and "xs ! i = Some x" and "length (enc y) = length (enc x)"
  shows "length (enc_section enc (Some (xs[i := Some y]))) = length (enc_section enc (Some xs))"
proof -
  have xs: "xs = take i xs @ Some x # drop (Suc i) xs" using assms(1,2) by (metis id_take_nth_drop)
  have ys: "xs[i := Some y] = take i xs @ Some y # drop (Suc i) xs"
    using assms(1) by (rule upd_conv_take_nth_drop)
  show ?thesis unfolding ys using assms(3)
    by (subst (3) xs) (simp add: enc_section_def section_items_def map_filter_def)
qed

lemma wf_rr_set_ttl: "wf_rr rr \<Longrightarrow> wf_rr (rr\<lparr>ttl := t\<rparr>)"
  by (simp add: wf_rr_def split: option.splits)

lemma has_optI:
  assumes "addition m = Some xs" and "Some rr \<in> set xs" and "rr_type rr = RRTYPE_OPT"
  shows "has_opt m"
  using assms unfolding has_opt_def by (auto intro!: bexI [of _ "Some rr"])

text \<open>What a request is after \<^verbatim>\<open>add_edns\<close>: the same request but for its additional section, which has an OPT record.\<close>

definition edns_version :: "message \<Rightarrow> message \<Rightarrow> bool" where
  "edns_version req req' \<longleftrightarrow> add_edns req = ret req' \<and> wf_message req' \<and> has_opt req' \<and>
     question req' = question req \<and> answer req' = answer req \<and> authority req' = authority req \<and>
     header req' = (header req)\<lparr>arcount := arcount (header req')\<rparr> \<and>
     length (enc_message req') \<le> length (enc_message req) + 11"

lemma add_edns_ok:
  assumes "wf_message req" and "arcount (header req) + 1 \<noteq> 0"
  shows "\<exists>req'. edns_version req req'"
proof -
  let ?n = "arcount (header req)"
  have wf: "wf_section wf_rr (addition req) ?n" using assms(1) by (simp add: wf_message_def)
  obtain r where r: "find_opt (addition req) 0 (unat ?n) = ret r" "case r of None \<Rightarrow> True
      | Some j \<Rightarrow> j < unat ?n \<and> (\<exists>rr. entry_at (addition req) j = ret rr \<and> rr_type rr = RRTYPE_OPT)"
    using find_opt_ok [OF wf, of 0 "unat ?n"] unfolding add_0 by blast
  show ?thesis
  proof (cases r)
    case None
    obtain xs where xs: "old_entries (addition req) (unat ?n) = ret xs"
      "wf_section wf_rr (Some (xs @ [Some opt_rr])) (?n + 1)"
      "enc_section enc_rr (Some (xs @ [Some opt_rr])) = enc_section enc_rr (addition req) @ enc_rr opt_rr"
      using wf_section_append [OF wf wf_opt_rr assms(2), of enc_rr] by blast
    let ?r = "req\<lparr>header := (header req)\<lparr>arcount := ?n + 1\<rparr>, addition := Some (xs @ [Some opt_rr])\<rparr>"
    have "add_edns req = ret ?r" using r(1) None xs(1) assms(2) create_opt by (simp add: add_edns_def Let_def)
    moreover have "has_opt ?r" by (rule has_optI [of _ "xs @ [Some opt_rr]" opt_rr]) (simp_all add: opt_rr_def)
    moreover have "length (enc_message ?r) = length (enc_message req) + 11"
      using xs(3) by (simp add: enc_message_def) (simp add: opt_rr_def enc_rr_def)
    ultimately show ?thesis using assms(1) xs(2) by (simp add: wf_message_def edns_version_def)
  next
    case (Some j)
    with r(2) obtain xs rr where xs: "addition req = Some xs" "j < length xs" "xs ! j = Some rr" "rr_type rr = RRTYPE_OPT"
      by (auto simp: entry_at_def split: if_splits)
    let ?f = "\<lambda>rr. rr\<lparr>ttl := of_nat CLIENT_BUFFER_SIZE\<rparr> :: resource_record"
    let ?xs = "xs[j := map_option ?f (xs ! j)]"
    have "add_edns req = ret (req\<lparr>addition := Some ?xs\<rparr>)"
      using r(1) Some xs by (simp add: add_edns_def Let_def)
    moreover have "wf_section wf_rr (Some ?xs) ?n"
      using wf xs(1) by (intro wf_section_update wf_rr_set_ttl) simp_all
    moreover have "Some (?f rr) \<in> set ?xs" using xs(2,3) by (metis map_option_eq_Some set_update_memI)
    then have "has_opt (req\<lparr>addition := Some ?xs\<rparr>)" using xs(4) by (intro has_optI [of _ ?xs "?f rr"]) simp_all
    moreover have "length (enc_section enc_rr (Some ?xs)) = length (enc_section enc_rr (addition req))"
      using enc_section_update [OF xs(2,3), of enc_rr "?f rr"] xs(1,3) by (simp add: enc_rr_def)
    ultimately show ?thesis using assms(1) by (simp add: wf_message_def edns_version_def enc_message_def)
  qed
qed

section \<open>The exchange\<close>

lemma message_from_buf_header:
  "12 \<le> len \<Longrightarrow> message_from_buf buf len (msg\<lparr>header := h\<rparr>) = message_from_buf buf len msg"
  using leD [of 12 len] by (simp add: message_from_buf_def)

lemma wf_message_set_id: "wf_message (set_id i m) = wf_message m"
  by (simp add: set_id_def wf_message_def)

lemma length_enc_set_id: "length (enc_message (set_id i m)) = length (enc_message m)"
  by (simp add: set_id_def enc_message_def)

lemma received_holds:
  assumes "length bs \<le> CLIENT_BUFFER_SIZE"
  shows "holds_at (received bs) 0 bs"
  using assms by (cases "bs = []") (simp_all add: received_def holds_at_iff)

lemma parsed_plain: "plain_message m \<Longrightarrow> parsed_message m"
  using message_from_buf_cases [of "enc_message m" 12 1 m] message_from_buf_reads [of m "enc_message m" 12]
  by simp

text \<open>The request on the wire, and what each kind of reply does.\<close>

lemma send_question_sends:
  assumes "wf_message req" and "arcount (header req) + 1 \<noteq> 0" and "socket_ok net" and "option_ok net"
    and "length (enc_message req) + 11 \<le> CLIENT_BUFFER_SIZE"
  shows "\<exists>sent. edns_version (set_id (new_id net) req) sent \<and>
    (\<forall>resp. send_question net req resp =
       (case exchange net (enc_message sent) of
          None \<Rightarrow> ret (-1, set_id (msg_id (header req)) sent, resp)
        | Some reply \<Rightarrow>
            bind_run (message_from_buf (received reply) (of_nat (min (length reply) CLIENT_BUFFER_SIZE)) resp)
              (\<lambda>(r, m).
            if r < 0 then ret (-1, set_id (msg_id (header req)) sent, m)
            else if msg_id (header m) \<noteq> new_id net then
              bind_run (free_heap_message m) (\<lambda>(_, m). ret (-1, set_id (msg_id (header req)) sent, m))
            else ret (1, set_id (msg_id (header req)) sent, set_id (msg_id (header req)) m))))"
proof -
  let ?b = "replicate CLIENT_BUFFER_SIZE 0 :: mem"
  have "arcount (header (set_id (new_id net) req)) + 1 \<noteq> 0" using assms(2) by (simp add: set_id_def)
  then obtain sent where sent: "add_edns (set_id (new_id net) req) = ret sent"
    "edns_version (set_id (new_id net) req) sent"
    using add_edns_ok [of "set_id (new_id net) req"] assms(1) by (auto simp: wf_message_set_id edns_version_def)
  let ?e = "enc_message sent"
  have len: "length ?e \<le> CLIENT_BUFFER_SIZE" and wf: "wf_message sent"
    using sent(2) assms(5) by (simp_all add: edns_version_def length_enc_set_id)
  then have "message_to_u8 sent ?b 0 = ret (int (length ?e), overlay ?b 0 ?e)"
    by (intro message_to_u8_writes) (simp_all add: fits_def)
  moreover have "take (length ?e) (overlay ?b 0 ?e) = ?e" using len by (rule take_overlay_all)
  ultimately have "\<forall>resp. send_question net req resp =
       (case exchange net ?e of
          None \<Rightarrow> ret (-1, set_id (msg_id (header req)) sent, resp)
        | Some reply \<Rightarrow>
            bind_run (message_from_buf (received reply) (of_nat (min (length reply) CLIENT_BUFFER_SIZE)) resp)
              (\<lambda>(r, m).
            if r < 0 then ret (-1, set_id (msg_id (header req)) sent, m)
            else if msg_id (header m) \<noteq> new_id net then
              bind_run (free_heap_message m) (\<lambda>(_, m). ret (-1, set_id (msg_id (header req)) sent, m))
            else ret (1, set_id (msg_id (header req)) sent, set_id (msg_id (header req)) m)))"
    using assms(3,4) sent(1) by (simp add: send_question_def Let_def split: option.split)
  with sent(2) show ?thesis by blast
qed

lemma reply_parsed:
  assumes "plain_message m" and "length (enc_message m) \<le> CLIENT_BUFFER_SIZE"
  shows "message_from_buf (received (enc_message m)) (of_nat (min (length (enc_message m)) CLIENT_BUFFER_SIZE))
    (zero_message\<lparr>header := h\<rparr>) = ret (1, m)"
proof -
  have "12 \<le> length (enc_message m)" by (simp add: enc_message_def)
  then have "12 \<le> (of_nat (min (length (enc_message m)) CLIENT_BUFFER_SIZE) :: u32)"
    using assms(2) by (simp add: word_le_nat_alt unat_of_nat)
  then show ?thesis
    using message_from_buf_reads [OF assms(1) received_holds [OF assms(2)]] by (simp add: message_from_buf_header)
qed

lemma send_question_ok:
  assumes "wf_message req" and "arcount (header req) + 1 \<noteq> 0" and "socket_ok net" and "option_ok net"
    and "length (enc_message req) + 11 \<le> CLIENT_BUFFER_SIZE"
  shows "\<exists>sent. edns_version (set_id (new_id net) req) sent \<and>
    (exchange net (enc_message sent) = None \<longrightarrow>
       send_question net req resp = ret (-1, set_id (msg_id (header req)) sent, resp)) \<and>
    (\<forall>m. plain_message m \<and> length (enc_message m) \<le> CLIENT_BUFFER_SIZE \<and>
         exchange net (enc_message sent) = Some (enc_message m) \<longrightarrow>
       send_question net req (zero_message\<lparr>header := h\<rparr>) =
         (if msg_id (header m) = new_id net
          then ret (1, set_id (msg_id (header req)) sent, set_id (msg_id (header req)) m)
          else ret (-1, set_id (msg_id (header req)) sent,
                    m\<lparr>question := None, answer := None, authority := None, addition := None\<rparr>)))"
proof -
  from send_question_sends [OF assms] obtain sent
    where sent: "edns_version (set_id (new_id net) req) sent"
      and run: "\<And>resp. send_question net req resp =
       (case exchange net (enc_message sent) of
          None \<Rightarrow> ret (-1, set_id (msg_id (header req)) sent, resp)
        | Some reply \<Rightarrow>
            bind_run (message_from_buf (received reply) (of_nat (min (length reply) CLIENT_BUFFER_SIZE)) resp)
              (\<lambda>(r, m).
            if r < 0 then ret (-1, set_id (msg_id (header req)) sent, m)
            else if msg_id (header m) \<noteq> new_id net then
              bind_run (free_heap_message m) (\<lambda>(_, m). ret (-1, set_id (msg_id (header req)) sent, m))
            else ret (1, set_id (msg_id (header req)) sent, set_id (msg_id (header req)) m)))"
    by blast
  show ?thesis
  proof (intro exI [of _ sent] conjI allI impI sent)
    fix m assume m: "plain_message m \<and> length (enc_message m) \<le> CLIENT_BUFFER_SIZE \<and>
      exchange net (enc_message sent) = Some (enc_message m)"
    then have "message_from_buf (received (enc_message m))
        (of_nat (min (length (enc_message m)) CLIENT_BUFFER_SIZE)) (zero_message\<lparr>header := h\<rparr>) = ret (1, m)"
      by (intro reply_parsed) simp_all
    then show "send_question net req (zero_message\<lparr>header := h\<rparr>) =
         (if msg_id (header m) = new_id net
          then ret (1, set_id (msg_id (header req)) sent, set_id (msg_id (header req)) m)
          else ret (-1, set_id (msg_id (header req)) sent,
                    m\<lparr>question := None, answer := None, authority := None, addition := None\<rparr>))"
      using m free_heap_message_wf [OF parsed_plain, of m] by (simp add: run)
  qed (simp add: run)
qed

section \<open>Properties\<close>

definition sample_query :: message where
  "sample_query = \<lparr>header = \<lparr>msg_id = 5, misc1 = 1, misc2 = 0, qdcount = 1, ancount = 0, nscount = 0,
       arcount = 0\<rparr>,
     question = Some [Some \<lparr>qname = Some [1, 97, 0], qtype = 1, qclass = 1\<rparr>],
     answer = None, authority = None, addition = None\<rparr>"

definition sample_net :: "u16 \<Rightarrow> net" where
  "sample_net i = \<lparr>socket_ok = True, option_ok = True, new_id = i,
     exchange = (\<lambda>_. Some (enc_message sample_message))\<rparr>"

lemma sample_query_ok: "wf_message sample_query" "arcount (header sample_query) = 0"
  "length (enc_message sample_query) = 19" "msg_id (header sample_query) = 5"
  by (simp_all add: sample_query_def wf_message_def sample_simps enc_message_def enc_section_def
      section_items_def enc_question_def map_filter_simps)

text \<open>C21: forwarding a well-formed query sends the query itself with the random identifier and an OPT
  record. When no reply comes, the call fails. A reply with that identifier is returned under the
  identifier of the client, any other is released and refused. In all cases the query has its own
  identifier back.\<close>

theorem send_question_exchange:
  assumes "wf_message req" and "arcount (header req) + 1 \<noteq> 0" and "socket_ok net" and "option_ok net"
    and "length (enc_message req) + 11 \<le> CLIENT_BUFFER_SIZE"
  shows "\<exists>sent. edns_version (set_id (new_id net) req) sent \<and>
    (exchange net (enc_message sent) = None \<longrightarrow>
       send_question net req resp = ret (-1, set_id (msg_id (header req)) sent, resp)) \<and>
    (\<forall>m. plain_message m \<and> length (enc_message m) \<le> CLIENT_BUFFER_SIZE \<and>
         exchange net (enc_message sent) = Some (enc_message m) \<longrightarrow>
       send_question net req (zero_message\<lparr>header := h\<rparr>) =
         (if msg_id (header m) = new_id net
          then ret (1, set_id (msg_id (header req)) sent, set_id (msg_id (header req)) m)
          else ret (-1, set_id (msg_id (header req)) sent,
                    m\<lparr>question := None, answer := None, authority := None, addition := None\<rparr>)))"
  using assms by (rule send_question_ok)

theorem send_question_exchange_witness:
  "\<exists>sent. edns_version (set_id 7 sample_query) sent \<and>
     send_question (sample_net 7) sample_query zero_message = ret (1, set_id 5 sent, set_id 5 sample_message)"
proof -
  have "zero_message\<lparr>header := zero_header\<rparr> = zero_message" by (simp add: zero_message_def)
  moreover have "plain_message sample_message" "length (enc_message sample_message) \<le> CLIENT_BUFFER_SIZE"
    "msg_id (header sample_message) = 7"
    using plain_sample_message by (simp_all add: length_sample) (simp add: sample_message_def)
  ultimately show ?thesis
    using send_question_exchange [of sample_query "sample_net 7" zero_message zero_header]
    by (auto simp: sample_query_ok sample_net_def)
qed

end
