(* ===== verification/Cache.thy ===== *)
theory Cache
  imports Message_Props "HOL-Library.Multiset"
begin

text \<open>
  The record cache (\<^verbatim>\<open>storage/cache.c\<close>): a doubly linked list with a dummy head, modelled in an
  explicit heap of nodes so that the pointer updates are those of the code. Addresses returned
  by \<^verbatim>\<open>malloc\<close> and the time from \<^verbatim>\<open>gettimeofday\<close> are arguments. Every operation holds the cache lock
  from its first to its last access, so operations are atomic. The loops follow pointers and may
  not end on a corrupt list; the refinement theorems show that they do on every reachable one.
\<close>

section \<open>Nodes and the heap\<close>

abbreviation (input) CACHE_SIZE_MAX :: u32 where "CACHE_SIZE_MAX \<equiv> 256"

type_synonym addr = nat

record rr_cache_linked_node =
  cn_next :: "addr option"
  cn_last :: "addr option"
  element :: "resource_record option"
  expire_time :: int

type_synonym heap = "addr \<rightharpoonup> rr_cache_linked_node"

record rr_cache =
  dummy :: "addr option"
  cache_size :: u32
  nodes :: heap

text \<open>Access through a pointer: null and freed nodes fault.\<close>

definition get_node :: "heap \<Rightarrow> addr option \<Rightarrow> rr_cache_linked_node run" where
  "get_node h p = (case p of None \<Rightarrow> fail NullDeref
     | Some a \<Rightarrow> (case h a of None \<Rightarrow> fail DanglingPointer | Some n \<Rightarrow> ret n))"

definition upd_node ::
  "(rr_cache_linked_node \<Rightarrow> rr_cache_linked_node) \<Rightarrow> heap \<Rightarrow> addr option \<Rightarrow> heap run" where
  "upd_node f h p = (case p of None \<Rightarrow> fail NullDeref
     | Some a \<Rightarrow> (case h a of None \<Rightarrow> fail DanglingPointer | Some n \<Rightarrow> ret (h(a \<mapsto> f n))))"

definition set_next :: "heap \<Rightarrow> addr option \<Rightarrow> addr option \<Rightarrow> heap run" where
  "set_next h p v = upd_node (\<lambda>n. n\<lparr>cn_next := v\<rparr>) h p"

definition set_last :: "heap \<Rightarrow> addr option \<Rightarrow> addr option \<Rightarrow> heap run" where
  "set_last h p v = upd_node (\<lambda>n. n\<lparr>cn_last := v\<rparr>) h p"

definition set_ttl :: "u32 \<Rightarrow> rr_cache_linked_node \<Rightarrow> rr_cache_linked_node" where
  "set_ttl t n = n\<lparr>element := map_option (\<lambda>rr. rr\<lparr>ttl := t\<rparr>) (element n)\<rparr>"

definition free_node :: "heap \<Rightarrow> addr option \<Rightarrow> heap run" where
  "free_node h p = bind_run (get_node h p) (\<lambda>_. ret (case p of None \<Rightarrow> h | Some a \<Rightarrow> h(a := None)))"

text \<open>Not called by anything: it clears the record of a node and keeps the node.\<close>

definition free_cache_linked_node :: "heap \<Rightarrow> addr option \<Rightarrow> heap run" where
  "free_cache_linked_node h p = upd_node (\<lambda>n. n\<lparr>element := None\<rparr>) h p"

section \<open>Operations\<close>

text \<open>\<open>a\<close> is the address of the new node, \<open>now\<close> the current second. What \<^verbatim>\<open>rr_copy\<close> returns is ignored.\<close>

definition create_cache_node ::
  "heap \<Rightarrow> addr \<Rightarrow> int \<Rightarrow> addr option \<Rightarrow> addr option \<Rightarrow> resource_record option \<Rightarrow> heap run"
where
  "create_cache_node h a now nxt prv rr =
     (case rr of
        None \<Rightarrow> ret (h(a \<mapsto> \<lparr>cn_next = nxt, cn_last = prv, element = None, expire_time = now\<rparr>))
      | Some r \<Rightarrow>
          bind_run (rr_copy r) (\<lambda>(_, c).
          ret (h(a \<mapsto> \<lparr>cn_next = nxt, cn_last = prv, element = Some c,
                       expire_time = now + uint (ttl r)\<rparr>))))"

text \<open>\<^verbatim>\<open>dest\<close> is an array of records, filled from its start; \<open>n\<close> counts the records found.\<close>

partial_function (option) cache_find_loop ::
  "heap \<Rightarrow> addr option \<Rightarrow> resource_record list \<Rightarrow> nat \<Rightarrow> mem \<Rightarrow> u16 \<Rightarrow> u16 \<Rightarrow>
     (int \<times> resource_record list) run"
where
  "cache_find_loop h node dest n domain t c =
     (if node = None then ret (int n, dest)
      else
        bind_run (get_node h node) (\<lambda>nd.
        bind_run (deref (element nd)) (\<lambda>e.
        bind_run
          (if t = rr_type e \<and> c = rr_class e then
             bind_run (domain_len (rr_name e)) (\<lambda>dlen.
             bind_run (deref (rr_name e)) (\<lambda>nm.
             bind_run (strncmp domain nm (size_t dlen)) (\<lambda>r. ret (r = 0))))
           else ret False) (\<lambda>hit.
        if hit then
          bind_run (rr_copy e) (\<lambda>(_, cp).
          if length dest \<le> n then fail OutOfBounds
          else cache_find_loop h (cn_next nd) (dest[n := cp]) (Suc n) domain t c)
        else cache_find_loop h (cn_next nd) dest n domain t c))))"

declare cache_find_loop.simps [code]

definition cache_find_rr ::
  "rr_cache \<Rightarrow> resource_record list \<Rightarrow> mem \<Rightarrow> u16 \<Rightarrow> u16 \<Rightarrow> (int \<times> resource_record list) run"
where
  "cache_find_rr cache dest domain t c =
     bind_run (get_node (nodes cache) (dummy cache)) (\<lambda>d.
     cache_find_loop (nodes cache) (cn_next d) dest 0 domain t c)"

partial_function (option) cache_match_loop ::
  "heap \<Rightarrow> addr option \<Rightarrow> resource_record \<Rightarrow> addr option run"
where
  "cache_match_loop h node rr =
     (if node = None then ret None
      else
        bind_run (get_node h node) (\<lambda>nd.
        bind_run (deref (element nd)) (\<lambda>e.
        bind_run (rr_cmp e rr) (\<lambda>same.
        if same then ret node else cache_match_loop h (cn_next nd) rr))))"

declare cache_match_loop.simps [code]

definition cache_match_ln :: "rr_cache \<Rightarrow> resource_record \<Rightarrow> addr option run" where
  "cache_match_ln cache rr =
     bind_run (get_node (nodes cache) (dummy cache)) (\<lambda>d. cache_match_loop (nodes cache) (cn_next d) rr)"

text \<open>\<^verbatim>\<open>p->last->next = p->next; if (p->next) p->next->last = p->last;\<close>\<close>

definition unlink :: "heap \<Rightarrow> addr option \<Rightarrow> heap run" where
  "unlink h p =
     bind_run (get_node h p) (\<lambda>n.
     bind_run (set_next h (cn_last n) (cn_next n)) (\<lambda>h1.
     bind_run (get_node h1 p) (\<lambda>n1.
     if cn_next n1 \<noteq> None then set_last h1 (cn_next n1) (cn_last n1) else ret h1)))"

definition cache_put_rr :: "rr_cache \<Rightarrow> addr \<Rightarrow> int \<Rightarrow> resource_record \<Rightarrow> (int \<times> rr_cache) run" where
  "cache_put_rr cache a now rr =
     bind_run (cache_match_ln cache rr) (\<lambda>old.
     if old \<noteq> None then
       bind_run (unlink (nodes cache) old) (\<lambda>h1.
       bind_run (set_last h1 old (dummy cache)) (\<lambda>h2.
       bind_run (get_node h2 (dummy cache)) (\<lambda>d.
       bind_run (set_next h2 old (cn_next d)) (\<lambda>h3.
       bind_run (set_next h3 (dummy cache) old) (\<lambda>h4.
       bind_run (get_node h4 old) (\<lambda>o4.
       bind_run (if cn_next o4 \<noteq> None then set_last h4 (cn_next o4) old else ret h4) (\<lambda>h5.
       ret (1, cache\<lparr>nodes := h5\<rparr>))))))))
     else
       let cache1 = cache\<lparr>cache_size := cache_size cache + 1\<rparr> in
       bind_run (get_node (nodes cache1) (dummy cache1)) (\<lambda>d.
       bind_run (create_cache_node (nodes cache1) a now (cn_next d) (dummy cache1) (Some rr)) (\<lambda>h1.
       bind_run (set_next h1 (dummy cache1) (Some a)) (\<lambda>h2.
       bind_run (get_node h2 (Some a)) (\<lambda>n.
       bind_run (if cn_next n \<noteq> None then set_last h2 (cn_next n) (Some a) else ret h2) (\<lambda>h3.
       ret (1, cache1\<lparr>nodes := h3\<rparr>)))))))"

text \<open>The inner loop of \<^verbatim>\<open>refresh_cache\<close>, which removes everything from \<open>node\<close> on.\<close>

partial_function (option) purge_loop :: "heap \<Rightarrow> u32 \<Rightarrow> addr option \<Rightarrow> (heap \<times> u32) run" where
  "purge_loop h sz node =
     (if node = None then ret (h, sz)
      else
        bind_run (get_node h node) (\<lambda>n.
        bind_run (if cn_last n \<noteq> None then set_next h (cn_last n) None else ret h) (\<lambda>h1.
        bind_run (if cn_next n \<noteq> None then set_last h1 (cn_next n) (cn_last n) else ret h1) (\<lambda>h2.
        bind_run (free_node h2 node) (\<lambda>h3.
        purge_loop h3 (sz - 1) (cn_next n))))))"

declare purge_loop.simps [code]

partial_function (option) refresh_loop :: "heap \<Rightarrow> u32 \<Rightarrow> u32 \<Rightarrow> addr option \<Rightarrow> int \<Rightarrow> (heap \<times> u32) run" where
  "refresh_loop h sz cnt node now =
     (if node = None then ret (h, sz)
      else
        bind_run (get_node h node) (\<lambda>n.
        let next = cn_next n; cnt1 = cnt + 1 in
        bind_run
          (if expire_time n \<le> now then
             bind_run (unlink h node) (\<lambda>h1.
             bind_run (free_node h1 node) (\<lambda>h2.
             ret (h2, sz - 1, cnt1 - 1)))
           else
             bind_run (deref (element n)) (\<lambda>_.
             bind_run (upd_node (set_ttl (word_of_int (expire_time n - now))) h node) (\<lambda>h1.
             ret (h1, sz, cnt1)))) (\<lambda>(h', sz', cnt').
        if cnt' = CACHE_SIZE_MAX then purge_loop h' sz' next
        else refresh_loop h' sz' cnt' next now)))"

declare refresh_loop.simps [code]

text \<open>One round of the endless loop of \<^verbatim>\<open>refresh_cache\<close>, between two calls of \<^verbatim>\<open>sleep\<close>.\<close>

definition refresh_cache :: "rr_cache \<Rightarrow> int \<Rightarrow> rr_cache run" where
  "refresh_cache cache now =
     bind_run (get_node (nodes cache) (dummy cache)) (\<lambda>d.
     bind_run (refresh_loop (nodes cache) (cache_size cache) 0 (cn_next d) now) (\<lambda>(h, sz).
     ret (cache\<lparr>nodes := h, cache_size := sz\<rparr>)))"

definition init_cache :: "addr \<Rightarrow> int \<Rightarrow> rr_cache run" where
  "init_cache a now =
     bind_run (create_cache_node Map.empty a now None None None) (\<lambda>h.
     ret \<lparr>dummy = Some a, cache_size = 0, nodes = h\<rparr>)"

section \<open>Abstract cache\<close>

text \<open>A list of entries, the most recently put first: a record and the second it expires.\<close>

type_synonym entry = "resource_record \<times> int"

definition same_rr :: "resource_record \<Rightarrow> resource_record \<Rightarrow> bool" where
  "same_rr rr1 rr2 \<longleftrightarrow> rr_name rr1 = rr_name rr2 \<and> rdlength rr1 = rdlength rr2 \<and>
     rr_type rr1 = rr_type rr2 \<and> rr_class rr1 = rr_class rr2 \<and>
     upto_nul (bytes_of (rdata rr1)) = upto_nul (bytes_of (rdata rr2))"

fun split_entry :: "resource_record \<Rightarrow> entry list \<Rightarrow> (entry list \<times> entry \<times> entry list) option" where
  "split_entry rr [] = None"
| "split_entry rr (e # es) =
     (if same_rr (fst e) rr then Some ([], e, es)
      else map_option (\<lambda>(xs, y, zs). (e # xs, y, zs)) (split_entry rr es))"

definition spec_put :: "int \<Rightarrow> resource_record \<Rightarrow> entry list \<Rightarrow> entry list" where
  "spec_put now rr es = (case split_entry rr es of
       None \<Rightarrow> (rr, now + uint (ttl rr)) # es
     | Some (xs, e, ys) \<Rightarrow> e # xs @ ys)"

definition matches :: "mem \<Rightarrow> u16 \<Rightarrow> u16 \<Rightarrow> resource_record \<Rightarrow> bool" where
  "matches domain t c rr \<longleftrightarrow> rr_type rr = t \<and> rr_class rr = c \<and> rr_name rr = Some domain"

definition spec_find :: "mem \<Rightarrow> u16 \<Rightarrow> u16 \<Rightarrow> entry list \<Rightarrow> resource_record list" where
  "spec_find domain t c es = filter (matches domain t c) (map fst es)"

definition age_entry :: "int \<Rightarrow> entry \<Rightarrow> entry" where
  "age_entry now e = ((fst e)\<lparr>ttl := word_of_int (snd e - now)\<rparr>, snd e)"

definition spec_refresh :: "int \<Rightarrow> entry list \<Rightarrow> entry list" where
  "spec_refresh now es = take 256 (map (age_entry now) (filter (\<lambda>e. now < snd e) es))"

text \<open>Sequences of operations: \<open>alloc\<close> picks the address of a new node in the current state.\<close>

datatype cache_op = Put int resource_record | Refresh int

fun run_spec :: "entry list \<Rightarrow> cache_op list \<Rightarrow> entry list" where
  "run_spec es [] = es"
| "run_spec es (Put now rr # ops) = run_spec (spec_put now rr es) ops"
| "run_spec es (Refresh now # ops) = run_spec (spec_refresh now es) ops"

fun run_cache ::
  "('c \<Rightarrow> addr \<Rightarrow> int \<Rightarrow> resource_record \<Rightarrow> (int \<times> 'c) run) \<Rightarrow> ('c \<Rightarrow> int \<Rightarrow> 'c run) \<Rightarrow> ('c \<Rightarrow> addr) \<Rightarrow>
     'c \<Rightarrow> cache_op list \<Rightarrow> 'c run"
where
  "run_cache put refresh alloc c [] = ret c"
| "run_cache put refresh alloc c (Put now rr # ops) =
     bind_run (put c (alloc c) now rr) (\<lambda>(_, c'). run_cache put refresh alloc c' ops)"
| "run_cache put refresh alloc c (Refresh now # ops) =
     bind_run (refresh c now) (\<lambda>c'. run_cache put refresh alloc c' ops)"

text \<open>The operations of a sequence only put well-formed records.\<close>

fun wf_ops :: "cache_op list \<Rightarrow> bool" where
  "wf_ops [] = True"
| "wf_ops (Put now rr # ops) = (wf_rr rr \<and> wf_ops ops)"
| "wf_ops (Refresh now # ops) = wf_ops ops"

section \<open>The representation\<close>

text \<open>
  \<open>seg h p xs\<close>: from node \<open>p\<close> the forward pointers run through \<open>xs\<close>, and the backward pointers return;
  \<open>linked\<close>: and the last node has no successor.
\<close>

fun seg :: "heap \<Rightarrow> addr \<Rightarrow> addr list \<Rightarrow> bool" where
  "seg h p [] = True"
| "seg h p (a # xs) = (case (h p, h a) of
     (Some n, Some m) \<Rightarrow> cn_next n = Some a \<and> cn_last m = Some p \<and> seg h a xs
   | _ \<Rightarrow> False)"

definition linked :: "heap \<Rightarrow> addr \<Rightarrow> addr list \<Rightarrow> bool" where
  "linked h p xs \<longleftrightarrow> seg h p xs \<and> (case h (last (p # xs)) of None \<Rightarrow> False | Some n \<Rightarrow> cn_next n = None)"

definition holds_entry :: "heap \<Rightarrow> addr \<Rightarrow> entry \<Rightarrow> bool" where
  "holds_entry h a e = (case h a of None \<Rightarrow> False
     | Some n \<Rightarrow> element n = Some (fst e) \<and> expire_time n = snd e \<and> wf_rr (fst e))"

text \<open>
  \<open>cache_rep\<close>: the heap consists of exactly the dummy and one node per entry, linked in the order
  of the entries, and the size field counts them.
\<close>

definition rep_at :: "heap \<Rightarrow> addr \<Rightarrow> addr list \<Rightarrow> entry list \<Rightarrow> bool" where
  "rep_at h d as es \<longleftrightarrow> distinct (d # as) \<and> dom h = set (d # as) \<and> linked h d as \<and>
     list_all2 (holds_entry h) as es"

definition cache_rep :: "rr_cache \<Rightarrow> entry list \<Rightarrow> bool" where
  "cache_rep c es \<longleftrightarrow> (\<exists>d as. dummy c = Some d \<and> rep_at (nodes c) d as es \<and>
     cache_size c = of_nat (length es))"

section \<open>Linked lists in the heap\<close>

definition head :: "'a list \<Rightarrow> 'a option" where
  "head xs = (case xs of [] \<Rightarrow> None | x # _ \<Rightarrow> Some x)"

lemma head_simps [simp]: "head [] = None" "head (x # xs) = Some x"
  by (simp_all add: head_def)

definition link :: "heap \<Rightarrow> addr \<Rightarrow> addr \<Rightarrow> bool" where
  "link h p a \<longleftrightarrow> (\<exists>n m. h p = Some n \<and> h a = Some m \<and> cn_next n = Some a \<and> cn_last m = Some p)"

lemma seg_Cons: "seg h p (a # xs) \<longleftrightarrow> link h p a \<and> seg h a xs"
  by (auto simp: link_def split: option.splits)

lemma seg_append: "seg h p (xs @ ys) \<longleftrightarrow> seg h p xs \<and> seg h (last (p # xs)) ys"
  by (induction xs arbitrary: p) (auto simp: seg_Cons simp del: seg.simps(2))

lemma linked_Nil: "linked h p [] \<longleftrightarrow> (\<exists>n. h p = Some n \<and> cn_next n = None)"
  by (auto simp: linked_def split: option.splits)

lemma linked_append:
  "linked h p (xs @ a # ys) \<longleftrightarrow> seg h p xs \<and> link h (last (p # xs)) a \<and> linked h a ys"
  by (auto simp: linked_def seg_append seg_Cons simp del: seg.simps(2))

lemma linked_Cons: "linked h p (a # xs) \<longleftrightarrow> link h p a \<and> linked h a xs"
  using linked_append [of h p "[]" a xs] by simp

lemma linked_head: "linked h p xs \<Longrightarrow> \<exists>n. h p = Some n \<and> cn_next n = head xs"
  by (cases xs) (auto simp: linked_Nil linked_Cons link_def)

lemma seg_frame: "x \<notin> set (p # xs) \<Longrightarrow> seg (h(x := v)) p xs = seg h p xs"
  by (induction xs arbitrary: p) (auto split: option.splits)

lemma linked_frame: "x \<notin> set (p # xs) \<Longrightarrow> linked (h(x := v)) p xs = linked h p xs"
  by (cases xs rule: rev_cases) (auto simp: linked_def seg_frame)

lemma seg_set_end:
  "distinct (p # xs) \<Longrightarrow> h (last (p # xs)) = Some n \<Longrightarrow>
     seg (h(last (p # xs) \<mapsto> n\<lparr>cn_next := v\<rparr>)) p xs = seg h p xs"
proof (induction xs arbitrary: p)
  case (Cons a xs)
  define l where "l = last (a # xs)"
  have "l \<in> set (a # xs)" unfolding l_def by (rule last_in_set) simp
  with Cons.prems have "l \<noteq> p" by auto
  moreover have "h l = Some n" using Cons.prems by (simp add: l_def)
  ultimately have "link (h(l \<mapsto> n\<lparr>cn_next := v\<rparr>)) p a = link h p a" by (auto simp: link_def)
  moreover have "seg (h(l \<mapsto> n\<lparr>cn_next := v\<rparr>)) a xs = seg h a xs"
    using Cons.prems unfolding l_def by (intro Cons.IH) auto
  moreover have "last (p # a # xs) = l" by (simp add: l_def)
  ultimately show ?case by (simp only: seg_Cons)
qed simp

lemma linked_set_last:
  assumes "p \<notin> set xs" and "h p = Some n"
  shows "linked (h(p \<mapsto> n\<lparr>cn_last := v\<rparr>)) p xs = linked h p xs"
  using assms by (cases xs) (auto simp: linked_Nil linked_Cons linked_frame link_def)

text \<open>What the pointer updates leave alone.\<close>

definition payload :: "heap \<Rightarrow> addr \<Rightarrow> (resource_record option \<times> int) option" where
  "payload h a = map_option (\<lambda>n. (element n, expire_time n)) (h a)"

lemma holds_entry_payload:
  "holds_entry h a e \<longleftrightarrow> payload h a = Some (Some (fst e), snd e) \<and> wf_rr (fst e)"
  by (auto simp: holds_entry_def payload_def split: option.splits)

lemma payload_upd [simp]:
  "h p = Some n \<Longrightarrow> payload (h(p \<mapsto> n\<lparr>cn_next := v\<rparr>)) = payload h"
  "h p = Some n \<Longrightarrow> payload (h(p \<mapsto> n\<lparr>cn_last := v\<rparr>)) = payload h"
  by (auto simp: payload_def fun_eq_iff)

lemma dom_payload: "payload h' = payload h \<Longrightarrow> dom h' = dom h"
proof -
  have "dom (payload h) = dom h" for h by (auto simp: payload_def dom_def)
  then show "payload h' = payload h \<Longrightarrow> dom h' = dom h" by metis
qed

lemma get_node_simps [simp]: "h a = Some n \<Longrightarrow> get_node h (Some a) = ret n"
  by (simp add: get_node_def)

lemma set_node_simps [simp]:
  "h a = Some n \<Longrightarrow> set_next h (Some a) v = ret (h(a \<mapsto> n\<lparr>cn_next := v\<rparr>))"
  "h a = Some n \<Longrightarrow> set_last h (Some a) v = ret (h(a \<mapsto> n\<lparr>cn_last := v\<rparr>))"
  by (simp_all add: set_next_def set_last_def upd_node_def)

lemma free_node_simps [simp]: "h a = Some n \<Longrightarrow> free_node h (Some a) = ret (h(a := None))"
  by (simp add: free_node_def)

lemma unlink_ok:
  assumes "distinct (d # xs @ a # ys)" and "linked h d (xs @ a # ys)"
  shows "\<exists>h'. unlink h (Some a) = ret h' \<and> linked h' d (xs @ ys) \<and> payload h' = payload h \<and> h' a = h a"
proof -
  let ?q = "last (d # xs)"
  have q: "?q \<in> set (d # xs)" by (rule last_in_set) simp
  from assms(2) obtain n m where n: "h ?q = Some n" "cn_next n = Some a"
    and m: "h a = Some m" "cn_last m = Some ?q" and s: "seg h d xs" "linked h a ys"
    by (auto simp: linked_append link_def)
  have "?q \<noteq> a" using q assms(1) by auto
  show ?thesis
  proof (cases ys)
    case Nil
    then have "cn_next m = None" using s(2) m(1) by (simp add: linked_Nil)
    have "seg (h(?q \<mapsto> n\<lparr>cn_next := None\<rparr>)) d xs" using s(1) n(1) assms(1) by (subst seg_set_end) auto
    then have "linked (h(?q \<mapsto> n\<lparr>cn_next := None\<rparr>)) d xs" by (simp add: linked_def)
    with Nil n m \<open>?q \<noteq> a\<close> \<open>cn_next m = None\<close> show ?thesis by (simp add: unlink_def)
  next
    case (Cons b zs)
    with s(2) m(1) obtain k where b: "cn_next m = Some b" "h b = Some k" "linked h b zs"
      by (auto simp: linked_Cons link_def)
    have ne: "b \<noteq> a" "b \<noteq> ?q" "b \<notin> set (d # xs)" "b \<notin> set zs" "?q \<notin> set (b # zs)"
      using q assms(1) Cons by auto
    let ?h1 = "h(?q \<mapsto> n\<lparr>cn_next := Some b\<rparr>)" let ?h2 = "?h1(b \<mapsto> k\<lparr>cn_last := Some ?q\<rparr>)"
    have "unlink h (Some a) = ret ?h2" using n m b \<open>?q \<noteq> a\<close> ne by (simp add: unlink_def)
    moreover have "seg ?h2 d xs"
      using s(1) n(1) assms(1) ne(3) by (subst seg_frame) (simp, subst seg_set_end, auto)
    moreover have "linked ?h2 b zs"
      using b ne by (subst linked_set_last) (simp, simp, subst linked_frame, auto)
    moreover have "link ?h2 ?q b" using ne by (simp add: link_def)
    ultimately show ?thesis
      using Cons n(1) b(2) ne \<open>?q \<noteq> a\<close> m(1) by (simp add: linked_append)
  qed
qed

text \<open>Putting a node behind the dummy.\<close>

lemma link_front_ok:
  assumes "distinct (d # a # as)" and "linked h d as"
    and "h a = Some m" and "cn_last m = Some d" and "cn_next m = head as"
  shows "\<exists>h'. bind_run (set_next h (Some d) (Some a)) (\<lambda>h4.
      bind_run (get_node h4 (Some a)) (\<lambda>nd.
      if cn_next nd \<noteq> None then set_last h4 (cn_next nd) (Some a) else ret h4)) = ret h' \<and>
    linked h' d (a # as) \<and> payload h' = payload h"
proof -
  from linked_head [OF assms(2)] obtain n where n: "h d = Some n" "cn_next n = head as" by blast
  let ?h1 = "h(d \<mapsto> n\<lparr>cn_next := Some a\<rparr>)"
  have ne: "d \<noteq> a" "a \<notin> set as" "d \<notin> set as" using assms(1) by auto
  show ?thesis
  proof (cases as)
    case Nil
    then show ?thesis using n assms ne by (simp add: linked_Cons linked_Nil link_def)
  next
    case (Cons b bs)
    with assms(2) n obtain k where b: "h b = Some k" "linked h b bs"
      by (auto simp: linked_Cons link_def)
    have nb: "b \<noteq> d" "b \<noteq> a" "b \<notin> set bs" "d \<notin> set bs" using assms(1) Cons by auto
    let ?h2 = "?h1(b \<mapsto> k\<lparr>cn_last := Some a\<rparr>)"
    have "linked ?h2 b bs" using b nb by (subst linked_set_last) (simp, simp, subst linked_frame, auto)
    moreover have "link ?h2 d a" "link ?h2 a b" using nb ne assms(3-5) Cons by (simp_all add: link_def)
    ultimately have "linked ?h2 d (a # as)" using Cons by (simp add: linked_Cons)
    then show ?thesis using n b nb ne assms(3-5) Cons by simp
  qed
qed

section \<open>Looking up and putting records\<close>

lemma rr_cmp_same: "wf_rr rr1 \<Longrightarrow> wf_rr rr2 \<Longrightarrow> rr_cmp rr1 rr2 = ret (same_rr rr1 rr2)"
  by (simp add: rr_cmp_wf same_rr_def)

lemma holds_entryE:
  assumes "holds_entry h a e"
  obtains n where "h a = Some n" "element n = Some (fst e)" "expire_time n = snd e" "wf_rr (fst e)"
  using assms by (auto simp: holds_entry_def split: option.splits)

lemma linked_tl:
  assumes "linked h p (a # as)" and "h a = Some n"
  shows "cn_next n = head as" "linked h a as"
  using assms linked_head [of h a as] by (auto simp: linked_Cons)

lemma split_entry_Some:
  "split_entry rr es = Some (xs, e, ys) \<Longrightarrow> es = xs @ e # ys"
  by (induction es arbitrary: xs) (auto split: if_splits)

lemma cache_match_loop_ok:
  assumes "wf_rr rr"
  shows "linked h p as \<Longrightarrow> list_all2 (holds_entry h) as es \<Longrightarrow>
    cache_match_loop h (head as) rr =
      ret (map_option (\<lambda>t. as ! length (fst t)) (split_entry rr es))"
proof (induction as arbitrary: p es)
  case Nil
  then show ?case by (subst cache_match_loop.simps) simp
next
  case (Cons a as)
  then obtain e es' where es: "es = e # es'" "holds_entry h a e" "list_all2 (holds_entry h) as es'"
    by (auto simp: list_all2_Cons1)
  from es(2) obtain n where n: "h a = Some n" "element n = Some (fst e)" "wf_rr (fst e)"
    by (rule holds_entryE)
  from linked_tl [OF Cons.prems(1) n(1)] Cons.IH [OF _ es(3)] have
    "cache_match_loop h (cn_next n) rr =
      ret (map_option (\<lambda>t. as ! length (fst t)) (split_entry rr es'))" by simp
  then show ?case
    using n es(1) rr_cmp_same [OF n(3) assms]
    by (subst cache_match_loop.simps) (auto simp: option.map_comp comp_def split_beta)
qed

lemma list_all2_payload:
  "payload h' = payload h \<Longrightarrow> list_all2 (holds_entry h) as es \<Longrightarrow> list_all2 (holds_entry h') as es"
  by (erule list_all2_mono) (simp add: holds_entry_payload)

lemma list_all2_frame:
  "a \<notin> set as \<Longrightarrow> list_all2 (holds_entry (h(a := v))) as es = list_all2 (holds_entry h) as es"
proof (induction as arbitrary: es)
  case (Cons b as)
  then show ?case by (cases es) (auto simp: holds_entry_def)
qed simp

lemma link_front_bind:
  "bind_run (set_next h d (Some a)) (\<lambda>h4. bind_run (get_node h4 (Some a)) (\<lambda>nd.
     bind_run (if cn_next nd \<noteq> None then set_last h4 (cn_next nd) (Some a) else ret h4) K)) =
   bind_run (bind_run (set_next h d (Some a)) (\<lambda>h4. bind_run (get_node h4 (Some a)) (\<lambda>nd.
     if cn_next nd \<noteq> None then set_last h4 (cn_next nd) (Some a) else ret h4))) K"
  by (simp add: bind_run_assoc)

lemma put_new:
  assumes "rep_at h d as es" and "wf_rr rr" and "h a = None" and "get_node h (Some d) = ret dn"
  shows "\<exists>h'. bind_run (create_cache_node h a now (cn_next dn) (Some d) (Some rr)) (\<lambda>h1.
      bind_run (set_next h1 (Some d) (Some a)) (\<lambda>h2.
      bind_run (get_node h2 (Some a)) (\<lambda>n.
      bind_run (if cn_next n \<noteq> None then set_last h2 (cn_next n) (Some a) else ret h2) K)))
      = K h' \<and> rep_at h' d (a # as) ((rr, now + uint (ttl rr)) # es)"
proof -
  have r: "distinct (d # as)" "dom h = set (d # as)" "linked h d as" "list_all2 (holds_entry h) as es"
    using assms(1) by (auto simp: rep_at_def)
  have a: "a \<noteq> d" "a \<notin> set as" using assms(3) r(2) by auto
  have dn: "cn_next dn = head as"
    using assms(4) linked_head [OF r(3)] by (auto simp: get_node_def split: option.splits)
  define m where "m = \<lparr>cn_next = head as, cn_last = Some d, element = Some rr,
    expire_time = now + uint (ttl rr)\<rparr>"
  have c: "create_cache_node h a now (cn_next dn) (Some d) (Some rr) = ret (h(a \<mapsto> m))"
    using rr_copy_wf [OF assms(2)] by (simp add: create_cache_node_def dn m_def)
  have "linked (h(a \<mapsto> m)) d as" using r(3) a by (simp add: linked_frame)
  with link_front_ok [of d a as "h(a \<mapsto> m)" m] a r(1) obtain h' where
    h': "bind_run (set_next (h(a \<mapsto> m)) (Some d) (Some a)) (\<lambda>h4.
      bind_run (get_node h4 (Some a)) (\<lambda>nd.
      if cn_next nd \<noteq> None then set_last h4 (cn_next nd) (Some a) else ret h4)) = ret h'"
      "linked h' d (a # as)" "payload h' = payload (h(a \<mapsto> m))"
    by (auto simp: m_def)
  have "list_all2 (holds_entry (h(a \<mapsto> m))) (a # as) ((rr, now + uint (ttl rr)) # es)"
    using r(4) a assms(2) by (simp add: list_all2_frame) (simp add: holds_entry_def m_def)
  from list_all2_payload [OF h'(3) this] have "rep_at h' d (a # as) ((rr, now + uint (ttl rr)) # es)"
    using h'(2) r(1,2) a dom_payload [OF h'(3)] by (auto simp: rep_at_def)
  moreover have "bind_run (create_cache_node h a now (cn_next dn) (Some d) (Some rr)) (\<lambda>h1.
      bind_run (set_next h1 (Some d) (Some a)) (\<lambda>h2.
      bind_run (get_node h2 (Some a)) (\<lambda>n.
      bind_run (if cn_next n \<noteq> None then set_last h2 (cn_next n) (Some a) else ret h2) K))) = K h'"
    by (simp only: c link_front_bind bind_run_simps h'(1))
  ultimately show ?thesis by blast
qed

lemma put_old:
  assumes "rep_at h d (xs @ a # ys) es" and "length xs = length es1" and "es = es1 @ e # es2"
  shows "\<exists>h'. bind_run (unlink h (Some a)) (\<lambda>h1.
      bind_run (set_last h1 (Some a) (Some d)) (\<lambda>h2.
      bind_run (get_node h2 (Some d)) (\<lambda>dn.
      bind_run (set_next h2 (Some a) (cn_next dn)) (\<lambda>h3.
      bind_run (set_next h3 (Some d) (Some a)) (\<lambda>h4.
      bind_run (get_node h4 (Some a)) (\<lambda>o4.
      bind_run (if cn_next o4 \<noteq> None then set_last h4 (cn_next o4) (Some a) else ret h4) K))))))
      = K h' \<and> rep_at h' d (a # xs @ ys) (e # es1 @ es2)"
proof -
  let ?as = "xs @ ys"
  have r: "distinct (d # xs @ a # ys)" "dom h = set (d # xs @ a # ys)" "linked h d (xs @ a # ys)"
    "list_all2 (holds_entry h) (a # ?as) (e # es1 @ es2)"
    using assms by (auto simp: rep_at_def list_all2_append)
  from unlink_ok [OF r(1,3)] obtain h1 where
    h1: "unlink h (Some a) = ret h1" "linked h1 d ?as" "payload h1 = payload h" "h1 a = h a"
    by blast
  obtain m where m: "h1 a = Some m" using h1(4) r(2) by auto
  have ne: "a \<noteq> d" "a \<notin> set ?as" using r(1) by auto
  define m' where "m' = m\<lparr>cn_last := Some d, cn_next := head ?as\<rparr>"
  define h3 where "h3 = h1(a \<mapsto> m')"
  from linked_head [OF h1(2)] obtain dn where dn: "h1 d = Some dn" "cn_next dn = head ?as" by blast
  have "payload h3 = payload h1" using m by (auto simp: h3_def m'_def payload_def fun_eq_iff)
  with h1(3) have p3: "payload h3 = payload h" by simp
  have "linked h3 d ?as" using h1(2) ne by (simp add: h3_def linked_frame)
  with link_front_ok [of d a ?as h3 m'] ne r(1) obtain h' where
    h': "bind_run (set_next h3 (Some d) (Some a)) (\<lambda>h4.
      bind_run (get_node h4 (Some a)) (\<lambda>nd.
      if cn_next nd \<noteq> None then set_last h4 (cn_next nd) (Some a) else ret h4)) = ret h'"
      "linked h' d (a # ?as)" "payload h' = payload h3"
    by (auto simp: m'_def h3_def)
  have "rep_at h' d (a # ?as) (e # es1 @ es2)"
    using h'(2,3) p3 r(1,2) dom_payload [of h' h] list_all2_payload [OF _ r(4), of h']
    by (auto simp: rep_at_def)
  moreover have "set_next (h1(a \<mapsto> m\<lparr>cn_last := Some d\<rparr>)) (Some a) (head ?as) = ret h3"
    by (simp add: h3_def m'_def)
  moreover have "get_node (h1(a \<mapsto> m\<lparr>cn_last := Some d\<rparr>)) (Some d) = ret dn" using ne dn by simp
  moreover have "set_last h1 (Some a) (Some d) = ret (h1(a \<mapsto> m\<lparr>cn_last := Some d\<rparr>))" using m by simp
  ultimately show ?thesis
    by (intro exI [of _ h']) (simp only: h1(1) dn(2) link_front_bind bind_run_simps h'(1) simp_thms)
qed

lemma cache_put_ok:
  assumes "cache_rep c es" and "wf_rr rr" and "nodes c a = None"
  shows "\<exists>c'. cache_put_rr c a now rr = ret (1, c') \<and> cache_rep c' (spec_put now rr es) \<and>
    dummy c' = dummy c"
proof -
  from assms(1) obtain d as where d: "dummy c = Some d" and r: "rep_at (nodes c) d as es"
    and sz: "cache_size c = of_nat (length es)" by (auto simp: cache_rep_def)
  from r have ll: "linked (nodes c) d as" "list_all2 (holds_entry (nodes c)) as es"
    by (simp_all add: rep_at_def)
  from linked_head [OF ll(1)] obtain dn where dn: "nodes c d = Some dn" "cn_next dn = head as" by blast
  have match: "cache_match_ln c rr = ret (map_option (\<lambda>t. as ! length (fst t)) (split_entry rr es))"
    using cache_match_loop_ok [OF assms(2) ll] d dn by (simp add: cache_match_ln_def)
  show ?thesis
  proof (cases "split_entry rr es")
    case None
    have "get_node (nodes c) (Some d) = ret dn" using dn by simp
    from put_new [OF r assms(2,3) this, of now "\<lambda>h. ret (1, c\<lparr>cache_size := cache_size c + 1, nodes := h\<rparr>)"]
    show ?thesis using match None d dn sz
      by (auto simp: cache_put_rr_def Let_def cache_rep_def spec_put_def)
  next
    case (Some t)
    then obtain es1 e es2 where t: "t = (es1, e, es2)" by (cases t) auto
    have es: "es = es1 @ e # es2" using Some t by (simp add: split_entry_Some)
    then have len: "length es1 < length as" using ll(2) by (simp add: list_all2_lengthD)
    let ?a = "as ! length es1" let ?xs = "take (length es1) as" let ?ys = "drop (Suc (length es1)) as"
    have "as = ?xs @ ?a # ?ys" using len by (rule id_take_nth_drop)
    with r have "rep_at (nodes c) d (?xs @ ?a # ?ys) es" by simp
    from put_old [OF this _ es, of "\<lambda>h. ret (1, c\<lparr>nodes := h\<rparr>)"] len
    show ?thesis using match Some t d sz es
      by (auto simp: cache_put_rr_def cache_rep_def spec_put_def)
  qed
qed

lemma init_cache_ok: "\<exists>c. init_cache a now = ret c \<and> cache_rep c []"
  by (simp add: init_cache_def create_cache_node_def cache_rep_def rep_at_def linked_Nil)

text \<open>One round of the search.\<close>

lemma cache_find_step:
  assumes "c_name (Some domain)" and "linked h p (a # as)" and "holds_entry h a e"
  shows "cache_find_loop h (Some a) dest n domain t c =
    (if matches domain t c (fst e) then
       if length dest \<le> n then fail OutOfBounds
       else cache_find_loop h (head as) (dest[n := fst e]) (Suc n) domain t c
     else cache_find_loop h (head as) dest n domain t c)"
proof -
  from assms(3) obtain nd where nd: "h a = Some nd" "element nd = Some (fst e)" "wf_rr (fst e)"
    by (rule holds_entryE)
  have nx: "cn_next nd = head as" using linked_tl [OF assms(2) nd(1)] by simp
  from nd(3) obtain bs where bs: "rr_name (fst e) = Some (bs @ [0])" "nul_free bs" "length bs < 255"
    by (auto simp: wf_rr_def elim: c_nameE)
  from assms(1) obtain ds where ds: "domain = ds @ [0]" "nul_free ds" by (auto elim: c_nameE)
  have dl: "domain_len (Some (bs @ [0])) = ret (int (Suc (length bs)))"
    using domain_len_c_name [of "rr_name (fst e)"] nd(3) bs(1) by (simp add: wf_rr_def)
  have sz: "size_t (int (Suc (length bs))) = Suc (length bs)" using bs(3) by (simp add: size_t_def)
  obtain r where r: "strncmp domain (bs @ [0]) (Suc (length bs)) = ret r" "r = 0 \<longleftrightarrow> domain = bs @ [0]"
    using strncmp_cstring_right [OF ds(2) bs(2), of "Suc (length bs)"] ds(1) by auto
  have "matches domain t c (fst e) \<longleftrightarrow> t = rr_type (fst e) \<and> c = rr_class (fst e) \<and> r = 0"
    using bs(1) r(2) by (auto simp: matches_def)
  then show ?thesis
    using bs(1) dl sz r(1) nd nx rr_copy_wf [OF nd(3)] by (subst cache_find_loop.simps) auto
qed

lemma spec_find_Cons:
  "spec_find domain t c (e # es) =
     (if matches domain t c (fst e) then fst e # spec_find domain t c es else spec_find domain t c es)"
  by (simp add: spec_find_def)

lemma cache_find_loop_ok:
  assumes "c_name (Some domain)"
  shows "linked h p as \<Longrightarrow> list_all2 (holds_entry h) as es \<Longrightarrow>
    cache_find_loop h (head as) dest n domain t c =
      (if n + length (spec_find domain t c es) \<le> max n (length dest) then
         ret (int (n + length (spec_find domain t c es)),
           take n dest @ spec_find domain t c es @ drop (n + length (spec_find domain t c es)) dest)
       else fail OutOfBounds)"
proof (induction as arbitrary: p es n dest)
  case Nil
  then show ?case by (subst cache_find_loop.simps) (simp add: spec_find_def)
next
  case (Cons a as)
  then obtain e es' where es: "es = e # es'" "holds_entry h a e" "list_all2 (holds_entry h) as es'"
    by (auto simp: list_all2_Cons1)
  from es(2) obtain nd where "h a = Some nd" by (rule holds_entryE)
  then have lk: "linked h a as" using linked_tl(2) [OF Cons.prems(1)] by simp
  have tk: "take (Suc n) (dest[n := fst e]) = take n dest @ [fst e]" if "n < length dest"
    using that by (simp add: take_Suc_conv_app_nth)
  show ?case
    using cache_find_step [OF assms Cons.prems(1) es(2)] Cons.IH [OF lk es(3)] tk
    by (auto simp: es(1) spec_find_Cons max_def)
qed

lemma cache_find_rr_result:
  assumes "cache_rep c es" and "c_name (Some domain)"
  shows "cache_find_rr c dest domain t cl =
    (if length (spec_find domain t cl es) \<le> length dest then
       ret (int (length (spec_find domain t cl es)),
         spec_find domain t cl es @ drop (length (spec_find domain t cl es)) dest)
     else fail OutOfBounds)"
proof -
  from assms(1) obtain d as where d: "dummy c = Some d" and r: "linked (nodes c) d as"
    "list_all2 (holds_entry (nodes c)) as es" by (auto simp: cache_rep_def rep_at_def)
  from linked_head [OF r(1)] obtain dn where "nodes c d = Some dn" "cn_next dn = head as" by blast
  with d cache_find_loop_ok [OF assms(2) r, of dest 0 t cl] show ?thesis by (simp add: cache_find_rr_def)
qed

lemma cache_find_ok:
  assumes "cache_rep c es" and "c_name (Some domain)"
    and "length (spec_find domain t cl es) \<le> length dest"
  shows "cache_find_rr c dest domain t cl =
    ret (int (length (spec_find domain t cl es)),
         spec_find domain t cl es @ drop (length (spec_find domain t cl es)) dest)"
  using assms(3) by (simp add: cache_find_rr_result [OF assms(1,2)])

section \<open>Refreshing\<close>

lemma seg_cong: "\<forall>x \<in> set (p # xs). h' x = h x \<Longrightarrow> seg h' p xs = seg h p xs"
  by (induction xs arbitrary: p) (auto simp: seg_Cons link_def simp del: seg.simps(2))

lemma purge_loop_ok:
  "distinct (q # y # ys) \<Longrightarrow> h q = Some n \<Longrightarrow> h y = Some m \<Longrightarrow> cn_last m = Some q \<Longrightarrow> linked h y ys \<Longrightarrow>
     purge_loop h sz (Some y) =
       ret (\<lambda>x. if x \<in> set (y # ys) then None else if x = q then Some (n\<lparr>cn_next := None\<rparr>) else h x,
            sz - of_nat (length (y # ys)))"
proof (induction ys arbitrary: y h n m sz)
  case Nil
  then have "purge_loop h sz (Some y) = ret ((h(q \<mapsto> n\<lparr>cn_next := None\<rparr>))(y := None), sz - 1)"
    by (subst purge_loop.simps) (auto simp: linked_Nil purge_loop.simps [of _ _ None])
  then show ?case using Nil.prems by (auto simp: fun_eq_iff)
next
  case (Cons z ys)
  then obtain k where z: "cn_next m = Some z" "h z = Some k" "linked h z ys"
    by (auto simp: linked_Cons link_def)
  have ne: "z \<noteq> q" "z \<noteq> y" "q \<noteq> y" "q \<notin> set ys" "y \<notin> set ys" "z \<notin> set ys"
    using Cons.prems(1) by auto
  define g where "g = (h(q \<mapsto> n\<lparr>cn_next := None\<rparr>, z \<mapsto> k\<lparr>cn_last := Some q\<rparr>))(y := None)"
  have g: "g q = Some (n\<lparr>cn_next := None\<rparr>)" "g z = Some (k\<lparr>cn_last := Some q\<rparr>)" "g y = None"
    "\<And>x. x \<notin> {q, y, z} \<Longrightarrow> g x = h x"
    using ne by (simp_all add: g_def)
  have "linked (h(q \<mapsto> n\<lparr>cn_next := None\<rparr>)) z ys" using z(3) ne by (subst linked_frame) auto
  then have "linked (h(q \<mapsto> n\<lparr>cn_next := None\<rparr>, z \<mapsto> k\<lparr>cn_last := Some q\<rparr>)) z ys"
    using z(2) ne by (subst linked_set_last) auto
  then have lk: "linked g z ys" using ne unfolding g_def by (subst linked_frame) auto
  have "purge_loop h sz (Some y) = purge_loop g (sz - 1) (Some z)"
    using Cons.prems z ne by (subst purge_loop.simps) (simp add: g_def)
  also have "\<dots> = ret (\<lambda>x. if x \<in> set (z # ys) then None
      else if x = q then Some (n\<lparr>cn_next := None, cn_next := None\<rparr>) else g x,
      sz - 1 - of_nat (length (z # ys)))"
    using Cons.prems(1) ne lk g
    by (intro Cons.IH [where h = g and m = "k\<lparr>cn_last := Some q\<rparr>"]) simp_all
  also have "\<dots> = ret (\<lambda>x. if x \<in> set (y # z # ys) then None
      else if x = q then Some (n\<lparr>cn_next := None\<rparr>) else h x, sz - of_nat (length (y # z # ys)))"
    using ne g by (auto simp: fun_eq_iff)
  finally show ?case .
qed

lemma rep_remove:
  assumes "rep_at h d (xs @ a # ys) (fs @ e # es)" and "length xs = length fs"
  shows "\<exists>h'. bind_run (unlink h (Some a)) (\<lambda>h1. free_node h1 (Some a)) = ret h' \<and>
    rep_at h' d (xs @ ys) (fs @ es)"
proof -
  have r: "distinct (d # xs @ a # ys)" "dom h = set (d # xs @ a # ys)" "linked h d (xs @ a # ys)"
    "list_all2 (holds_entry h) (xs @ ys) (fs @ es)"
    using assms by (auto simp: rep_at_def list_all2_append)
  from unlink_ok [OF r(1,3)] obtain h1 where
    h1: "unlink h (Some a) = ret h1" "linked h1 d (xs @ ys)" "payload h1 = payload h" "h1 a = h a"
    by blast
  obtain m where m: "h1 a = Some m" using h1(4) r(2) by auto
  have "linked (h1(a := None)) d (xs @ ys)" using h1(2) r(1) by (subst linked_frame) auto
  moreover have "list_all2 (holds_entry (h1(a := None))) (xs @ ys) (fs @ es)"
    using list_all2_payload [OF h1(3) r(4)] r(1) by (subst list_all2_frame) auto
  moreover have "dom (h1(a := None)) = set (d # xs @ ys)"
    using dom_payload [OF h1(3)] r(1,2) by auto
  ultimately show ?thesis using h1(1) m r(1) by (auto simp: rep_at_def)
qed

lemma linked_set_payload:
  assumes "h a = Some n" and "cn_next n' = cn_next n" and "cn_last n' = cn_last n"
  shows "linked (h(a \<mapsto> n')) p xs = linked h p xs"
proof -
  have l: "link (h(a \<mapsto> n')) p b = link h p b" for p b using assms by (auto simp: link_def)
  then have "seg (h(a \<mapsto> n')) p xs = seg h p xs" for p
    by (induction xs arbitrary: p) (simp_all add: seg_Cons del: seg.simps(2))
  then show ?thesis using assms by (auto simp: linked_def)
qed

lemma wf_rr_ttl: "wf_rr (rr\<lparr>ttl := t\<rparr>) = wf_rr rr"
  by (simp add: wf_rr_def split: option.splits)

lemma rep_age:
  assumes "rep_at h d (xs @ a # ys) (fs @ e # es)" and "length xs = length fs"
  shows "\<exists>h'. upd_node (set_ttl (word_of_int (snd e - now))) h (Some a) = ret h' \<and>
    rep_at h' d ((xs @ [a]) @ ys) ((fs @ [age_entry now e]) @ es)"
proof -
  have r: "distinct (d # xs @ a # ys)" "dom h = set (d # xs @ a # ys)" "linked h d (xs @ a # ys)"
    "list_all2 (holds_entry h) xs fs" "holds_entry h a e" "list_all2 (holds_entry h) ys es"
    using assms by (auto simp: rep_at_def list_all2_append)
  from r(5) obtain n where n: "h a = Some n" "element n = Some (fst e)" "expire_time n = snd e"
    "wf_rr (fst e)" by (rule holds_entryE)
  let ?n = "set_ttl (word_of_int (snd e - now)) n"
  have "linked (h(a \<mapsto> ?n)) d (xs @ a # ys)"
    using r(3) n(1) by (subst linked_set_payload) (auto simp: set_ttl_def)
  moreover have "list_all2 (holds_entry (h(a \<mapsto> ?n))) xs fs" "list_all2 (holds_entry (h(a \<mapsto> ?n))) ys es"
    using r(1,4,6) by (simp_all add: list_all2_frame)
  moreover have "holds_entry (h(a \<mapsto> ?n)) a (age_entry now e)"
    using n by (simp add: holds_entry_def set_ttl_def age_entry_def wf_rr_ttl)
  ultimately show ?thesis
    using n(1) r(1,2) assms(2) by (auto simp: upd_node_def rep_at_def list_all2_append)
qed

lemma rep_purge:
  assumes "rep_at h d (xs @ [a] @ ys) (fs @ es)" and "length fs = Suc (length xs)"
  shows "\<exists>h'. purge_loop h (of_nat (length (xs @ [a] @ ys))) (head ys) =
      ret (h', of_nat (length fs)) \<and> rep_at h' d (xs @ [a]) fs"
proof -
  have r: "distinct (d # xs @ a # ys)" "dom h = set (d # xs @ a # ys)" "linked h d (xs @ a # ys)"
    "list_all2 (holds_entry h) (xs @ [a]) fs" "list_all2 (holds_entry h) ys es"
    using assms list_all2_append [of "xs @ [a]" fs "holds_entry h" ys es] by (auto simp: rep_at_def)
  show ?thesis
  proof (cases ys)
    case Nil
    with r assms(2) show ?thesis
      by (auto simp: rep_at_def purge_loop.simps [of _ _ None])
  next
    case (Cons y zs)
    from r(3) have s: "seg h d (xs @ [a])" "linked h a ys"
      by (auto simp: linked_append seg_append seg_Cons simp del: seg.simps(2))
    from s(2) Cons obtain n m where n: "h a = Some n" and m: "h y = Some m" "cn_last m = Some a" "linked h y zs"
      by (auto simp: linked_Cons link_def)
    define g where "g = (\<lambda>x. if x \<in> set (y # zs) then None
      else if x = a then Some (n\<lparr>cn_next := None\<rparr>) else h x)"
    have g: "g a = Some (n\<lparr>cn_next := None\<rparr>)" "\<And>x. x \<notin> set ys \<Longrightarrow> x \<noteq> a \<Longrightarrow> g x = h x"
      "\<And>x. x \<in> set ys \<Longrightarrow> g x = None"
      using r(1) Cons by (auto simp: g_def)
    have "purge_loop h (of_nat (length (xs @ [a] @ ys))) (head ys) = ret (g, of_nat (length fs))"
      using purge_loop_ok [of a y zs h n m] r(1) n m Cons assms(2) by (simp add: g_def)
    moreover have "seg (h(last (d # xs @ [a]) \<mapsto> n\<lparr>cn_next := None\<rparr>)) d (xs @ [a])"
      using s(1) n r(1) by (subst seg_set_end) auto
    then have "seg g d (xs @ [a])"
      using g r(1) by (subst seg_cong [where h = "h(a \<mapsto> n\<lparr>cn_next := None\<rparr>)"]) auto
    then have "linked g d (xs @ [a])" using g(1) by (simp add: linked_def)
    moreover have "list_all2 (holds_entry g) (xs @ [a]) fs"
    proof (rule list.rel_mono_strong [OF r(4)])
      fix x f assume x: "x \<in> set (xs @ [a])" "holds_entry h x f"
      with r(1) have "x \<noteq> a \<Longrightarrow> g x = h x" by (intro g(2)) auto
      with x(2) g(1) n show "holds_entry g x f" by (cases "x = a") (auto simp: holds_entry_def)
    qed
    moreover have "x \<in> dom g \<longleftrightarrow> x \<in> set (d # xs @ [a])" for x
      using g(1) g(2,3) [of x] r(1) n arg_cong [OF r(2), of "\<lambda>A. x \<in> A"]
      by (cases "x \<in> set ys"; cases "x = a") (auto simp: domIff)
    then have "dom g = set (d # xs @ [a])" by blast
    ultimately show ?thesis using r(1) by (auto simp: rep_at_def)
  qed
qed

lemma refresh_loop_ok:
  "rep_at h d (xs @ ys) (fs @ es) \<Longrightarrow> length fs = length xs \<Longrightarrow> length xs < 256 \<Longrightarrow>
     \<exists>h' as. refresh_loop h (of_nat (length (xs @ ys))) (of_nat (length xs)) (head ys) now =
         ret (h', of_nat (length as)) \<and>
       rep_at h' d as (take 256 (fs @ map (age_entry now) (filter (\<lambda>e. now < snd e) es)))"
proof (induction ys arbitrary: xs fs es h)
  case Nil
  then have "es = []" by (auto simp: rep_at_def dest!: list_all2_lengthD)
  with Nil show ?case by (auto simp: refresh_loop.simps [of _ _ _ None])
next
  case (Cons a ys)
  have len: "length (xs @ a # ys) = length (fs @ es)"
    using Cons.prems(1) by (auto simp: rep_at_def dest: list_all2_lengthD)
  then obtain e es' where es: "es = e # es'" using Cons.prems(2) by (cases es) auto
  have r: "holds_entry h a e" "linked h a ys"
    using Cons.prems(1,2) es by (auto simp: rep_at_def list_all2_append linked_append)
  from r(1) obtain n where n: "h a = Some n" "element n = Some (fst e)" "expire_time n = snd e"
    by (rule holds_entryE)
  have nx: "cn_next n = head ys" using linked_head [OF r(2)] n(1) by simp
  have cnt: "of_nat (length xs) \<noteq> (256 :: u32)"
    using Cons.prems(3) u32_of_nat_eq [of "length xs" 256] by simp
  show ?case
  proof (cases "snd e \<le> now")
    case True
    from rep_remove [of h d xs a ys fs e es'] Cons.prems es obtain h' where
      h': "bind_run (unlink h (Some a)) (\<lambda>h1. free_node h1 (Some a)) = ret h'" "rep_at h' d (xs @ ys) (fs @ es')"
      by auto
    then obtain h1 where "unlink h (Some a) = ret h1" "free_node h1 (Some a) = ret h'" by auto
    then have "refresh_loop h (of_nat (length (xs @ a # ys))) (of_nat (length xs)) (head (a # ys)) now =
        refresh_loop h' (of_nat (length (xs @ ys))) (of_nat (length xs)) (head ys) now"
      using True n nx cnt by (subst refresh_loop.simps) simp
    with Cons.IH [OF h'(2) Cons.prems(2,3)] es True show ?thesis by simp
  next
    case False
    from rep_age [of h d xs a ys fs e es' now] Cons.prems es obtain h' where
      h': "upd_node (set_ttl (word_of_int (snd e - now))) h (Some a) = ret h'"
        "rep_at h' d ((xs @ [a]) @ ys) ((fs @ [age_entry now e]) @ es')"
      by auto
    define sz :: u32 where "sz = of_nat (length (xs @ a # ys))"
    have step: "refresh_loop h sz (of_nat (length xs)) (head (a # ys)) now =
        (if of_nat (Suc (length xs)) = (256 :: u32) then purge_loop h' sz (head ys)
         else refresh_loop h' sz (of_nat (Suc (length xs))) (head ys) now)"
      using False n nx h'(1) by (subst refresh_loop.simps) (simp add: add.commute)
    show ?thesis
    proof (cases "Suc (length xs) = 256")
      case True
      then have "of_nat (Suc (length xs)) = (256 :: u32)" by (simp only: of_nat_numeral)
      moreover have "rep_at h' d (xs @ [a] @ ys) ((fs @ [age_entry now e]) @ es')" using h'(2) by simp
      moreover have "take 256 (fs @ age_entry now e # zs) = fs @ [age_entry now e]" for zs
        using True Cons.prems(2) by simp
      ultimately obtain h'' where
        "refresh_loop h sz (of_nat (length xs)) (head (a # ys)) now = ret (h'', of_nat (length (xs @ [a])))"
        "rep_at h'' d (xs @ [a]) (take 256 (fs @ map (age_entry now) (filter (\<lambda>e. now < snd e) es)))"
        using rep_purge [of h' d xs a ys "fs @ [age_entry now e]" es'] step False es Cons.prems(2)
        by (auto simp: sz_def)
      then show ?thesis unfolding sz_def by blast
    next
      case False2: False
      have "of_nat (Suc (length xs)) \<noteq> (256 :: u32)"
        using Cons.prems(3) False2 u32_of_nat_eq [of "Suc (length xs)" 256] by simp
      then show ?thesis
        using Cons.IH [OF h'(2)] step False False2 es Cons.prems by (simp add: sz_def)
    qed
  qed
qed

lemma refresh_cache_ok:
  assumes "cache_rep c es"
  shows "\<exists>c'. refresh_cache c now = ret c' \<and> cache_rep c' (spec_refresh now es)"
proof -
  from assms obtain d as where d: "dummy c = Some d" and r: "rep_at (nodes c) d ([] @ as) ([] @ es)"
    and sz: "cache_size c = of_nat (length es)" by (auto simp: cache_rep_def)
  have len: "length as = length es" using r by (auto simp: rep_at_def dest: list_all2_lengthD)
  from r have "linked (nodes c) d as" by (simp add: rep_at_def)
  from linked_head [OF this] obtain dn where dn: "nodes c d = Some dn" "cn_next dn = head as" by blast
  from refresh_loop_ok [OF r, of now] obtain h' as' where
    h': "refresh_loop (nodes c) (of_nat (length as)) 0 (head as) now = ret (h', of_nat (length as'))"
      "rep_at h' d as' (spec_refresh now es)"
    by (auto simp: spec_refresh_def)
  moreover have "length as' = length (spec_refresh now es)"
    using h'(2) by (auto simp: rep_at_def dest: list_all2_lengthD)
  ultimately show ?thesis using d dn sz len by (auto simp: refresh_cache_def cache_rep_def)
qed

section \<open>What the cache promises to its clients\<close>

lemma split_entry_same: "split_entry rr es = Some (xs, e, ys) \<Longrightarrow> same_rr (fst e) rr"
  by (induction es arbitrary: xs) (auto split: if_splits)

lemma split_entry_None: "split_entry rr es = None \<longleftrightarrow> (\<forall>e \<in> set es. \<not> same_rr (fst e) rr)"
  by (induction es) auto

lemma spec_put_first: "\<exists>e es'. spec_put now rr es = e # es' \<and> same_rr (fst e) rr"
proof (cases "split_entry rr es")
  case None
  then show ?thesis by (simp add: spec_put_def same_rr_def)
next
  case (Some t)
  then show ?thesis by (cases t) (simp add: spec_put_def split_entry_same)
qed

lemma spec_put_known:
  "\<exists>e \<in> set es. same_rr (fst e) rr \<Longrightarrow> mset (spec_put now rr es) = mset es"
  using split_entry_None [of rr es]
  by (cases "split_entry rr es") (auto simp: spec_put_def dest!: split_entry_Some)

lemma spec_refresh_bounds:
  "length (spec_refresh now es) \<le> 256 \<and> (\<forall>e \<in> set (spec_refresh now es). now < snd e)"
  by (auto simp: spec_refresh_def age_entry_def dest!: in_set_takeD)

locale record_cache =
  fixes find :: "'c \<Rightarrow> resource_record list \<Rightarrow> mem \<Rightarrow> u16 \<Rightarrow> u16 \<Rightarrow> (int \<times> resource_record list) run"
    and put :: "'c \<Rightarrow> addr \<Rightarrow> int \<Rightarrow> resource_record \<Rightarrow> (int \<times> 'c) run"
    and refresh :: "'c \<Rightarrow> int \<Rightarrow> 'c run"
    and rep :: "'c \<Rightarrow> entry list \<Rightarrow> bool"
    and unused :: "'c \<Rightarrow> addr \<Rightarrow> bool"
  assumes put_law: "rep c es \<Longrightarrow> wf_rr rr \<Longrightarrow> unused c a \<Longrightarrow>
      \<exists>c'. put c a now rr = ret (1, c') \<and> rep c' (spec_put now rr es)"
    and find_law: "rep c es \<Longrightarrow> c_name (Some domain) \<Longrightarrow>
      length (spec_find domain t cl es) \<le> length dest \<Longrightarrow>
      find c dest domain t cl = ret (int (length (spec_find domain t cl es)),
        spec_find domain t cl es @ drop (length (spec_find domain t cl es)) dest)"
    and refresh_law: "rep c es \<Longrightarrow> \<exists>c'. refresh c now = ret c' \<and> rep c' (spec_refresh now es)"
begin

text \<open>Any sequence of operations follows the abstract cache.\<close>

lemma run_cache_refines:
  assumes "\<And>c es. rep c es \<Longrightarrow> unused c (alloc c)"
  shows "rep c es \<Longrightarrow> wf_ops ops \<Longrightarrow>
    \<exists>c'. run_cache put refresh alloc c ops = ret c' \<and> rep c' (run_spec es ops)"
proof (induction ops arbitrary: c es)
  case Nil
  then show ?case by simp
next
  case (Cons oper ops)
  show ?case
  proof (cases oper)
    case (Put now rr)
    with Cons.prems put_law [of c es rr "alloc c" now] assms obtain c' where
      "put c (alloc c) now rr = ret (1, c')" "rep c' (spec_put now rr es)" by auto
    with Cons.IH [of c' "spec_put now rr es"] Cons.prems Put show ?thesis by auto
  next
    case (Refresh now)
    with Cons.prems refresh_law obtain c' where "refresh c now = ret c'" "rep c' (spec_refresh now es)"
      by blast
    with Cons.IH [of c' "spec_refresh now es"] Cons.prems Refresh show ?thesis by auto
  qed
qed

text \<open>A record that was put is found first.\<close>

lemma put_then_find:
  assumes "rep c es" and "wf_rr rr" and "unused c a" and "rr_name rr = Some domain"
    and "length (spec_find domain (rr_type rr) (rr_class rr) (spec_put now rr es)) \<le> length dest"
  shows "\<exists>c' n x xs. put c a now rr = ret (1, c') \<and>
    find c' dest domain (rr_type rr) (rr_class rr) = ret (n, x # xs) \<and> 0 < n \<and> same_rr x rr"
proof -
  from put_law [OF assms(1-3)] obtain c' where c': "put c a now rr = ret (1, c')"
    "rep c' (spec_put now rr es)" by blast
  obtain e es' where e: "spec_put now rr es = e # es'" "same_rr (fst e) rr"
    using spec_put_first by blast
  then have "matches domain (rr_type rr) (rr_class rr) (fst e)"
    using assms(4) by (simp add: matches_def same_rr_def)
  then have "spec_find domain (rr_type rr) (rr_class rr) (spec_put now rr es) =
      fst e # spec_find domain (rr_type rr) (rr_class rr) es'"
    by (simp add: e(1) spec_find_def)
  moreover have "c_name (Some domain)" using assms(2,4) by (simp add: wf_rr_def)
  ultimately show ?thesis
    using c' e(2) find_law [OF c'(2) _ assms(5)] by auto
qed

end

interpretation rc: record_cache cache_find_rr cache_put_rr refresh_cache cache_rep
    "\<lambda>c a. nodes c a = None"
proof unfold_locales
  show "\<exists>c'. cache_put_rr c a now rr = ret (1, c') \<and> cache_rep c' (spec_put now rr es)"
    if "cache_rep c es" "wf_rr rr" "nodes c a = None" for c es rr a now
    using cache_put_ok [OF that] by blast
qed (rule cache_find_ok refresh_cache_ok; assumption)+

section \<open>Properties\<close>

text \<open>C12: any sequence of puts and refreshes on the initialised cache runs without touching a null or
  freed node, terminates, and leaves a well-formed doubly linked list (with nothing leaked and
  a correct size) that holds exactly the entries of the abstract cache in its order. The address
  of each new node may be anything that is not in use.\<close>

theorem cache_refines_lru:
  assumes "\<forall>c. finite (dom (nodes c)) \<longrightarrow> nodes c (alloc c) = None" and "wf_ops ops"
  shows "\<exists>c. bind_run (init_cache a now) (\<lambda>c. run_cache cache_put_rr refresh_cache alloc c ops) = ret c \<and>
    cache_rep c (run_spec [] ops)"
proof -
  have "nodes c (alloc c) = None" if "cache_rep c es" for c es
  proof -
    have "finite (dom (nodes c))" using that by (auto simp: cache_rep_def rep_at_def)
    with assms(1) show ?thesis by blast
  qed
  moreover obtain c0 where "init_cache a now = ret c0" "cache_rep c0 []" using init_cache_ok by blast
  ultimately show ?thesis using rc.run_cache_refines [of alloc c0 "[]" ops] assms(2) by auto
qed

theorem cache_refines_lru_witness:
  "\<exists>c. bind_run (init_cache 0 100) (\<lambda>c. run_cache cache_put_rr refresh_cache
       (\<lambda>c. Suc (Max (dom (nodes c)))) c [Put 100 sample_rr, Refresh 110]) = ret c \<and>
     cache_rep c [(sample_rr\<lparr>ttl := 50\<rparr>, 160)]"
proof -
  have "\<forall>c. finite (dom (nodes c)) \<longrightarrow> nodes c (Suc (Max (dom (nodes c)))) = None"
    by (metis Max_ge Suc_n_not_le_n domIff)
  moreover have "run_spec [] [Put 100 sample_rr, Refresh 110] = [(sample_rr\<lparr>ttl := 50\<rparr>, 160)]"
    by (simp add: spec_put_def spec_refresh_def age_entry_def sample_rr_def)
  ultimately show ?thesis
    using cache_refines_lru [of "\<lambda>c. Suc (Max (dom (nodes c)))" "[Put 100 sample_rr, Refresh 110]" 0 100]
      wf_sample_rr by simp
qed

text \<open>C25: \<^verbatim>\<open>cache_find_rr\<close> copies, in list order, exactly the records with the wanted name, type and
  class to the front of the destination array and returns their number; with more records than the array has
  room for, it writes past the end of the array.\<close>

theorem cache_find_returns_matches:
  assumes "cache_rep c es" and "c_name (Some domain)"
  shows "cache_find_rr c dest domain t cl =
    (if length (spec_find domain t cl es) \<le> length dest then
       ret (int (length (spec_find domain t cl es)),
         spec_find domain t cl es @ drop (length (spec_find domain t cl es)) dest)
     else fail OutOfBounds)"
  using assms by (rule cache_find_rr_result)

lemma sample_cache: "\<exists>c. cache_rep c [(sample_rr, 160)] \<and> nodes c 2 = None"
proof -
  obtain c where c: "init_cache 0 100 = ret c" "cache_rep c []" using init_cache_ok by blast
  have "nodes c 1 = None" using c(1) by (auto simp: init_cache_def create_cache_node_def)
  with cache_put_ok [OF c(2) wf_sample_rr, of 1 100] obtain c' where
    put: "cache_put_rr c 1 100 sample_rr = ret (1, c')" "cache_rep c' (spec_put 100 sample_rr [])"
    by blast
  moreover have "nodes c' 2 = None"
    using put(1) c(1) rr_copy_wf [OF wf_sample_rr]
    by (auto simp: init_cache_def create_cache_node_def cache_put_rr_def cache_match_ln_def
        cache_match_loop.simps [of _ None] Let_def)
  moreover have "spec_put 100 sample_rr [] = [(sample_rr, 160)]" by (simp add: spec_put_def sample_rr_def)
  ultimately show ?thesis by auto
qed

theorem cache_find_returns_matches_witness:
  "\<exists>c. cache_rep c [(sample_rr, 160)] \<and>
     cache_find_rr c [zero_rr, zero_rr] [1, 97, 0] 1 1 = ret (1, [sample_rr, zero_rr]) \<and>
     cache_find_rr c [] [1, 97, 0] 1 1 = fail OutOfBounds"
proof -
  obtain c where c: "cache_rep c [(sample_rr, 160)]" using sample_cache by blast
  have "c_name (Some [1, 97, 0])" by (simp add: c_name_def)
  moreover have "spec_find [1, 97, 0] 1 1 [(sample_rr, 160)] = [sample_rr]"
    by (simp add: spec_find_def matches_def sample_rr_def)
  ultimately show ?thesis using c cache_find_returns_matches [OF c, of "[1, 97, 0]" _ 1 1] by auto
qed

text \<open>A record that was just put is found by its name, type and class, at the first position.\<close>

lemma cache_put_then_find:
  assumes "cache_rep c es" and "wf_rr rr" and "nodes c a = None" and "rr_name rr = Some domain"
    and "length (spec_find domain (rr_type rr) (rr_class rr) (spec_put now rr es)) \<le> length dest"
  shows "\<exists>c' n x xs. cache_put_rr c a now rr = ret (1, c') \<and>
    cache_find_rr c' dest domain (rr_type rr) (rr_class rr) = ret (n, x # xs) \<and> 0 < n \<and> same_rr x rr"
  using assms by (rule rc.put_then_find)

lemma cache_put_then_find_witness:
  "\<exists>c c' n x xs. cache_rep c [(sample_rr, 160)] \<and>
     cache_put_rr c 2 120 (sample_rr\<lparr>rr_class := 3\<rparr>) = ret (1, c') \<and>
     cache_find_rr c' [zero_rr] [1, 97, 0] 1 3 = ret (n, x # xs) \<and> 0 < n"
proof -
  let ?rr = "sample_rr\<lparr>rr_class := 3\<rparr>"
  obtain c where c: "cache_rep c [(sample_rr, 160)]" "nodes c 2 = None" using sample_cache by blast
  have "wf_rr ?rr" by (simp add: sample_simps)
  moreover have "spec_find [1, 97, 0] 1 3 (spec_put 120 ?rr [(sample_rr, 160)]) = [?rr]"
    by (simp add: spec_find_def spec_put_def same_rr_def matches_def sample_rr_def)
  ultimately show ?thesis
    using cache_put_then_find [OF c(1) _ c(2), of ?rr "[1, 97, 0]" 120 "[zero_rr]"] c(1)
    by (auto simp: sample_rr_def)
qed

text \<open>C24: after a refresh at second \<open>now\<close> no record of the cache has expired, each shows the seconds it
  has left, at most 256 records remain, and those kept are the first live ones in list order.\<close>

theorem refresh_cache_expires:
  assumes "cache_rep c es"
  shows "\<exists>c' es'. refresh_cache c now = ret c' \<and> cache_rep c' es' \<and> length es' \<le> 256 \<and>
    (\<forall>e \<in> set es'. now < snd e \<and> ttl (fst e) = word_of_int (snd e - now)) \<and>
    es' = take 256 (map (age_entry now) (filter (\<lambda>e. now < snd e) es))"
proof -
  obtain c' where "refresh_cache c now = ret c'" "cache_rep c' (spec_refresh now es)"
    using refresh_cache_ok [OF assms] by blast
  moreover have "\<forall>e \<in> set (spec_refresh now es). ttl (fst e) = word_of_int (snd e - now)"
    by (auto simp: spec_refresh_def age_entry_def dest!: in_set_takeD)
  ultimately show ?thesis
    using spec_refresh_bounds [of now es] spec_refresh_def [of now es] by blast
qed

theorem refresh_cache_expires_witness:
  "\<exists>c c'. cache_rep c [(sample_rr, 160)] \<and> refresh_cache c 160 = ret c' \<and> cache_rep c' []"
proof -
  obtain c where "cache_rep c [(sample_rr, 160)]" using sample_cache by blast
  with refresh_cache_expires [OF this, of 160] show ?thesis by auto
qed

text \<open>Putting a record that \<^verbatim>\<open>rr_cmp\<close> takes for a cached one changes only the order: the old record
  and its old expiry time stay, also when the new one has a later expiry or other record data
  (an address that differs behind a zero byte).\<close>

lemma cache_put_known_ignored:
  assumes "cache_rep c es" and "wf_rr rr" and "nodes c a = None" and "\<exists>e \<in> set es. same_rr (fst e) rr"
  shows "\<exists>c' es'. cache_put_rr c a now rr = ret (1, c') \<and> cache_rep c' es' \<and> mset es' = mset es"
  using cache_put_ok [OF assms(1-3), of now] spec_put_known [OF assms(4), of now] by blast

lemma cache_put_known_ignored_witness:
  "\<exists>c c'. cache_rep c [(sample_rr, 160)] \<and>
     cache_put_rr c 2 150 (sample_rr\<lparr>rdata := Some [10, 0, 0, 2]\<rparr>) = ret (1, c') \<and>
     cache_rep c' [(sample_rr, 160)]"
proof -
  let ?rr = "sample_rr\<lparr>rdata := Some [10, 0, 0, 2]\<rparr>"
  obtain c where c: "cache_rep c [(sample_rr, 160)]" "nodes c 2 = None" using sample_cache by blast
  have rr: "wf_rr ?rr" "same_rr sample_rr ?rr" by (simp_all add: sample_simps same_rr_def upto_nul_def)
  from rr(2) have "\<exists>e \<in> set [(sample_rr, 160)]. same_rr (fst e) ?rr" by simp
  from cache_put_known_ignored [OF c(1) rr(1) c(2) this, of 150] obtain c' es' where
    put: "cache_put_rr c 2 150 ?rr = ret (1, c')" "cache_rep c' es'" "mset es' = mset [(sample_rr, 160)]"
    by blast
  from put(3) have "es' = [(sample_rr, 160)]" by simp
  with c(1) put(1,2) show ?thesis by blast
qed

end
