(* ===== verification/Trees.thy ===== *)
theory Trees
  imports Message_Props
begin

text \<open>
  The bucket tree (\<^verbatim>\<open>storage/trees.h\<close>, \<^verbatim>\<open>storage/trees.c\<close>): a tree over reversed domain names whose
  nodes keep their children in a linked list and switch to 1024 hash buckets when more than 32
  children are inserted. The tree owns its nodes and no node is shared, so it is a value: a pointer
  to a node inside it is the place of that node, and an update through the pointer is an update at that
  place.
\<close>

section \<open>Structures\<close>

abbreviation (input) HASH_BUCKET_SIZE :: nat where "HASH_BUCKET_SIZE \<equiv> 1024"
abbreviation (input) HASH_SWITCH_THRESHOLD :: u32 where "HASH_SWITCH_THRESHOLD \<equiv> 32"
abbreviation (input) SUBDOMAIN_MAX :: nat where "SUBDOMAIN_MAX \<equiv> 50"
abbreviation (input) RR_ARR_LEN :: nat where "RR_ARR_LEN \<equiv> 3"
abbreviation (input) RR_CNT_MAX :: nat where "RR_CNT_MAX \<equiv> 4"
abbreviation (input) RR_ARR_A :: nat where "RR_ARR_A \<equiv> 0"
abbreviation (input) RR_ARR_CNAME :: nat where "RR_ARR_CNAME \<equiv> 1"
abbreviation (input) RR_ARR_AAAA :: nat where "RR_ARR_AAAA \<equiv> 2"

datatype linked_node =
  Linked_node (domain: mem) (data: "resource_record option list list") (data_cnt: "u32 list")
    (child: "tree_node option")
and tree_node = Tree_node (tn_size: u32) (container: tn_container)
and tn_container = LINKED_LIST "linked_node list" | HASH_BUCKET "linked_node list list"

type_synonym hash_function = "mem \<Rightarrow> ptr \<Rightarrow> u32 run"

record bucket_tree =
  root :: tree_node
  hash_fun :: hash_function

fun set_child :: "linked_node \<Rightarrow> tree_node \<Rightarrow> linked_node" where
  "set_child (Linked_node dm dt ct ch) t = Linked_node dm dt ct (Some t)"

fun set_domain :: "linked_node \<Rightarrow> mem \<Rightarrow> linked_node" where
  "set_domain (Linked_node dm dt ct ch) dm' = Linked_node dm' dt ct ch"

section \<open>Creating and hashing\<close>

definition create_tree_node :: tree_node where
  "create_tree_node = Tree_node 0 (LINKED_LIST [])"

definition create_linked_node :: linked_node where
  "create_linked_node = Linked_node (replicate SUBDOMAIN_MAX 0)
     (replicate RR_ARR_LEN (replicate RR_CNT_MAX None)) (replicate RR_ARR_LEN 0) None"

definition bkdr :: "byte list \<Rightarrow> u32" where
  "bkdr bs = foldl (\<lambda>hsh b. hsh * 131 + ucast b) 0 bs"

text \<open>The loop starts at the length byte, so the last byte of the label is not hashed.\<close>

definition rr_hash :: "mem \<Rightarrow> ptr \<Rightarrow> u32 run" where
  "rr_hash m p =
     bind_run (rd8 m p) (\<lambda>n. bind_run (rd_bytes m p (unat n)) (\<lambda>bs. ret (bkdr bs)))"

definition bucket_index :: "u32 \<Rightarrow> nat" where
  "bucket_index h = unat (h mod of_nat HASH_BUCKET_SIZE)"

definition tree_init :: "hash_function \<Rightarrow> bucket_tree" where
  "tree_init hf = \<lparr>root = create_tree_node, hash_fun = hf\<rparr>"

section \<open>Finding and inserting a child\<close>

text \<open>The index of the first node whose label equals the one at \<open>p\<close>.\<close>

fun ll_find :: "linked_node list \<Rightarrow> mem \<Rightarrow> ptr \<Rightarrow> nat option run" where
  "ll_find [] m p = ret None"
| "ll_find (x # xs) m p =
     bind_run (rd8 m p) (\<lambda>n.
     bind_run (strncmp (drop (nat p) m) (domain x) (unat n + 1)) (\<lambda>c.
     if c = 0 then ret (Some 0)
     else bind_run (ll_find xs m p) (\<lambda>r. ret (map_option Suc r))))"

datatype loc = In_list nat | In_bucket nat nat

definition hash_ll_find :: "linked_node list list \<Rightarrow> mem \<Rightarrow> ptr \<Rightarrow> loc option run" where
  "hash_ll_find bucket m p =
     bind_run (rr_hash m p) (\<lambda>h.
     let index = bucket_index h in
     if length bucket \<le> index then fail OutOfBounds
     else bind_run (ll_find (bucket ! index) m p) (\<lambda>r. ret (map_option (In_bucket index) r)))"

definition tree_node_find :: "tree_node \<Rightarrow> mem \<Rightarrow> ptr \<Rightarrow> loc option run" where
  "tree_node_find tn m p = (case container tn of
       LINKED_LIST ns \<Rightarrow> bind_run (ll_find ns m p) (\<lambda>r. ret (map_option In_list r))
     | HASH_BUCKET bs \<Rightarrow> hash_ll_find bs m p)"

text \<open>Reading and writing through a pointer into the node.\<close>

fun get_at :: "tree_node \<Rightarrow> loc \<Rightarrow> linked_node option" where
  "get_at (Tree_node sz (LINKED_LIST ns)) (In_list i) = (if i < length ns then Some (ns ! i) else None)"
| "get_at (Tree_node sz (HASH_BUCKET bs)) (In_bucket b i) =
     (if b < length bs \<and> i < length (bs ! b) then Some (bs ! b ! i) else None)"
| "get_at tn l = None"

fun put_at :: "tree_node \<Rightarrow> loc \<Rightarrow> linked_node \<Rightarrow> tree_node" where
  "put_at (Tree_node sz (LINKED_LIST ns)) (In_list i) x = Tree_node sz (LINKED_LIST (ns[i := x]))"
| "put_at (Tree_node sz (HASH_BUCKET bs)) (In_bucket b i) x =
     Tree_node sz (HASH_BUCKET (bs[b := (bs ! b)[i := x]]))"
| "put_at tn l x = tn"

text \<open>Moving all nodes of the list into the buckets, each to the front of its bucket.\<close>

fun rehash :: "hash_function \<Rightarrow> linked_node list \<Rightarrow> linked_node list list \<Rightarrow> linked_node list list run" where
  "rehash hf [] bs = ret bs"
| "rehash hf (x # xs) bs =
     bind_run (hf (domain x) 0) (\<lambda>h.
     let index = bucket_index h in
     if length bs \<le> index then fail OutOfBounds
     else rehash hf xs (bs[index := x # bs ! index]))"

text \<open>
  The result also gives the place of the new node: it is the first that is moved, so it ends up at the
  end of its bucket.
\<close>

definition tree_node_insert :: "tree_node \<Rightarrow> mem \<Rightarrow> ptr \<Rightarrow> hash_function \<Rightarrow> (tree_node \<times> loc) run" where
  "tree_node_insert tn m p hf =
     bind_run (rd8 m p) (\<lambda>n.
     bind_run (rd_bytes m p (unat n + 1)) (\<lambda>lab.
     bind_run (wr_bytes (domain create_linked_node) 0 lab) (\<lambda>dom.
     let new_node = set_domain create_linked_node dom; sz = tn_size tn + 1 in
     case container tn of
       HASH_BUCKET bs \<Rightarrow>
         bind_run (hf m p) (\<lambda>h.
         let index = bucket_index h in
         if length bs \<le> index then fail OutOfBounds
         else ret (Tree_node sz (HASH_BUCKET (bs[index := new_node # bs ! index])), In_bucket index 0))
     | LINKED_LIST ns \<Rightarrow>
         if sz > HASH_SWITCH_THRESHOLD then
           bind_run (rehash hf (new_node # ns) (replicate HASH_BUCKET_SIZE [])) (\<lambda>bs.
           bind_run (hf (domain new_node) 0) (\<lambda>h.
           let index = bucket_index h in
           ret (Tree_node sz (HASH_BUCKET bs), In_bucket index (length (bs ! index) - 1))))
         else ret (Tree_node sz (LINKED_LIST (new_node # ns)), In_list 0))))"

section \<open>Inserting and searching records\<close>

definition element_index :: "u16 \<Rightarrow> nat option" where
  "element_index t =
     (if t = RRTYPE_A then Some RR_ARR_A
      else if t = RRTYPE_CNAME then Some RR_ARR_CNAME
      else if t = RRTYPE_AAAA then Some RR_ARR_AAAA
      else None)"

text \<open>\<^verbatim>\<open>data[e][data_cnt[e]++] = rr\<close>\<close>

definition append_record :: "linked_node \<Rightarrow> nat \<Rightarrow> resource_record \<Rightarrow> linked_node run" where
  "append_record ln e rr =
     (let c = unat (data_cnt ln ! e) in
      if e < length (data_cnt ln) \<and> e < length (data ln) \<and> c < length (data ln ! e) then
        ret (Linked_node (domain ln) ((data ln)[e := (data ln ! e)[c := Some rr]])
               ((data_cnt ln)[e := data_cnt ln ! e + 1]) (child ln))
      else fail OutOfBounds)"

text \<open>\<^verbatim>\<open>memcmp(rr->rdata, old->rdata, rr->rdlength) == 0\<close>\<close>

definition rdata_eq :: "resource_record \<Rightarrow> resource_record \<Rightarrow> bool run" where
  "rdata_eq rr old =
     (if rdlength rr = 0 then ret True
      else
        bind_run (deref (rdata rr)) (\<lambda>d1.
        bind_run (deref (rdata old)) (\<lambda>d2.
        memeq d1 d2 (unat (rdlength rr)))))"

fun has_duplicate :: "resource_record \<Rightarrow> resource_record option list \<Rightarrow> nat \<Rightarrow> bool run" where
  "has_duplicate rr xs 0 = ret False"
| "has_duplicate rr [] (Suc k) = fail OutOfBounds"
| "has_duplicate rr (x # xs) (Suc k) =
     bind_run (deref x) (\<lambda>old.
     bind_run (rdata_eq rr old) (\<lambda>same.
     if same then ret True else has_duplicate rr xs k))"

text \<open>The final node was found: check the count and the duplicates, then store the record.\<close>

definition insert_found :: "linked_node \<Rightarrow> mem \<Rightarrow> ptr \<Rightarrow> nat \<Rightarrow> resource_record \<Rightarrow> (int \<times> linked_node) run" where
  "insert_found ln m p e rr =
     (if RR_CNT_MAX \<le> unat (data_cnt ln ! e) then ret (-1, ln)
      else
        bind_run (has_duplicate rr (data ln ! e) (unat (data_cnt ln ! e))) (\<lambda>dup.
        if dup then ret (-1, ln)
        else
          bind_run (append_record ln e rr) (\<lambda>ln1.
          bind_run (rd8 m p) (\<lambda>n.
          bind_run (rd_bytes m p (unat n + 1)) (\<lambda>lab.
          bind_run (wr_bytes (domain ln1) 0 lab) (\<lambda>dom.
          ret (1, set_domain ln1 dom)))))))"

text \<open>
  The loop of \<^verbatim>\<open>tree_insert\<close> at the node \<open>tn\<close>, with the remaining name at \<open>p\<close>: the updated node is put back on
  the way out. When a label is missing, its node is created and the loop tries again at the same node.
\<close>

partial_function (option) insert_loop ::
  "hash_function \<Rightarrow> tree_node \<Rightarrow> mem \<Rightarrow> ptr \<Rightarrow> byte \<Rightarrow> nat \<Rightarrow> resource_record \<Rightarrow> (int \<times> tree_node) run"
where
  "insert_loop hf tn m p next e rr =
     bind_run (rd8 m p) (\<lambda>n.
     if n = 0 then ret (1, tn)
     else
       bind_run (tree_node_find tn m p) (\<lambda>found.
       case found of
         Some l \<Rightarrow>
           bind_run (deref (get_at tn l)) (\<lambda>ln.
           if next = 0 then
             bind_run (insert_found ln m p e rr) (\<lambda>(r, ln'). ret (r, put_at tn l ln'))
           else
             bind_run (rd8 m (p + uint n + 1)) (\<lambda>n'.
             bind_run (rd8 m (p + uint n + 1 + uint n' + 1)) (\<lambda>next'.
             bind_run
               (insert_loop hf (case child ln of None \<Rightarrow> create_tree_node | Some t \<Rightarrow> t) m
                  (p + uint n + 1) next' e rr) (\<lambda>res.
             ret (fst res, put_at tn l (set_child ln (snd res)))))))
       | None \<Rightarrow>
           bind_run (tree_node_insert tn m p hf) (\<lambda>new.
           bind_run (deref (get_at (fst new) (snd new))) (\<lambda>ln.
           if next = 0 then
             bind_run (append_record ln e rr) (\<lambda>ln'. ret (1, put_at (fst new) (snd new) ln'))
           else
             insert_loop hf (put_at (fst new) (snd new) (set_child ln create_tree_node)) m p next e rr))))"

declare insert_loop.simps [code]

definition tree_insert :: "bucket_tree \<Rightarrow> mem \<Rightarrow> resource_record \<Rightarrow> (int \<times> bucket_tree) run" where
  "tree_insert tree rev_domain rr =
     bind_run (rd8 rev_domain 0) (\<lambda>n.
     bind_run (rd8 rev_domain (uint n + 1)) (\<lambda>next.
     case element_index (rr_type rr) of
       None \<Rightarrow> ret (-1, tree)
     | Some e \<Rightarrow>
         bind_run (insert_loop (hash_fun tree) (root tree) rev_domain 0 next e rr) (\<lambda>(r, t).
         ret (r, tree\<lparr>root := t\<rparr>))))"

text \<open>Copying the records of the final node to the start of the array \<open>dest\<close>.\<close>

fun copy_records ::
  "resource_record option list \<Rightarrow> nat \<Rightarrow> resource_record list \<Rightarrow> nat \<Rightarrow> resource_record list run"
where
  "copy_records xs 0 dest i = ret dest"
| "copy_records [] (Suc k) dest i = fail OutOfBounds"
| "copy_records (x # xs) (Suc k) dest i =
     bind_run (deref x) (\<lambda>rr.
     bind_run (rr_copy rr) (\<lambda>(_, cp).
     if length dest \<le> i then fail OutOfBounds
     else copy_records xs k (dest[i := cp]) (Suc i)))"

function search_loop ::
  "tree_node option \<Rightarrow> resource_record list \<Rightarrow> mem \<Rightarrow> ptr \<Rightarrow> byte \<Rightarrow> nat \<Rightarrow> (int \<times> resource_record list) run"
where
  "search_loop tn dest m p next e =
     bind_run (rd8 m p) (\<lambda>n.
     if n = 0 then ret (0, dest)
     else case tn of None \<Rightarrow> ret (0, dest)
     | Some t \<Rightarrow>
         bind_run (tree_node_find t m p) (\<lambda>found.
         case found of None \<Rightarrow> ret (0, dest)
         | Some l \<Rightarrow>
             bind_run (deref (get_at t l)) (\<lambda>ln.
             if next = 0 then
               bind_run (copy_records (data ln ! e) (unat (data_cnt ln ! e)) dest 0) (\<lambda>dest'.
               ret (uint (data_cnt ln ! e), dest'))
             else
               bind_run (rd8 m (p + uint n + 1)) (\<lambda>n'.
               bind_run (rd8 m (p + uint n + 1 + uint n' + 1)) (\<lambda>next'.
               search_loop (child ln) dest m (p + uint n + 1) next' e)))))"
  by pat_completeness auto
termination
proof (relation "measure (\<lambda>(tn, dest, m, p, next, e). nat (int (length m) - p))", goal_cases)
  case (2 tn dest m p "next" e n)
  then have "p < int (length m)" by (auto simp: rd8_def split: if_splits)
  then show ?case by simp
qed simp

declare search_loop.simps [simp del, code]

definition tree_search ::
  "bucket_tree \<Rightarrow> resource_record list \<Rightarrow> mem \<Rightarrow> u16 \<Rightarrow> (int \<times> resource_record list) run"
where
  "tree_search tree dest revdom t =
     (case element_index t of
        None \<Rightarrow> ret (0, dest)
      | Some e \<Rightarrow>
          bind_run (rd8 revdom 0) (\<lambda>n.
          bind_run (rd8 revdom (uint n + 1)) (\<lambda>next.
          search_loop (Some (root tree)) dest revdom 0 next e)))"

end
