(* ===== verification/Trees_Refinement.thy ===== *)
theory Trees_Refinement
  imports Trees "HOL-Library.Multiset"
begin

text \<open>
  The bucket tree implements a finite map from label lists and record kinds to lists of records.
  The first part shows that a node behaves as a map from labels to children in both of its
  representations, also across the switch from the list to the hash buckets; the second lifts this
  to paths of labels.
\<close>

section \<open>Abstraction of a node\<close>

text \<open>Labels the tree can hold: not empty, at most 49 bytes, without a zero byte.\<close>

definition wf_lab :: "label \<Rightarrow> bool" where
  "wf_lab l \<longleftrightarrow> l \<noteq> [] \<and> length l < SUBDOMAIN_MAX \<and> nul_free l"

definition pad :: "label \<Rightarrow> mem" where
  "pad l = enc_label l @ replicate (SUBDOMAIN_MAX - Suc (length l)) 0"

definition kids :: "tree_node \<Rightarrow> linked_node list" where
  "kids tn = (case container tn of LINKED_LIST ns \<Rightarrow> ns | HASH_BUCKET bs \<Rightarrow> concat bs)"

definition kid :: "tree_node \<Rightarrow> label \<Rightarrow> linked_node option" where
  "kid tn l = map_of (map (\<lambda>x. (domain x, x)) (kids tn)) (pad l)"

definition lab_hash :: "label \<Rightarrow> nat" where
  "lab_hash l = bucket_index (bkdr (butlast (enc_label l)))"

definition padded :: "linked_node \<Rightarrow> bool" where
  "padded x \<longleftrightarrow> (\<exists>l. wf_lab l \<and> domain x = pad l)"

definition in_bucket :: "nat \<Rightarrow> linked_node \<Rightarrow> bool" where
  "in_bucket b x \<longleftrightarrow> (\<forall>l. wf_lab l \<longrightarrow> domain x = pad l \<longrightarrow> lab_hash l = b)"

definition buckets_ok :: "linked_node list list \<Rightarrow> bool" where
  "buckets_ok bs \<longleftrightarrow> length bs = HASH_BUCKET_SIZE \<and>
     (\<forall>b < length bs. \<forall>x \<in> set (bs ! b). in_bucket b x)"

definition node_ok :: "tree_node \<Rightarrow> bool" where
  "node_ok tn \<longleftrightarrow> distinct (map domain (kids tn)) \<and> (\<forall>x \<in> set (kids tn). padded x) \<and>
     (case container tn of
        LINKED_LIST ns \<Rightarrow> tn_size tn = of_nat (length ns) \<and> length ns \<le> 32
      | HASH_BUCKET bs \<Rightarrow> buckets_ok bs)"

section \<open>Labels\<close>

lemma wf_lab_wf_label: "wf_lab l \<Longrightarrow> wf_label l"
  by (simp add: wf_lab_def wf_label_def)

lemma length_pad: "wf_lab l \<Longrightarrow> length (pad l) = SUBDOMAIN_MAX"
  by (simp add: pad_def wf_lab_def)

lemma pad_inj: "wf_lab l \<Longrightarrow> pad l' = pad l \<longleftrightarrow> l' = l"
proof
  assume l: "wf_lab l" and eq: "pad l' = pad l"
  then have "length (pad l') = SUBDOMAIN_MAX" by (simp add: length_pad)
  then have l': "length l' < SUBDOMAIN_MAX" by (simp add: pad_def)
  from eq have "(of_nat (length l') :: byte) = of_nat (length l)" by (simp add: pad_def enc_label_def)
  then have "length l' = length l"
    using l l' by (auto dest!: arg_cong [where f = unat] simp: unat_of_nat wf_lab_def)
  with eq show "l' = l" by (simp add: pad_def enc_label_def)
qed simp

lemma nul_free_enc_label: "wf_lab l \<Longrightarrow> nul_free (enc_label l)"
  using length_label_neq_0 [OF wf_lab_wf_label, of l] by (simp add: enc_label_def wf_lab_def)

lemma holds_at_pad: "holds_at (pad l) 0 (enc_label l)"
  using holds_at_self [of "pad l"] unfolding pad_def holds_at_append by simp

lemma holds_label:
  assumes "wf_lab l" and "holds_at m p (enc_label l)"
  shows "rd8 m p = ret (of_nat (length l))" "rd_bytes m p (Suc (length l)) = ret (enc_label l)"
    "unat (of_nat (length l) :: byte) = length l" "\<exists>xs. drop (nat p) m = enc_label l @ xs"
proof -
  show "rd8 m p = ret (of_nat (length l))" using assms(2) by (simp add: enc_label_def)
  show "rd_bytes m p (Suc (length l)) = ret (enc_label l)" using rd_bytes_holds_at [OF assms(2)] by simp
  show "unat (of_nat (length l) :: byte) = length l"
    using unat_length_label [OF wf_lab_wf_label [OF assms(1)]] .
  have "take (length (enc_label l)) (drop (nat p) m) = enc_label l"
    using assms(2) holds_at_iff [of "enc_label l" m p] by (simp add: enc_label_def)
  then show "\<exists>xs. drop (nat p) m = enc_label l @ xs" by (metis append_take_drop_id)
qed

lemma strncmp_pad:
  assumes "wf_lab l" and "wf_lab l'" and "holds_at m p (enc_label l)"
  shows "\<exists>c. strncmp (drop (nat p) m) (pad l') (Suc (length l)) = ret c \<and> (c = 0 \<longleftrightarrow> l' = l)"
proof -
  obtain xs where xs: "drop (nat p) m = enc_label l @ xs" using holds_label(4) [OF assms(1,3)] by blast
  have "length l < SUBDOMAIN_MAX" using assms(1) by (simp add: wf_lab_def)
  then obtain c where c: "strncmp (enc_label l @ xs) (pad l') (Suc (length l)) = ret c"
    "c = 0 \<longleftrightarrow> take (Suc (length l)) (pad l') = enc_label l"
    using strncmp_fixed [OF nul_free_enc_label [OF assms(1)], of "Suc (length l)" "pad l'" xs]
      length_pad [OF assms(2)] by auto
  have "take (Suc (length l)) (pad l') = enc_label l \<longleftrightarrow> l' = l"
  proof
    assume t: "take (Suc (length l)) (pad l') = enc_label l"
    then have "(of_nat (length l') :: byte) = of_nat (length l)" by (simp add: pad_def enc_label_def)
    then have "length l' = length l"
      using assms by (auto dest!: arg_cong [where f = unat] simp: unat_of_nat wf_lab_def)
    with t show "l' = l" by (simp add: pad_def enc_label_def)
  qed (simp add: pad_def)
  with c xs show ?thesis by auto
qed

lemma rr_hash_label:
  assumes "wf_lab l" and "holds_at m p (enc_label l)"
  shows "rr_hash m p = ret (bkdr (butlast (enc_label l)))"
proof -
  have "l \<noteq> []" using assms(1) by (simp add: wf_lab_def)
  have "enc_label l = butlast (enc_label l) @ [last l]"
    using \<open>l \<noteq> []\<close> by (simp add: enc_label_def)
  with assms(2) have "holds_at m p (butlast (enc_label l))" by (metis holds_at_append)
  then have "rd_bytes m p (length l) = ret (butlast (enc_label l))"
    using rd_bytes_holds_at [of m p "butlast (enc_label l)"] by simp
  with holds_label(1,3) [OF assms] show ?thesis by (simp add: rr_hash_def)
qed

lemma bucket_index_less: "bucket_index h < HASH_BUCKET_SIZE"
  by (simp add: bucket_index_def unat_mod)

section \<open>Finding a child\<close>

lemma kid_iff:
  assumes "node_ok tn"
  shows "kid tn l = Some x \<longleftrightarrow> x \<in> set (kids tn) \<and> domain x = pad l"
proof -
  have "distinct (map fst (map (\<lambda>x. (domain x, x)) (kids tn)))"
    using assms by (simp add: node_ok_def comp_def)
  then show ?thesis by (auto simp: kid_def map_of_eq_Some_iff image_iff)
qed

lemma kid_None: "kid tn l = None \<longleftrightarrow> (\<forall>x \<in> set (kids tn). domain x \<noteq> pad l)"
  by (auto simp: kid_def map_of_eq_None_iff image_iff)

lemma ll_find_ok:
  assumes "wf_lab l" and "holds_at m p (enc_label l)"
  shows "\<forall>x \<in> set ns. padded x \<Longrightarrow> \<exists>r. ll_find ns m p = ret r \<and>
    (case r of None \<Rightarrow> \<forall>x \<in> set ns. domain x \<noteq> pad l
     | Some i \<Rightarrow> i < length ns \<and> domain (ns ! i) = pad l)"
proof (induction ns)
  case (Cons x ns)
  then obtain l' where l': "wf_lab l'" "domain x = pad l'" by (auto simp: padded_def)
  obtain c where c: "strncmp (drop (nat p) m) (pad l') (Suc (length l)) = ret c" "c = 0 \<longleftrightarrow> l' = l"
    using strncmp_pad [OF assms(1) l'(1) assms(2)] by blast
  have step: "ll_find (x # ns) m p = (if l' = l then ret (Some 0)
      else bind_run (ll_find ns m p) (\<lambda>r. ret (map_option Suc r)))"
    using c holds_label(1,3) [OF assms] l'(2) by simp
  show ?case
  proof (cases "l' = l")
    case True
    then show ?thesis using step l'(2) by simp
  next
    case False
    obtain r where r: "ll_find ns m p = ret r" "case r of None \<Rightarrow> \<forall>x \<in> set ns. domain x \<noteq> pad l
     | Some i \<Rightarrow> i < length ns \<and> domain (ns ! i) = pad l" using Cons by auto
    have "ll_find (x # ns) m p = ret (map_option Suc r)" using step False r(1) by simp
    moreover have "domain x \<noteq> pad l" using l' False pad_inj [OF assms(1), of l'] by simp
    ultimately show ?thesis using r(2) by (auto split: option.splits)
  qed
qed simp

lemma find_ok:
  assumes "node_ok tn" and "wf_lab l" and "holds_at m p (enc_label l)"
  shows "\<exists>r. tree_node_find tn m p = ret r \<and>
    (case r of None \<Rightarrow> kid tn l = None
     | Some pl \<Rightarrow> \<exists>ln. get_at tn pl = Some ln \<and> kid tn l = Some ln)"
proof (cases tn)
  case (Tree_node sz ct)
  show ?thesis
  proof (cases ct)
    case (LINKED_LIST ns)
    then have k: "kids tn = ns" by (simp add: Tree_node kids_def)
    then obtain r where r: "ll_find ns m p = ret r" "case r of None \<Rightarrow> \<forall>x \<in> set ns. domain x \<noteq> pad l
      | Some i \<Rightarrow> i < length ns \<and> domain (ns ! i) = pad l"
      using ll_find_ok [OF assms(2,3), of ns] assms(1) by (auto simp: node_ok_def)
    have f: "tree_node_find tn m p = ret (map_option In_list r)"
      using r(1) LINKED_LIST by (simp add: tree_node_find_def Tree_node)
    show ?thesis
    proof (cases r)
      case None
      with f r(2) k show ?thesis by (simp add: kid_None)
    next
      case (Some i)
      with r(2) k have "kid tn l = Some (ns ! i)" by (simp add: kid_iff [OF assms(1)])
      with f Some r(2) LINKED_LIST show ?thesis by (simp add: Tree_node)
    qed
  next
    case (HASH_BUCKET bs)
    let ?b = "lab_hash l"
    have k: "kids tn = concat bs" using HASH_BUCKET by (simp add: Tree_node kids_def)
    have bs: "buckets_ok bs" "\<forall>x \<in> set (concat bs). padded x"
      using assms(1) HASH_BUCKET by (simp_all add: node_ok_def Tree_node kids_def)
    then have b: "?b < length bs" by (simp add: lab_hash_def bucket_index_less buckets_ok_def)
    then have "\<forall>x \<in> set (bs ! ?b). padded x" using bs(2) nth_mem by fastforce
    from ll_find_ok [OF assms(2,3) this] obtain r where r: "ll_find (bs ! ?b) m p = ret r"
      "case r of None \<Rightarrow> \<forall>x \<in> set (bs ! ?b). domain x \<noteq> pad l
      | Some i \<Rightarrow> i < length (bs ! ?b) \<and> domain (bs ! ?b ! i) = pad l" by blast
    have f: "tree_node_find tn m p = ret (map_option (In_bucket ?b) r)"
      using r(1) b rr_hash_label [OF assms(2,3)] HASH_BUCKET
      by (simp add: tree_node_find_def Tree_node hash_ll_find_def lab_hash_def)
    show ?thesis
    proof (cases r)
      case None
      have "domain x \<noteq> pad l" if x: "x \<in> set (concat bs)" for x
      proof
        assume d: "domain x = pad l"
        from x obtain b where "b < length bs" "x \<in> set (bs ! b)"
          unfolding set_concat by (metis UN_E in_set_conv_nth)
        with bs(1) d assms(2) have "b = ?b" unfolding buckets_ok_def in_bucket_def by blast
        with r(2) None d \<open>x \<in> set (bs ! b)\<close> show False by simp
      qed
      with f None k show ?thesis by (simp add: kid_None)
    next
      case (Some i)
      then have i: "i < length (bs ! ?b)" "domain (bs ! ?b ! i) = pad l" using r(2) by simp_all
      then have "bs ! ?b ! i \<in> set (concat bs)" using b nth_mem by fastforce
      with i(2) k have "kid tn l = Some (bs ! ?b ! i)" by (simp add: kid_iff [OF assms(1)])
      with f Some i(1) b HASH_BUCKET show ?thesis by (simp add: Tree_node)
    qed
  qed
qed

section \<open>Replacing and inserting a child\<close>

lemma concat_update:
  assumes "b < length bs" and "i < length (bs ! b)"
  obtains j where "j < length (concat bs)" "concat bs ! j = bs ! b ! i"
    "\<And>x. concat (bs[b := (bs ! b)[i := x]]) = (concat bs)[j := x]"
proof -
  let ?l = "concat (take b bs)" and ?r = "concat (drop (Suc b) bs)"
  have c: "concat bs = ?l @ bs ! b @ ?r"
    using id_take_nth_drop [OF assms(1)] by (metis concat.simps(2) concat_append)
  have u: "concat (bs[b := (bs ! b)[i := x]]) = ?l @ (bs ! b)[i := x] @ ?r" for x
    using assms(1) by (simp add: upd_conv_take_nth_drop)
  show ?thesis
  proof (rule that [of "length ?l + i"])
    show "length ?l + i < length (concat bs)" using assms(2) by (subst c) simp
    show "concat bs ! (length ?l + i) = bs ! b ! i" using assms(2) by (subst c) (simp add: nth_append)
    show "concat (bs[b := (bs ! b)[i := x]]) = (concat bs)[length ?l + i := x]" for x
      using assms(2) by (subst u, subst c) (simp add: list_update_append)
  qed
qed

lemma put_at_kids:
  assumes "get_at tn pl = Some ln"
  obtains j where "j < length (kids tn)" "kids tn ! j = ln" "\<And>x. kids (put_at tn pl x) = (kids tn)[j := x]"
  using assms
proof (cases "(tn, pl)" rule: get_at.cases)
  case (1 sz ns i)
  then show ?thesis using assms that [of i] by (auto simp: kids_def split: if_splits)
next
  case (2 sz bs b i)
  then have "b < length bs" "i < length (bs ! b)" using assms by (auto split: if_splits)
  then obtain j where "j < length (concat bs)" "concat bs ! j = bs ! b ! i"
    "\<And>x. concat (bs[b := (bs ! b)[i := x]]) = (concat bs)[j := x]" by (rule concat_update) blast
  then show ?thesis using 2 assms by (intro that [of j]) (auto simp: kids_def split: if_splits)
qed simp_all

lemma get_put_at: "get_at tn pl = Some ln \<Longrightarrow> get_at (put_at tn pl x) pl = Some x"
  by (induction tn pl x rule: put_at.induct) (auto split: if_splits)

lemma buckets_ok_update:
  "buckets_ok bs \<Longrightarrow> \<forall>x \<in> set ys. in_bucket b x \<Longrightarrow> buckets_ok (bs[b := ys])"
  by (cases "b < length bs") (auto simp: buckets_ok_def nth_list_update split: if_splits)

lemma put_at_ok:
  assumes "node_ok tn" and "get_at tn pl = Some ln" and "domain ln' = domain ln"
  shows "node_ok (put_at tn pl ln')" and "set (kids (put_at tn pl ln')) = insert ln' (set (kids tn) - {ln})"
proof -
  obtain j where j: "j < length (kids tn)" "kids tn ! j = ln"
    and k: "\<And>x. kids (put_at tn pl x) = (kids tn)[j := x]" using put_at_kids [OF assms(2)] by metis
  have dm: "map domain (kids (put_at tn pl ln')) = map domain (kids tn)"
    using j assms(3) by (simp add: k map_update) (metis list_update_id nth_map)
  have dist: "distinct (kids tn)" using assms(1) by (auto simp: node_ok_def simp: distinct_map)
  show st: "set (kids (put_at tn pl ln')) = insert ln' (set (kids tn) - {ln})"
    using set_update_distinct [OF dist j(1)] j(2) by (simp add: k)
  have pd: "\<forall>x \<in> set (kids (put_at tn pl ln')). padded x"
    using assms(1,3) j st nth_mem [OF j(1)] by (auto simp: node_ok_def padded_def)
  have ct: "case container (put_at tn pl ln') of
        LINKED_LIST ns \<Rightarrow> tn_size (put_at tn pl ln') = of_nat (length ns) \<and> length ns \<le> 32
      | HASH_BUCKET bs \<Rightarrow> buckets_ok bs"
  proof (cases "(tn, pl)" rule: get_at.cases)
    case (1 sz ns i)
    then show ?thesis using assms(1) by (simp add: node_ok_def)
  next
    case (2 sz bs b i)
    then have bi: "b < length bs" "i < length (bs ! b)" "bs ! b ! i = ln"
      using assms(2) by (auto split: if_splits)
    have "buckets_ok bs" using 2 assms(1) by (simp add: node_ok_def)
    moreover from this bi have "in_bucket b ln" unfolding buckets_ok_def by (metis nth_mem)
    then have "in_bucket b ln'" using assms(3) by (simp add: in_bucket_def)
    ultimately have "buckets_ok (bs[b := (bs ! b)[i := ln']])"
      using bi(1) set_update_subset_insert [of "bs ! b" i ln']
      by (intro buckets_ok_update) (auto simp: buckets_ok_def)
    with 2 show ?thesis by simp
  qed (use assms(2) in simp_all)
  show "node_ok (put_at tn pl ln')" using assms(1) dm pd ct unfolding node_ok_def by simp
qed

lemma put_at_kid:
  assumes "node_ok tn" and "get_at tn pl = Some ln" and "domain ln = pad l" and "domain ln' = pad l"
    and "wf_lab l"
  shows "kid (put_at tn pl ln') l' = (if l' = l then Some ln' else kid tn l')"
proof -
  have d: "domain ln' = domain ln" using assms by simp
  note ok = put_at_ok [OF assms(1,2) d]
  show ?thesis
  proof (cases "l' = l")
    case True
    then show ?thesis using assms(4) by (simp add: kid_iff [OF ok(1)] ok(2))
  next
    case False
    then have ne: "pad l' \<noteq> pad l" using pad_inj [OF assms(5), of l'] by simp
    have "kid (put_at tn pl ln') l' = Some x \<longleftrightarrow> kid tn l' = Some x" for x
      unfolding kid_iff [OF ok(1)] kid_iff [OF assms(1)] ok(2) using ne assms(3,4) by auto
    then show ?thesis using False by (metis not_Some_eq)
  qed
qed

text \<open>The node that \<^verbatim>\<open>tree_node_insert\<close> creates for a label.\<close>

definition fresh_node :: "label \<Rightarrow> linked_node" where
  "fresh_node l = set_domain create_linked_node (pad l)"

lemma domain_fresh [simp]: "domain (fresh_node l) = pad l"
  by (simp add: fresh_node_def create_linked_node_def)

lemma mset_concat_update:
  "b < length bs \<Longrightarrow> mset (concat (bs[b := x # bs ! b])) = add_mset x (mset (concat bs))"
proof -
  assume b: "b < length bs"
  have "concat bs = concat (take b bs) @ bs ! b @ concat (drop (Suc b) bs)"
    using id_take_nth_drop [OF b] by (metis concat.simps(2) concat_append)
  with b show ?thesis by (simp add: upd_conv_take_nth_drop)
qed

lemma node_hash: "wf_lab l \<Longrightarrow> rr_hash (pad l) 0 = ret (bkdr (butlast (enc_label l)))"
  using rr_hash_label [OF _ holds_at_pad] .

lemma in_bucket_lab: "wf_lab l \<Longrightarrow> domain x = pad l \<Longrightarrow> in_bucket (lab_hash l) x"
  using pad_inj by (auto simp: in_bucket_def)

lemma rehash_ok:
  "\<forall>x \<in> set xs. padded x \<Longrightarrow> buckets_ok bs \<Longrightarrow> \<exists>bs'. rehash rr_hash xs bs = ret bs' \<and> buckets_ok bs' \<and>
     mset (concat bs') = mset xs + mset (concat bs) \<and> (\<forall>b. \<exists>ys. bs' ! b = ys @ bs ! b)"
proof (induction xs arbitrary: bs)
  case Nil
  then show ?case by simp
next
  case (Cons x xs)
  then obtain l where l: "wf_lab l" "domain x = pad l" by (auto simp: padded_def)
  let ?b = "lab_hash l" let ?bs = "bs[?b := x # bs ! ?b]"
  have b: "?b < length bs" using Cons.prems(2) by (simp add: buckets_ok_def lab_hash_def bucket_index_less)
  have "buckets_ok ?bs"
    using Cons.prems(2) b in_bucket_lab [OF l] by (intro buckets_ok_update) (auto simp: buckets_ok_def)
  with Cons.IH [of ?bs] Cons.prems obtain bs' where bs': "rehash rr_hash xs ?bs = ret bs'" "buckets_ok bs'"
    "mset (concat bs') = mset xs + mset (concat ?bs)" "\<forall>b. \<exists>ys. bs' ! b = ys @ ?bs ! b" by auto
  have "\<exists>ys. bs' ! c = ys @ bs ! c" for c
    using bs'(4) [rule_format, of c] b by (cases "c = ?b") auto
  moreover have "rehash rr_hash (x # xs) bs = rehash rr_hash xs ?bs"
    using l node_hash [OF l(1)] b by (simp add: lab_hash_def Let_def)
  ultimately show ?case using bs' b by (auto simp: mset_concat_update)
qed

lemma distinct_by_mset:
  assumes "mset xs = add_mset x (mset ys)" and "distinct (map f ys)" and "\<forall>y \<in> set ys. f y \<noteq> f x"
  shows "distinct (map f xs)"
proof -
  have "mset (map f xs) = mset (map f (x # ys))" using assms(1) by simp
  then have "distinct (map f xs) = distinct (map f (x # ys))" by (rule mset_eq_imp_distinct_iff)
  with assms(2,3) show ?thesis by auto
qed

text \<open>A node with one more child.\<close>

lemma grown_ok:
  assumes "node_ok tn" and "wf_lab l" and "kid tn l = None" and "domain x = pad l"
    and "mset (kids tn') = add_mset x (mset (kids tn))"
    and "case container tn' of
        LINKED_LIST ns \<Rightarrow> tn_size tn' = of_nat (length ns) \<and> length ns \<le> 32
      | HASH_BUCKET bs \<Rightarrow> buckets_ok bs"
  shows "node_ok tn'" and "kid tn' l' = (if l' = l then Some x else kid tn l')"
proof -
  have st: "set (kids tn') = insert x (set (kids tn))"
    using arg_cong [OF assms(5), of set_mset] by simp
  have "distinct (map domain (kids tn'))"
    using assms(1,3,4) by (intro distinct_by_mset [OF assms(5)]) (auto simp: node_ok_def kid_None)
  with assms st show ok: "node_ok tn'" unfolding node_ok_def padded_def by auto
  show "kid tn' l' = (if l' = l then Some x else kid tn l')"
  proof (cases "l' = l")
    case True
    then show ?thesis using assms(4) by (simp add: kid_iff [OF ok] st)
  next
    case False
    then have "pad l' \<noteq> pad l" using pad_inj [OF assms(2), of l'] by simp
    then have "kid tn' l' = Some y \<longleftrightarrow> kid tn l' = Some y" for y
      unfolding kid_iff [OF ok] kid_iff [OF assms(1)] st using assms(4) by auto
    then show ?thesis using False by (metis not_Some_eq)
  qed
qed

definition inserted :: "tree_node \<Rightarrow> label \<Rightarrow> tree_node \<Rightarrow> loc \<Rightarrow> bool" where
  "inserted tn l tn' pl \<longleftrightarrow> get_at tn' pl = Some (fresh_node l) \<and>
     mset (kids tn') = add_mset (fresh_node l) (mset (kids tn)) \<and>
     (case container tn' of
        LINKED_LIST ns \<Rightarrow> tn_size tn' = of_nat (length ns) \<and> length ns \<le> 32
      | HASH_BUCKET bs \<Rightarrow> buckets_ok bs)"

lemma insert_into_list:
  assumes "node_ok (Tree_node sz (LINKED_LIST ns))" and "wf_lab l"
    and "tn' = (if sz + 1 > HASH_SWITCH_THRESHOLD then
           bind_run (rehash rr_hash (fresh_node l # ns) (replicate HASH_BUCKET_SIZE [])) (\<lambda>bs.
           bind_run (rr_hash (domain (fresh_node l)) 0) (\<lambda>h.
           let index = bucket_index h in
           ret (Tree_node (sz + 1) (HASH_BUCKET bs), In_bucket index (length (bs ! index) - 1))))
         else ret (Tree_node (sz + 1) (LINKED_LIST (fresh_node l # ns)), In_list 0))"
  shows "\<exists>t pl. tn' = ret (t, pl) \<and> inserted (Tree_node sz (LINKED_LIST ns)) l t pl"
proof -
  have sz: "sz = of_nat (length ns)" "length ns \<le> 32" and pd: "\<forall>x \<in> set ns. padded x"
    using assms(1) by (simp_all add: node_ok_def kids_def)
  then have sz1: "sz + 1 = of_nat (Suc (length ns))" by (simp add: add.commute)
  have gt: "sz + 1 > HASH_SWITCH_THRESHOLD \<longleftrightarrow> 32 < Suc (length ns)"
    unfolding sz1 word_less_nat_alt using sz(2) by (simp add: unat_of_nat del: of_nat_Suc)
  show ?thesis
  proof (cases "32 < Suc (length ns)")
    case False
    with assms(3) gt have "tn' = ret (Tree_node (sz + 1) (LINKED_LIST (fresh_node l # ns)), In_list 0)"
      by simp
    moreover have "inserted (Tree_node sz (LINKED_LIST ns)) l
        (Tree_node (sz + 1) (LINKED_LIST (fresh_node l # ns))) (In_list 0)"
      using False sz1 by (simp add: inserted_def kids_def)
    ultimately show ?thesis by blast
  next
    case True
    let ?b = "lab_hash l" let ?e = "replicate HASH_BUCKET_SIZE [] :: linked_node list list"
    let ?bs = "?e[?b := [fresh_node l]]"
    have b: "?b < HASH_BUCKET_SIZE" by (simp add: lab_hash_def bucket_index_less)
    have "buckets_ok ?e" by (simp add: buckets_ok_def)
    then have ok: "buckets_ok ?bs"
      using in_bucket_lab [OF assms(2), of "fresh_node l"] by (intro buckets_ok_update) simp_all
    have first: "rehash rr_hash (fresh_node l # ns) ?e = rehash rr_hash ns ?bs"
      using node_hash [OF assms(2)] b by (simp add: lab_hash_def Let_def)
    obtain bs where bs: "rehash rr_hash ns ?bs = ret bs" "buckets_ok bs"
      "mset (concat bs) = mset ns + mset (concat ?bs)" "\<forall>b. \<exists>ys. bs ! b = ys @ ?bs ! b"
      using rehash_ok [OF pd ok] by blast
    have one: "mset (concat ?bs) = {#fresh_node l#}"
      using mset_concat_update [of ?b ?e "fresh_node l"] b by simp
    obtain ys where ys: "bs ! ?b = ys @ [fresh_node l]" using bs(4) b by (metis length_replicate nth_list_update_eq)
    have "tn' = ret (Tree_node (sz + 1) (HASH_BUCKET bs), In_bucket ?b (length (bs ! ?b) - 1))"
      using assms(3) gt True first bs(1) node_hash [OF assms(2)] by (simp add: lab_hash_def Let_def)
    moreover have "inserted (Tree_node sz (LINKED_LIST ns)) l (Tree_node (sz + 1) (HASH_BUCKET bs))
        (In_bucket ?b (length (bs ! ?b) - 1))"
      using bs(2,3) one ys b by (simp add: inserted_def kids_def nth_append buckets_ok_def)
    ultimately show ?thesis by blast
  qed
qed

lemma insert_into_buckets:
  assumes "node_ok (Tree_node sz (HASH_BUCKET bs))" and "wf_lab l"
  shows "inserted (Tree_node sz (HASH_BUCKET bs)) l
    (Tree_node (sz + 1) (HASH_BUCKET (bs[lab_hash l := fresh_node l # bs ! lab_hash l]))) (In_bucket (lab_hash l) 0)"
proof -
  have ok: "buckets_ok bs" using assms(1) by (simp add: node_ok_def)
  then have b: "lab_hash l < length bs" by (simp add: buckets_ok_def lab_hash_def bucket_index_less)
  have "buckets_ok (bs[lab_hash l := fresh_node l # bs ! lab_hash l])"
    using ok b in_bucket_lab [OF assms(2), of "fresh_node l"]
    by (intro buckets_ok_update) (auto simp: buckets_ok_def)
  with b show ?thesis by (simp add: inserted_def kids_def mset_concat_update)
qed

lemma insert_child_ok:
  assumes "node_ok tn" and "wf_lab l" and "holds_at m p (enc_label l)"
  shows "\<exists>tn' pl. tree_node_insert tn m p rr_hash = ret (tn', pl) \<and> inserted tn l tn' pl"
proof (cases tn)
  case (Tree_node sz ct)
  have "fits (replicate SUBDOMAIN_MAX 0) 0 (length (enc_label l))"
    using assms(2) by (simp add: fits_def wf_lab_def)
  then have "wr_bytes (domain create_linked_node) 0 (enc_label l) = ret (pad l)"
    by (simp add: wr_bytes_fits create_linked_node_def overlay_def pad_def)
  then have start: "tree_node_insert tn m p rr_hash = (case ct of
       HASH_BUCKET bs \<Rightarrow>
         bind_run (rr_hash m p) (\<lambda>h.
         let index = bucket_index h in
         if length bs \<le> index then fail OutOfBounds
         else ret (Tree_node (sz + 1) (HASH_BUCKET (bs[index := fresh_node l # bs ! index])), In_bucket index 0))
     | LINKED_LIST ns \<Rightarrow>
         if sz + 1 > HASH_SWITCH_THRESHOLD then
           bind_run (rehash rr_hash (fresh_node l # ns) (replicate HASH_BUCKET_SIZE [])) (\<lambda>bs.
           bind_run (rr_hash (domain (fresh_node l)) 0) (\<lambda>h.
           let index = bucket_index h in
           ret (Tree_node (sz + 1) (HASH_BUCKET bs), In_bucket index (length (bs ! index) - 1))))
         else ret (Tree_node (sz + 1) (LINKED_LIST (fresh_node l # ns)), In_list 0))"
    unfolding fresh_node_def using holds_label(1-3) [OF assms(2,3)] Tree_node
    by (simp add: tree_node_insert_def Let_def split: tn_container.split)
  show ?thesis
  proof (cases ct)
    case (LINKED_LIST ns)
    with start insert_into_list [OF _ assms(2)] assms(1) Tree_node show ?thesis by simp
  next
    case (HASH_BUCKET bs)
    then have ok: "node_ok (Tree_node sz (HASH_BUCKET bs))" using assms(1) Tree_node by simp
    then have "lab_hash l < length bs" by (simp add: node_ok_def buckets_ok_def lab_hash_def bucket_index_less)
    with start rr_hash_label [OF assms(2,3)] insert_into_buckets [OF ok assms(2)] HASH_BUCKET Tree_node
    show ?thesis by (auto simp: lab_hash_def Let_def)
  qed
qed

end
