(* ===== verification/Trees_Map.thy ===== *)
theory Trees_Map
  imports Trees_Refinement
begin

text \<open>
  The tree as a map: \<open>lookup t ls e\<close> are the records of kind \<open>e\<close> (A, CNAME or AAAA) stored under the labels
  \<open>ls\<close>. Inserting adds a record at exactly one place, or refuses it; searching returns copies of
  the records of that place.
\<close>

section \<open>Abstraction and invariant\<close>

definition records :: "linked_node \<Rightarrow> nat \<Rightarrow> resource_record list" where
  "records ln e = map the (take (unat (data_cnt ln ! e)) (data ln ! e))"

fun lookup :: "tree_node \<Rightarrow> label list \<Rightarrow> nat \<Rightarrow> resource_record list" where
  "lookup tn [] e = []"
| "lookup tn (l # ls) e = (case kid tn l of None \<Rightarrow> []
     | Some ln \<Rightarrow> if ls = [] then records ln e
         else (case child ln of None \<Rightarrow> [] | Some t \<Rightarrow> lookup t ls e))"

definition elem_ok :: "linked_node \<Rightarrow> bool" where
  "elem_ok ln \<longleftrightarrow> length (data ln) = RR_ARR_LEN \<and> length (data_cnt ln) = RR_ARR_LEN \<and>
     (\<forall>e < RR_ARR_LEN. length (data ln ! e) = RR_CNT_MAX \<and> unat (data_cnt ln ! e) \<le> RR_CNT_MAX \<and>
        (\<forall>x \<in> set (take (unat (data_cnt ln ! e)) (data ln ! e)). \<exists>rr. x = Some rr \<and> wf_rr rr))"

inductive tree_ok :: "tree_node \<Rightarrow> bool" where
  tree_okI: "node_ok tn \<Longrightarrow> (\<And>x. x \<in> set (kids tn) \<Longrightarrow> elem_ok x) \<Longrightarrow>
    (\<And>x t. x \<in> set (kids tn) \<Longrightarrow> child x = Some t \<Longrightarrow> tree_ok t) \<Longrightarrow> tree_ok tn"

inductive_cases tree_okE: "tree_ok tn"

text \<open>When a record is accepted: there is room for it, and none of the stored ones has the same data.\<close>

definition same_data :: "resource_record \<Rightarrow> resource_record \<Rightarrow> bool" where
  "same_data rr x \<longleftrightarrow> take (unat (rdlength rr)) (bytes_of (rdata rr)) = take (unat (rdlength rr)) (bytes_of (rdata x))"

definition accepts :: "resource_record list \<Rightarrow> resource_record \<Rightarrow> bool" where
  "accepts xs rr \<longleftrightarrow> length xs < RR_CNT_MAX \<and> (\<forall>x \<in> set xs. \<not> same_data rr x)"

text \<open>The data of the stored records can be compared with that of the new one.\<close>

definition comparable :: "resource_record list \<Rightarrow> resource_record \<Rightarrow> bool" where
  "comparable xs rr \<longleftrightarrow> (\<forall>x \<in> set xs. unat (rdlength rr) \<le> unat (rdlength x))"

definition insert_result :: "tree_node \<Rightarrow> label list \<Rightarrow> nat \<Rightarrow> resource_record \<Rightarrow> int \<Rightarrow> tree_node \<Rightarrow> bool" where
  "insert_result tn ls e rr r tn' \<longleftrightarrow> tree_ok tn' \<and> r = (if accepts (lookup tn ls e) rr then 1 else -1) \<and>
     (\<forall>ls' k. k < RR_ARR_LEN \<longrightarrow> lookup tn' ls' k = lookup tn ls' k @
        (if ls' = ls \<and> k = e \<and> accepts (lookup tn ls e) rr then [rr] else []))"

lemma tree_okD:
  assumes "tree_ok tn"
  shows "node_ok tn" "x \<in> set (kids tn) \<Longrightarrow> elem_ok x"
    "x \<in> set (kids tn) \<Longrightarrow> child x = Some t \<Longrightarrow> tree_ok t"
  using assms by (blast elim: tree_okE)+

section \<open>Records of a node\<close>

lemma length_records: "elem_ok ln \<Longrightarrow> e < RR_ARR_LEN \<Longrightarrow> length (records ln e) = unat (data_cnt ln ! e)"
  by (simp add: records_def elem_ok_def)

lemma records_wf: "elem_ok ln \<Longrightarrow> e < RR_ARR_LEN \<Longrightarrow> x \<in> set (records ln e) \<Longrightarrow> wf_rr x"
  by (fastforce simp: records_def elem_ok_def)

lemma rdata_eq_ok:
  assumes "wf_rr rr" and "wf_rr x" and "unat (rdlength rr) \<le> unat (rdlength x)"
  shows "rdata_eq rr x = ret (same_data rr x)"
proof (cases "rdlength rr = 0")
  case True
  then show ?thesis by (simp add: rdata_eq_def same_data_def)
next
  case False
  then have "0 < unat (rdlength rr)" by (simp add: unat_gt_0)
  then have "rdlength x \<noteq> 0" using assms(3) by auto
  then obtain d1 d2 where "rdata rr = Some d1" "length d1 = unat (rdlength rr)"
    "rdata x = Some d2" "length d2 = unat (rdlength x)"
    using False assms(1,2) by (auto simp: wf_rr_def split: option.splits)
  with False assms(3) show ?thesis by (simp add: rdata_eq_def same_data_def memeq_def)
qed

lemma has_duplicate_ok:
  assumes "wf_rr rr"
  shows "k \<le> length xs \<Longrightarrow>
    \<forall>x \<in> set (take k xs). \<exists>y. x = Some y \<and> wf_rr y \<and> unat (rdlength rr) \<le> unat (rdlength y) \<Longrightarrow>
    has_duplicate rr xs k = ret (\<exists>x \<in> set (map the (take k xs)). same_data rr x)"
proof (induction k arbitrary: xs)
  case (Suc k)
  then obtain x xs' where xs: "xs = x # xs'" by (cases xs) auto
  then obtain y where y: "x = Some y" "wf_rr y" "unat (rdlength rr) \<le> unat (rdlength y)"
    using Suc.prems(2) by auto
  have "has_duplicate rr xs' k = ret (\<exists>x \<in> set (map the (take k xs')). same_data rr x)"
    using Suc.prems xs by (intro Suc.IH) simp_all
  then show ?case using xs y rdata_eq_ok [OF assms y(2,3)] by simp
qed simp

lemma append_record_ok:
  assumes "elem_ok ln" and "e < RR_ARR_LEN" and "length (records ln e) < RR_CNT_MAX" and "wf_rr rr"
  shows "\<exists>ln'. append_record ln e rr = ret ln' \<and> domain ln' = domain ln \<and> child ln' = child ln \<and>
    elem_ok ln' \<and> (\<forall>k < RR_ARR_LEN. records ln' k = records ln k @ (if k = e then [rr] else []))"
proof -
  let ?c = "data_cnt ln ! e"
  let ?ln = "Linked_node (domain ln) ((data ln)[e := (data ln ! e)[unat ?c := Some rr]])
    ((data_cnt ln)[e := ?c + 1]) (child ln)"
  have c: "unat ?c < RR_CNT_MAX" using assms length_records by metis
  have len: "length (data ln) = RR_ARR_LEN" "length (data_cnt ln) = RR_ARR_LEN" "length (data ln ! e) = RR_CNT_MAX"
    using assms(1,2) by (simp_all add: elem_ok_def)
  have app: "append_record ln e rr = ret ?ln" using c len assms(2) by (simp add: append_record_def)
  have c1: "unat (?c + 1) = Suc (unat ?c)" using c by (simp add: unat_word_ariths)
  have tk: "take (Suc (unat ?c)) ((data ln ! e)[unat ?c := Some rr]) = take (unat ?c) (data ln ! e) @ [Some rr]"
    using c len(3) by (simp add: take_Suc_conv_app_nth)
  have "elem_ok ?ln"
    using assms(1,4) len c c1 tk assms(2) by (auto simp: elem_ok_def nth_list_update)
  moreover have "\<forall>k < RR_ARR_LEN. records ?ln k = records ln k @ (if k = e then [rr] else [])"
    using len assms(2) c1 tk by (auto simp: records_def nth_list_update)
  ultimately show ?thesis using app by simp
qed

lemma set_domain_simps [simp]:
  "domain (set_domain x d) = d" "data (set_domain x d) = data x" "data_cnt (set_domain x d) = data_cnt x"
  "child (set_domain x d) = child x"
  by (cases x; simp)+

lemma set_child_simps [simp]:
  "domain (set_child x t) = domain x" "data (set_child x t) = data x"
  "data_cnt (set_child x t) = data_cnt x" "child (set_child x t) = Some t"
  by (cases x; simp)+

lemma records_set [simp]: "records (set_domain x d) = records x" "records (set_child x t) = records x"
  by (simp_all add: records_def fun_eq_iff)

lemma elem_ok_set [simp]: "elem_ok (set_domain x d) = elem_ok x" "elem_ok (set_child x t) = elem_ok x"
  by (simp_all add: elem_ok_def)

lemma fresh_node_ok: "elem_ok (fresh_node l)" "child (fresh_node l) = None"
  and records_fresh: "e < RR_ARR_LEN \<Longrightarrow> records (fresh_node l) e = []"
  by (simp_all add: fresh_node_def elem_ok_def create_linked_node_def records_def)

lemma append_fresh:
  assumes "e < RR_ARR_LEN" and "wf_rr rr"
  shows "\<exists>ln'. append_record (fresh_node l) e rr = ret ln' \<and> domain ln' = pad l \<and> child ln' = None \<and>
    elem_ok ln' \<and> (\<forall>k < RR_ARR_LEN. records ln' k = (if k = e then [rr] else []))"
proof -
  have "length (records (fresh_node l) e) < RR_CNT_MAX" using records_fresh [OF assms(1)] by simp
  from append_record_ok [OF fresh_node_ok(1) assms(1) this assms(2)] show ?thesis
    by (simp add: fresh_node_ok records_fresh)
qed

lemma insert_found_ok:
  assumes "elem_ok ln" and "domain ln = pad l" and "wf_lab l" and "holds_at m p (enc_label l)"
    and "e < RR_ARR_LEN" and "wf_rr rr" and "comparable (records ln e) rr"
  shows "\<exists>ln'. insert_found ln m p e rr = ret (if accepts (records ln e) rr then 1 else -1, ln') \<and>
    domain ln' = pad l \<and> child ln' = child ln \<and> elem_ok ln' \<and>
    (\<forall>k < RR_ARR_LEN. records ln' k = records ln k @ (if k = e \<and> accepts (records ln e) rr then [rr] else []))"
proof -
  have len: "length (records ln e) = unat (data_cnt ln ! e)" using length_records [OF assms(1,5)] .
  have dup: "has_duplicate rr (data ln ! e) (unat (data_cnt ln ! e)) =
      ret (\<exists>x \<in> set (records ln e). same_data rr x)"
    unfolding records_def
  proof (rule has_duplicate_ok [OF assms(6)])
    show "\<forall>x \<in> set (take (unat (data_cnt ln ! e)) (data ln ! e)).
        \<exists>y. x = Some y \<and> wf_rr y \<and> unat (rdlength rr) \<le> unat (rdlength y)"
      using assms(1,5,7) unfolding elem_ok_def comparable_def records_def by force
  qed (use assms(1,5) in \<open>simp add: elem_ok_def\<close>)
  show ?thesis
  proof (cases "accepts (records ln e) rr")
    case False
    then have "insert_found ln m p e rr = ret (-1, ln)"
      using dup len by (auto simp: insert_found_def accepts_def)
    with False assms(1,2) show ?thesis by simp
  next
    case True
    obtain ln' where ln': "append_record ln e rr = ret ln'" "domain ln' = domain ln" "child ln' = child ln"
      "elem_ok ln'" "\<forall>k < RR_ARR_LEN. records ln' k = records ln k @ (if k = e then [rr] else [])"
      using append_record_ok [OF assms(1,5) _ assms(6)] True by (auto simp: accepts_def)
    have "wr_bytes (pad l) 0 (enc_label l) = ret (overlay (pad l) 0 (enc_label l))"
      using length_pad [OF assms(3)] assms(3) by (intro wr_bytes_fits) (simp add: fits_def wf_lab_def)
    also have "overlay (pad l) 0 (enc_label l) = pad l" by (simp add: overlay_def pad_def)
    finally have "insert_found ln m p e rr = ret (1, set_domain ln' (pad l))"
      using dup len ln'(1,2) True holds_label(1-3) [OF assms(3,4)] assms(2)
      by (auto simp: insert_found_def accepts_def)
    with True ln' show ?thesis by simp
  qed
qed

section \<open>Inserting along a path\<close>

definition next_byte :: "label list \<Rightarrow> byte" where
  "next_byte ls = (case ls of [] \<Rightarrow> 0 | l # _ \<Rightarrow> of_nat (length l))"

lemma holds_name:
  assumes "holds_at m p (enc_name (l # ls))"
  shows "holds_at m p (enc_label l)" "holds_at m (p + int (length l) + 1) (enc_name ls)"
  using assms by (simp_all add: enc_name_def ac_simps)

lemma holds_name_first: "holds_at m p (enc_name ls) \<Longrightarrow> rd8 m p = ret (next_byte ls)"
  by (cases ls) (simp_all add: enc_name_def enc_label_def next_byte_def)

lemma next_byte_Cons: "wf_lab l \<Longrightarrow> uint (next_byte (l # ls)) = int (length l) \<and> next_byte (l # ls) \<noteq> 0"
  using label_simps [OF wf_lab_wf_label] by (simp add: next_byte_def)

lemma next_byte_zero: "\<forall>l \<in> set ls. wf_lab l \<Longrightarrow> next_byte ls = 0 \<longleftrightarrow> ls = []"
  using next_byte_Cons by (cases ls) (auto simp: next_byte_def)

text \<open>What the loop reads at the next label.\<close>

lemma holds_name_next:
  assumes "holds_at m p (enc_name (l # ls))" and "wf_lab l" and "\<forall>l \<in> set ls. wf_lab l" and "ls \<noteq> []"
  shows "rd8 m (p + int (length l) + 1) = ret (next_byte ls)"
    "rd8 m (p + int (length l) + 1 + uint (next_byte ls) + 1) = ret (next_byte (tl ls))"
proof -
  note h = holds_name [OF assms(1)]
  then show "rd8 m (p + int (length l) + 1) = ret (next_byte ls)" by (intro holds_name_first)
  from assms(3,4) obtain k ks where ls: "ls = k # ks" "wf_lab k" by (cases ls) auto
  with holds_name(2) [of m "p + int (length l) + 1" k ks] h(2)
  have "holds_at m (p + int (length l) + 1 + int (length k) + 1) (enc_name ks)" by simp
  with ls next_byte_Cons [OF ls(2), of ks]
  show "rd8 m (p + int (length l) + 1 + uint (next_byte ls) + 1) = ret (next_byte (tl ls))"
    by (simp add: holds_name_first)
qed

lemma node_ok_create: "node_ok create_tree_node" "kids create_tree_node = []"
  by (simp_all add: node_ok_def create_tree_node_def kids_def)

lemma tree_ok_create: "tree_ok create_tree_node"
  by (rule tree_okI) (simp_all add: node_ok_create)

lemma lookup_create: "lookup create_tree_node ls e = []"
  by (cases ls) (simp_all add: kid_def node_ok_create)

definition kid_lookup :: "linked_node \<Rightarrow> label list \<Rightarrow> nat \<Rightarrow> resource_record list" where
  "kid_lookup ln ls e = (if ls = [] then records ln e
     else (case child ln of None \<Rightarrow> [] | Some t \<Rightarrow> lookup t ls e))"

lemma lookup_updated:
  assumes "\<And>l'. kid tn' l' = (if l' = l then Some ln' else kid tn l')"
  shows "lookup tn' (l' # ls) e = (if l' = l then kid_lookup ln' ls e else lookup tn (l' # ls) e)"
  using assms by (simp add: kid_lookup_def)

lemma lookup_kid: "kid tn l = Some ln \<Longrightarrow> lookup tn (l # ls) e = kid_lookup ln ls e"
  by (simp add: kid_lookup_def)

lemma tree_ok_put:
  assumes "tree_ok tn" and "get_at tn pl = Some ln" and "domain ln = pad l" and "domain ln' = pad l"
    and "elem_ok ln'" and "\<And>t. child ln' = Some t \<Longrightarrow> tree_ok t"
  shows "tree_ok (put_at tn pl ln')"
proof (rule tree_okI)
  have n: "node_ok tn" using assms(1) by (rule tree_okD)
  have d: "domain ln' = domain ln" using assms by simp
  show "node_ok (put_at tn pl ln')" by (rule put_at_ok(1) [OF n assms(2) d])
  show "elem_ok x" if "x \<in> set (kids (put_at tn pl ln'))" for x
    using that assms(5) tree_okD(2) [OF assms(1)] put_at_ok(2) [OF n assms(2) d] by auto
  show "tree_ok t" if "x \<in> set (kids (put_at tn pl ln'))" "child x = Some t" for x t
    using that assms(6) tree_okD(3) [OF assms(1)] put_at_ok(2) [OF n assms(2) d] by auto
qed

lemma tree_ok_inserted:
  assumes "tree_ok tn" and "wf_lab l" and "kid tn l = None" and "inserted tn l tn' pl"
  shows "tree_ok tn'" "kid tn' l' = (if l' = l then Some (fresh_node l) else kid tn l')"
    "get_at tn' pl = Some (fresh_node l)"
proof -
  have n: "node_ok tn" using assms(1) by (rule tree_okD)
  have i: "mset (kids tn') = add_mset (fresh_node l) (mset (kids tn))"
    "case container tn' of
        LINKED_LIST ns \<Rightarrow> tn_size tn' = of_nat (length ns) \<and> length ns \<le> 32
      | HASH_BUCKET bs \<Rightarrow> buckets_ok bs"
    "get_at tn' pl = Some (fresh_node l)"
    using assms(4) by (simp_all add: inserted_def)
  note g = grown_ok [OF n assms(2,3) domain_fresh i(1,2)]
  have st: "set (kids tn') = insert (fresh_node l) (set (kids tn))"
    using arg_cong [OF i(1), of set_mset] by simp
  show "kid tn' l' = (if l' = l then Some (fresh_node l) else kid tn l')" by (rule g(2))
  show "get_at tn' pl = Some (fresh_node l)" by (rule i(3))
  show "tree_ok tn'"
    by (rule tree_okI) (use g(1) st fresh_node_ok tree_okD(2,3) [OF assms(1)] in auto)
qed

text \<open>Replacing the child for \<open>l\<close> after its part of the map was extended.\<close>

lemma insert_result_put:
  assumes "tree_ok tn" and "get_at tn pl = Some ln" and "kid tn l = Some ln" and "wf_lab l"
    and "domain ln' = pad l" and "elem_ok ln'" and "\<And>t. child ln' = Some t \<Longrightarrow> tree_ok t"
    and "\<And>ls' k. k < RR_ARR_LEN \<Longrightarrow> kid_lookup ln' ls' k = kid_lookup ln ls' k @
      (if ls' = ls \<and> k = e \<and> accepts (kid_lookup ln ls e) rr then [rr] else [])"
  shows "insert_result tn (l # ls) e rr (if accepts (kid_lookup ln ls e) rr then 1 else -1) (put_at tn pl ln')"
proof -
  have n: "node_ok tn" using assms(1) by (rule tree_okD)
  have d: "domain ln = pad l" using assms(3) by (simp add: kid_iff [OF n])
  have ok: "tree_ok (put_at tn pl ln')" using tree_ok_put [OF assms(1,2) d assms(5,6,7)] .
  have up: "lookup (put_at tn pl ln') (l' # ls') k =
      (if l' = l then kid_lookup ln' ls' k else lookup tn (l' # ls') k)" for l' ls' k
    by (rule lookup_updated) (rule put_at_kid [OF n assms(2) d assms(5,4)])
  have "lookup (put_at tn pl ln') ls' k = lookup tn ls' k @
      (if ls' = l # ls \<and> k = e \<and> accepts (lookup tn (l # ls) e) rr then [rr] else [])"
    if "k < RR_ARR_LEN" for ls' k
    using that assms(8) [of k] lookup_kid [OF assms(3)]
    by (cases ls') (auto simp: up simp del: lookup.simps(2))
  with ok lookup_kid [OF assms(3), of ls e] show ?thesis
    by (auto simp: insert_result_def simp del: lookup.simps(2))
qed

lemma insert_result_base:
  assumes "insert_result tn1 ls e rr r tn'" and "\<And>ls' k. k < RR_ARR_LEN \<Longrightarrow> lookup tn1 ls' k = lookup tn ls' k"
    and "e < RR_ARR_LEN"
  shows "insert_result tn ls e rr r tn'"
  using assms by (simp add: insert_result_def)

text \<open>One round of the loop at a label whose node exists.\<close>

lemma insert_loop_found:
  assumes "tree_ok tn" and "kid tn l = Some ln" and "wf_lab l" and "\<forall>l \<in> set ls. wf_lab l"
    and "holds_at m p (enc_name (l # ls))" and "e < RR_ARR_LEN" and "wf_rr rr"
    and "comparable (lookup tn (l # ls) e) rr"
    and IH: "\<And>t. tree_ok t \<Longrightarrow> comparable (lookup t ls e) rr \<Longrightarrow> ls \<noteq> [] \<Longrightarrow>
      \<exists>r t'. insert_loop rr_hash t m (p + int (length l) + 1) (next_byte (tl ls)) e rr = ret (r, t') \<and>
        insert_result t ls e rr r t'"
  shows "\<exists>r tn'. insert_loop rr_hash tn m p (next_byte ls) e rr = ret (r, tn') \<and>
    insert_result tn (l # ls) e rr r tn'"
proof -
  note h = holds_name [OF assms(5)]
  have n: "node_ok tn" using assms(1) by (rule tree_okD)
  have ln: "ln \<in> set (kids tn)" "domain ln = pad l" using assms(2) by (simp_all add: kid_iff [OF n])
  have el: "elem_ok ln" using tree_okD(2) [OF assms(1) ln(1)] .
  obtain pl where pl: "tree_node_find tn m p = ret (Some pl)" "get_at tn pl = Some ln"
    using find_ok [OF n assms(3) h(1)] assms(2) by (auto split: option.splits)
  have n1: "rd8 m p = ret (next_byte (l # ls))" using assms(5) by (rule holds_name_first)
  have n0: "next_byte (l # ls) \<noteq> 0" "uint (next_byte (l # ls)) = int (length l)"
    using next_byte_Cons [OF assms(3)] by blast+
  have cmp: "comparable (kid_lookup ln ls e) rr" using assms(8) lookup_kid [OF assms(2)] by simp
  show ?thesis
  proof (cases "ls = []")
    case True
    then have kl: "kid_lookup ln ls e = records ln e" by (simp add: kid_lookup_def)
    then obtain ln' where ln': "insert_found ln m p e rr = ret (if accepts (records ln e) rr then 1 else -1, ln')"
      "domain ln' = pad l" "child ln' = child ln" "elem_ok ln'"
      "\<forall>k < RR_ARR_LEN. records ln' k = records ln k @ (if k = e \<and> accepts (records ln e) rr then [rr] else [])"
      using insert_found_ok [OF el ln(2) assms(3) h(1) assms(6,7)] cmp by auto
    have "insert_loop rr_hash tn m p (next_byte ls) e rr =
        ret (if accepts (records ln e) rr then 1 else -1, put_at tn pl ln')"
      using True n1 n0 pl ln'(1) by (subst insert_loop.simps) (simp add: next_byte_def)
    moreover have "insert_result tn (l # ls) e rr (if accepts (kid_lookup ln ls e) rr then 1 else -1) (put_at tn pl ln')"
      using ln' tree_okD(3) [OF assms(1) ln(1)] True kl
      by (intro insert_result_put [OF assms(1) pl(2) assms(2,3)]) (auto simp: kid_lookup_def)
    ultimately show ?thesis using kl by auto
  next
    case False
    define t where "t = (case child ln of None \<Rightarrow> create_tree_node | Some t \<Rightarrow> t)"
    have t: "tree_ok t" using tree_ok_create tree_okD(3) [OF assms(1) ln(1)] by (auto simp: t_def split: option.splits)
    have lk: "kid_lookup ln ks k = lookup t ks k" if "ks \<noteq> []" for ks k
      using that by (auto simp: kid_lookup_def t_def lookup_create split: option.splits)
    obtain r t' where t': "insert_loop rr_hash t m (p + int (length l) + 1) (next_byte (tl ls)) e rr = ret (r, t')"
      "insert_result t ls e rr r t'"
      using IH [OF t _ False] cmp lk [OF False] by auto
    have "insert_loop rr_hash tn m p (next_byte ls) e rr = ret (r, put_at tn pl (set_child ln t'))"
      using False n1 n0 pl t'(1) holds_name_next [OF assms(5,3,4) False] next_byte_zero [OF assms(4)]
      by (subst insert_loop.simps) (simp add: t_def)
    moreover have "insert_result tn (l # ls) e rr (if accepts (kid_lookup ln ls e) rr then 1 else -1)
        (put_at tn pl (set_child ln t'))"
    proof (rule insert_result_put [OF assms(1) pl(2) assms(2,3)])
      fix ls' k assume "k < RR_ARR_LEN"
      with t'(2) lk [OF False, of e] lk [of ls' k] False
      show "kid_lookup (set_child ln t') ls' k = kid_lookup ln ls' k @
          (if ls' = ls \<and> k = e \<and> accepts (kid_lookup ln ls e) rr then [rr] else [])"
        by (cases "ls' = []") (auto simp: kid_lookup_def insert_result_def)
    qed (use ln el t'(2) in \<open>auto simp: insert_result_def\<close>)
    ultimately show ?thesis using t'(2) lk [OF False] by (auto simp: insert_result_def)
  qed
qed

lemma insert_loop_ok:
  "tree_ok tn \<Longrightarrow> ls \<noteq> [] \<Longrightarrow> \<forall>l \<in> set ls. wf_lab l \<Longrightarrow> holds_at m p (enc_name ls) \<Longrightarrow> e < RR_ARR_LEN \<Longrightarrow>
     wf_rr rr \<Longrightarrow> comparable (lookup tn ls e) rr \<Longrightarrow>
     \<exists>r tn'. insert_loop rr_hash tn m p (next_byte (tl ls)) e rr = ret (r, tn') \<and>
       insert_result tn ls e rr r tn'"
proof (induction ls arbitrary: tn p)
  case (Cons l ls)
  note prems = Cons.prems
  have l: "wf_lab l" "\<forall>l \<in> set ls. wf_lab l" using prems(3) by simp_all
  note h = holds_name [OF prems(4)]
  have IH: "\<exists>r t'. insert_loop rr_hash t m (p + int (length l) + 1) (next_byte (tl ls)) e rr = ret (r, t') \<and>
      insert_result t ls e rr r t'" if "tree_ok t" "comparable (lookup t ls e) rr" "ls \<noteq> []" for t
    using Cons.IH [OF that(1,3) l(2) h(2) prems(5,6) that(2)] .
  note found = insert_loop_found [OF _ _ l prems(4-6) _ IH]
  show ?case
  proof (cases "kid tn l")
    case (Some ln)
    with found [OF prems(1) Some prems(7)] show ?thesis by simp
  next
    case None
    have n: "node_ok tn" using prems(1) by (rule tree_okD)
    obtain tn1 pl where ins: "tree_node_insert tn m p rr_hash = ret (tn1, pl)" "inserted tn l tn1 pl"
      using insert_child_ok [OF n l(1) h(1)] by blast
    note t1 = tree_ok_inserted [OF prems(1) l(1) None ins(2)]
    have kl: "kid_lookup (fresh_node l) ks k = []" if "k < RR_ARR_LEN" for ks k
      using that by (simp add: kid_lookup_def fresh_node_ok records_fresh)
    have same: "lookup tn1 ks k = lookup tn ks k" if "k < RR_ARR_LEN" for ks k
      using lookup_updated [of tn1 l "fresh_node l" tn, OF t1(2)] that kl None by (cases ks) simp_all
    have miss: "tree_node_find tn m p = ret None"
      using find_ok [OF n l(1) h(1)] None by (auto split: option.splits)
    have n1: "rd8 m p = ret (next_byte (l # ls))" "next_byte (l # ls) \<noteq> 0"
      using holds_name_first [OF prems(4)] next_byte_Cons [OF l(1)] by blast+
    have k1: "kid tn1 l = Some (fresh_node l)" using t1(2) by simp
    show ?thesis
    proof (cases "ls = []")
      case True
      obtain ln' where ln': "append_record (fresh_node l) e rr = ret ln'" "domain ln' = pad l" "child ln' = None"
        "elem_ok ln'" "\<forall>k < RR_ARR_LEN. records ln' k = (if k = e then [rr] else [])"
        using append_fresh [OF prems(5,6), of l] by blast
      have "insert_result tn1 (l # ls) e rr (if accepts (kid_lookup (fresh_node l) ls e) rr then 1 else -1)
          (put_at tn1 pl ln')"
        using ln' True prems(5) by (intro insert_result_put [OF t1(1,3) k1 l(1)])
          (auto simp: kid_lookup_def fresh_node_ok records_fresh accepts_def)
      moreover have "accepts (kid_lookup (fresh_node l) ls e) rr" using kl [OF prems(5)] by (simp add: accepts_def)
      moreover have "insert_loop rr_hash tn m p (next_byte (tl (l # ls))) e rr = ret (1, put_at tn1 pl ln')"
        using True miss ins(1) t1(3) ln'(1) n1 by (subst insert_loop.simps) (simp add: next_byte_def)
      ultimately show ?thesis using insert_result_base [OF _ same prems(5)] by auto
    next
      case False
      have e0: "lookup tn (l # ks) k = []" for ks k by (simp add: None)
      define ln where "ln = set_child (fresh_node l) create_tree_node"
      have dl: "domain ln = pad l" by (simp add: ln_def)
      have n1': "node_ok tn1" using t1(1) by (rule tree_okD)
      let ?t = "put_at tn1 pl ln"
      have t2: "tree_ok ?t"
        by (rule tree_ok_put [OF t1(1,3) domain_fresh dl]) (auto simp: ln_def fresh_node_ok tree_ok_create)
      have k2: "kid ?t l' = (if l' = l then Some ln else kid tn1 l')" for l'
        by (rule put_at_kid [OF n1' t1(3) domain_fresh dl l(1)])
      have kl2: "kid_lookup ln ks k = []" if "k < RR_ARR_LEN" for ks k
        using that by (simp add: kid_lookup_def ln_def lookup_create records_fresh)
      have same2: "lookup ?t ks k = lookup tn ks k" if "k < RR_ARR_LEN" for ks k
        using lookup_updated [of ?t l ln tn1, OF k2] that kl2 same [OF that] e0
        by (cases ks) (auto simp del: lookup.simps(2))
      have "insert_loop rr_hash tn m p (next_byte ls) e rr = insert_loop rr_hash ?t m p (next_byte ls) e rr"
        using False miss ins(1) t1(3) n1 next_byte_zero [OF l(2)]
        by (subst insert_loop.simps) (simp add: ln_def)
      moreover have "\<exists>r tn'. insert_loop rr_hash ?t m p (next_byte ls) e rr = ret (r, tn') \<and>
          insert_result ?t (l # ls) e rr r tn'"
        using t2 k2 prems(7) same2 [OF prems(5)] by (intro found [of ?t ln]) (simp_all del: lookup.simps(2))
      ultimately show ?thesis using insert_result_base [OF _ same2 prems(5)] by auto
    qed
  qed
qed simp

section \<open>Searching\<close>

lemma copy_records_ok:
  "\<forall>x \<in> set (take k xs). \<exists>rr. x = Some rr \<and> wf_rr rr \<Longrightarrow> k \<le> length xs \<Longrightarrow> i + k \<le> length dest \<Longrightarrow>
     copy_records xs k dest i = ret (take i dest @ map the (take k xs) @ drop (i + k) dest)"
proof (induction k arbitrary: xs dest i)
  case (Suc k)
  then obtain x xs' where xs: "xs = x # xs'" by (cases xs) auto
  then obtain rr where rr: "x = Some rr" "wf_rr rr" using Suc.prems(1) by auto
  have i: "i < length dest" using Suc.prems(3) by simp
  have "copy_records xs' k (dest[i := rr]) (Suc i) =
      ret (take (Suc i) (dest[i := rr]) @ map the (take k xs') @ drop (Suc i + k) (dest[i := rr]))"
    using Suc.prems xs by (intro Suc.IH) simp_all
  moreover have "take (Suc i) (dest[i := rr]) = take i dest @ [rr]"
    using i by (simp add: take_Suc_conv_app_nth)
  ultimately show ?case using xs rr i rr_copy_wf [OF rr(2)] by simp
qed simp

lemma search_loop_ok:
  "tree_ok tn \<Longrightarrow> ls \<noteq> [] \<Longrightarrow> \<forall>l \<in> set ls. wf_lab l \<Longrightarrow> holds_at m p (enc_name ls) \<Longrightarrow> e < RR_ARR_LEN \<Longrightarrow>
     length (lookup tn ls e) \<le> length dest \<Longrightarrow>
     search_loop (Some tn) dest m p (next_byte (tl ls)) e =
       ret (int (length (lookup tn ls e)), lookup tn ls e @ drop (length (lookup tn ls e)) dest)"
proof (induction ls arbitrary: tn p)
  case (Cons l ls)
  note prems = Cons.prems
  have l: "wf_lab l" "\<forall>l \<in> set ls. wf_lab l" using prems(3) by simp_all
  note h = holds_name [OF prems(4)]
  have n: "node_ok tn" using prems(1) by (rule tree_okD)
  have n1: "rd8 m p = ret (next_byte (l # ls))" "next_byte (l # ls) \<noteq> 0" "uint (next_byte (l # ls)) = int (length l)"
    using holds_name_first [OF prems(4)] next_byte_Cons [OF l(1)] by blast+
  show ?case
  proof (cases "kid tn l")
    case None
    then have "tree_node_find tn m p = ret None"
      using find_ok [OF n l(1) h(1)] by (auto split: option.splits)
    with None n1 show ?thesis by (subst search_loop.simps) simp
  next
    case (Some ln)
    then obtain pl where pl: "tree_node_find tn m p = ret (Some pl)" "get_at tn pl = Some ln"
      using find_ok [OF n l(1) h(1)] by (auto split: option.splits)
    have ln: "ln \<in> set (kids tn)" using Some by (simp add: kid_iff [OF n])
    have el: "elem_ok ln" using tree_okD(2) [OF prems(1) ln] .
    show ?thesis
    proof (cases "ls = []")
      case True
      have len: "length (records ln e) = unat (data_cnt ln ! e)" using length_records [OF el prems(5)] .
      then have "copy_records (data ln ! e) (unat (data_cnt ln ! e)) dest 0 =
          ret (records ln e @ drop (length (records ln e)) dest)"
        using copy_records_ok [of "unat (data_cnt ln ! e)" "data ln ! e" 0 dest] el prems(5,6) True Some
        by (simp add: records_def elem_ok_def)
      moreover have "uint (data_cnt ln ! e) = int (length (records ln e))" using len by simp
      ultimately show ?thesis
        using True Some n1 pl by (subst search_loop.simps) (simp add: next_byte_def)
    next
      case False
      have step: "search_loop (Some tn) dest m p (next_byte (tl (l # ls))) e =
          search_loop (child ln) dest m (p + int (length l) + 1) (next_byte (tl ls)) e"
        using False n1 pl holds_name_next [OF prems(4) l False] next_byte_zero [OF l(2)]
        by (subst search_loop.simps) simp
      show ?thesis
      proof (cases "child ln")
        case None
        have "search_loop None dest m (p + int (length l) + 1) (next_byte (tl ls)) e = ret (0, dest)"
          using holds_name_next(1) [OF prems(4) l False] by (subst search_loop.simps) simp
        with step None Some False show ?thesis by simp
      next
        case (Some t)
        with \<open>kid tn l = Some ln\<close> False have lk: "lookup tn (l # ls) e = lookup t ls e" by simp
        have "tree_ok t" using tree_okD(3) [OF prems(1) ln Some] .
        from Cons.IH [OF this False l(2) h(2) prems(5)] prems(6) lk step Some show ?thesis
          by (simp del: lookup.simps(2))
      qed
    qed
  qed
qed simp

section \<open>The tree as a record store\<close>

declare lookup.simps(2) [simp del]

definition tree_valid :: "bucket_tree \<Rightarrow> bool" where
  "tree_valid t \<longleftrightarrow> tree_ok (root t) \<and> hash_fun t = rr_hash"

abbreviation stored :: "bucket_tree \<Rightarrow> label list \<Rightarrow> nat \<Rightarrow> resource_record list" where
  "stored t \<equiv> lookup (root t)"

text \<open>\<open>names m ls\<close>: the block \<open>m\<close> starts with the wire form of the non-empty list \<open>ls\<close> of labels the tree can hold.\<close>

definition names :: "mem \<Rightarrow> label list \<Rightarrow> bool" where
  "names m ls \<longleftrightarrow> ls \<noteq> [] \<and> (\<forall>l \<in> set ls. wf_lab l) \<and> holds_at m 0 (enc_name ls)"

lemma element_index_less: "element_index t = Some e \<Longrightarrow> e < RR_ARR_LEN"
  by (auto simp: element_index_def split: if_splits)

lemma names_next:
  assumes "names m ls"
  shows "rd8 m 0 = ret (next_byte ls)" "rd8 m (uint (next_byte ls) + 1) = ret (next_byte (tl ls))"
proof -
  from assms obtain l ks where ls: "ls = l # ks" "wf_lab l" "holds_at m 0 (enc_name (l # ks))"
    by (cases ls) (auto simp: names_def)
  then show "rd8 m 0 = ret (next_byte ls)" by (simp add: holds_name_first)
  show "rd8 m (uint (next_byte ls) + 1) = ret (next_byte (tl ls))"
    using holds_name_first [OF holds_name(2) [OF ls(3)]] next_byte_Cons [OF ls(2), of ks] ls(1) by simp
qed

lemma tree_valid_init: "tree_valid (tree_init rr_hash)" "stored (tree_init rr_hash) ls e = []"
  by (simp_all add: tree_valid_def tree_init_def tree_ok_create lookup_create)

lemma tree_insert_ok:
  assumes "tree_valid t" and "names m ls" and "wf_rr rr" and "element_index (rr_type rr) = Some e"
    and "comparable (stored t ls e) rr"
  shows "\<exists>t'. tree_insert t m rr = ret (if accepts (stored t ls e) rr then 1 else -1, t') \<and> tree_valid t' \<and>
    (\<forall>ls' k. k < RR_ARR_LEN \<longrightarrow> stored t' ls' k = stored t ls' k @
       (if ls' = ls \<and> k = e \<and> accepts (stored t ls e) rr then [rr] else []))"
proof -
  have e: "e < RR_ARR_LEN" using element_index_less [OF assms(4)] .
  have t: "tree_ok (root t)" "hash_fun t = rr_hash" using assms(1) by (simp_all add: tree_valid_def)
  have nm: "ls \<noteq> []" "\<forall>l \<in> set ls. wf_lab l" "holds_at m 0 (enc_name ls)"
    using assms(2) by (simp_all add: names_def)
  from insert_loop_ok [OF t(1) nm e assms(3,5)] obtain r tn' where
    "insert_loop rr_hash (root t) m 0 (next_byte (tl ls)) e rr = ret (r, tn')"
    "insert_result (root t) ls e rr r tn'" by blast
  then show ?thesis
    using t(2) names_next [OF assms(2)] assms(4)
    by (auto simp: tree_insert_def tree_valid_def insert_result_def)
qed

lemma tree_search_ok:
  assumes "tree_valid t" and "names m ls" and "element_index ty = Some e" and "length (stored t ls e) \<le> length dest"
  shows "tree_search t dest m ty =
    ret (int (length (stored t ls e)), stored t ls e @ drop (length (stored t ls e)) dest)"
proof -
  have nm: "ls \<noteq> []" "\<forall>l \<in> set ls. wf_lab l" "holds_at m 0 (enc_name ls)"
    using assms(2) by (simp_all add: names_def)
  have "tree_ok (root t)" using assms(1) by (simp add: tree_valid_def)
  from search_loop_ok [OF this nm element_index_less [OF assms(3)] assms(4)]
  show ?thesis using names_next [OF assms(2)] assms(3) by (simp add: tree_search_def)
qed

text \<open>What the tree promises to the database.\<close>

locale rr_store =
  fixes insert :: "'t \<Rightarrow> mem \<Rightarrow> resource_record \<Rightarrow> (int \<times> 't) run"
    and search :: "'t \<Rightarrow> resource_record list \<Rightarrow> mem \<Rightarrow> u16 \<Rightarrow> (int \<times> resource_record list) run"
    and valid :: "'t \<Rightarrow> bool"
    and content :: "'t \<Rightarrow> label list \<Rightarrow> nat \<Rightarrow> resource_record list"
  assumes insert_law: "valid t \<Longrightarrow> names m ls \<Longrightarrow> wf_rr rr \<Longrightarrow> element_index (rr_type rr) = Some e \<Longrightarrow>
      comparable (content t ls e) rr \<Longrightarrow>
      \<exists>t'. insert t m rr = ret (if accepts (content t ls e) rr then 1 else -1, t') \<and> valid t' \<and>
        (\<forall>ls' k. k < RR_ARR_LEN \<longrightarrow> content t' ls' k = content t ls' k @
           (if ls' = ls \<and> k = e \<and> accepts (content t ls e) rr then [rr] else []))"
    and search_law: "valid t \<Longrightarrow> names m ls \<Longrightarrow> element_index ty = Some e \<Longrightarrow>
      length (content t ls e) \<le> length dest \<Longrightarrow>
      search t dest m ty = ret (int (length (content t ls e)), content t ls e @ drop (length (content t ls e)) dest)"
begin

text \<open>A stored record is the last one a search for its name and type returns.\<close>

lemma insert_then_search:
  assumes "valid t" and "names m ls" and "names m' ls" and "wf_rr rr" and "element_index (rr_type rr) = Some e"
    and "comparable (content t ls e) rr" and "accepts (content t ls e) rr" and "Suc (length (content t ls e)) \<le> length dest"
  shows "\<exists>t'. insert t m rr = ret (1, t') \<and> search t' dest m' (rr_type rr) =
    ret (int (length (content t ls e)) + 1, content t ls e @ [rr] @ drop (Suc (length (content t ls e))) dest)"
proof -
  from insert_law [OF assms(1,2,4-6)] assms(7) element_index_less [OF assms(5)] obtain t' where
    t': "insert t m rr = ret (1, t')" "valid t'" "content t' ls e = content t ls e @ [rr]" by auto
  with search_law [OF t'(2) assms(3,5), of dest] assms(8) show ?thesis by (simp add: add.commute)
qed

text \<open>A refused record leaves every answer as it was.\<close>

lemma refused_unchanged:
  assumes "valid t" and "names m ls" and "wf_rr rr" and "element_index (rr_type rr) = Some e"
    and "comparable (content t ls e) rr" and "\<not> accepts (content t ls e) rr"
  shows "\<exists>t'. insert t m rr = ret (-1, t') \<and> valid t' \<and> (\<forall>ls' k. k < RR_ARR_LEN \<longrightarrow> content t' ls' k = content t ls' k)"
  using insert_law [OF assms(1-5)] assms(6) by auto

end

interpretation bt: rr_store tree_insert tree_search tree_valid stored
  by unfold_locales (rule tree_insert_ok tree_search_ok; assumption)+

section \<open>Properties\<close>

lemma names_sample: "names [1, 97, 0] [[97]]"
  by (simp add: names_def wf_lab_def enc_name_def enc_label_def rd8_def)

text \<open>C15: \<^verbatim>\<open>tree_insert\<close> implements the insertion into a map: for a name of labels of at most 49 bytes it
  terminates, keeps the tree well-formed (also when a node switches to hash buckets), appends the
  record at exactly one place, or, when four records are there or one with the same data, returns
  -1 and changes no answer.\<close>

theorem tree_insert_extends_map:
  assumes "tree_valid t" and "names rev_domain ls" and "wf_rr rr"
    and "element_index (rr_type rr) = Some e" and "comparable (stored t ls e) rr"
  shows "\<exists>t'. tree_insert t rev_domain rr = ret (if accepts (stored t ls e) rr then 1 else -1, t') \<and>
    tree_valid t' \<and>
    (\<forall>ls' k. k < RR_ARR_LEN \<longrightarrow> stored t' ls' k = stored t ls' k @
       (if ls' = ls \<and> k = e \<and> accepts (stored t ls e) rr then [rr] else []))"
  using assms by (rule tree_insert_ok)

theorem tree_insert_extends_map_witness:
  "\<exists>t'. tree_insert (tree_init rr_hash) [1, 97, 0] sample_rr = ret (1, t') \<and> stored t' [[97]] 0 = [sample_rr]"
proof -
  have "element_index (rr_type sample_rr) = Some 0" by (simp add: element_index_def sample_rr_def)
  then show ?thesis
    using tree_insert_extends_map [OF tree_valid_init(1) names_sample wf_sample_rr, of 0]
    by (auto simp: tree_valid_init(2) comparable_def accepts_def)
qed

text \<open>C26: \<^verbatim>\<open>tree_search\<close> returns copies of exactly the records stored under the name and kind, in the
  order of insertion, in front of the destination array.\<close>

theorem tree_search_returns_stored:
  assumes "tree_valid t" and "names revdom ls" and "element_index ty = Some e"
    and "length (stored t ls e) \<le> length dest"
  shows "tree_search t dest revdom ty =
    ret (int (length (stored t ls e)), stored t ls e @ drop (length (stored t ls e)) dest)"
  using assms by (rule tree_search_ok)

theorem tree_search_returns_stored_witness:
  "tree_search (tree_init rr_hash) [zero_rr] [1, 97, 0] RRTYPE_A = ret (0, [zero_rr])"
  using tree_search_returns_stored [OF tree_valid_init(1) names_sample, of RRTYPE_A 0 "[zero_rr]"]
  by (simp add: tree_valid_init(2) element_index_def)

text \<open>A record that the tree accepts is found by a search for its name and type, behind the records
  that were there before.\<close>

lemma tree_insert_then_search:
  assumes "tree_valid t" and "names m ls" and "names m' ls" and "wf_rr rr"
    and "element_index (rr_type rr) = Some e" and "comparable (stored t ls e) rr"
    and "accepts (stored t ls e) rr" and "Suc (length (stored t ls e)) \<le> length dest"
  shows "\<exists>t'. tree_insert t m rr = ret (1, t') \<and> tree_search t' dest m' (rr_type rr) =
    ret (int (length (stored t ls e)) + 1, stored t ls e @ [rr] @ drop (Suc (length (stored t ls e))) dest)"
  using assms by (rule bt.insert_then_search)

text \<open>A label of 50 bytes or more overruns the 50-byte array of a tree node: labels may have up to 63
  bytes, and there is no check.\<close>

lemma long_label_overflows:
  assumes "SUBDOMAIN_MAX \<le> length l" and "length l < 256" and "holds_at m p (enc_label l)"
  shows "tree_node_insert tn m p hf = fail OutOfBounds"
proof -
  have "wf_label l" using assms(1,2) by (auto simp: wf_label_def)
  moreover have "rd8 m p = ret (of_nat (length l))" using assms(3) by (simp add: enc_label_def)
  moreover have "rd_bytes m p (Suc (length l)) = ret (enc_label l)" using rd_bytes_holds_at [OF assms(3)] by simp
  moreover have "wr_bytes (domain create_linked_node) 0 (enc_label l) = fail OutOfBounds"
    using assms(1) by (auto simp: wr_bytes_def create_linked_node_def enc_label_def)
  ultimately show ?thesis by (simp add: tree_node_insert_def unat_length_label)
qed

lemma long_label_overflows_witness:
  "tree_node_insert create_tree_node (enc_label (replicate 50 97)) 0 rr_hash = fail OutOfBounds"
  by (rule long_label_overflows [of "replicate 50 97"]) simp_all

end
