(* ===== verification/Database.thy ===== *)
theory Database
  imports Trees_Map
begin

text \<open>
  The relay database (\<^verbatim>\<open>storage/database.c\<close>, \<^verbatim>\<open>utils/utils.c\<close>): loading address/name pairs from the relay
  file into the bucket tree, and looking a question up. The file is the list of its lines, as
  \<^verbatim>\<open>getline\<close> returns them; the address parser \<^verbatim>\<open>inet_pton\<close> and the string functions of the C library
  that the code uses are written out.
\<close>

section \<open>Library functions\<close>

abbreviation (input) DOT :: byte where "DOT \<equiv> 46"
abbreviation (input) COLON :: byte where "COLON \<equiv> 58"

definition is_space :: "byte \<Rightarrow> bool" where
  "is_space c \<longleftrightarrow> c = 32 \<or> (9 \<le> c \<and> c \<le> 13)"

definition tolower :: "byte \<Rightarrow> byte" where
  "tolower c = (if 65 \<le> c \<and> c \<le> 90 then c + 32 else c)"

definition digit_val :: "byte \<Rightarrow> nat option" where
  "digit_val c = (if 48 \<le> c \<and> c \<le> 57 then Some (unat c - 48) else None)"

definition xdigit_val :: "byte \<Rightarrow> nat option" where
  "xdigit_val c =
     (if 48 \<le> c \<and> c \<le> 57 then Some (unat c - 48)
      else if 97 \<le> c \<and> c \<le> 102 then Some (unat c - 87)
      else if 65 \<le> c \<and> c \<le> 70 then Some (unat c - 55)
      else None)"

text \<open>The C string in a block: it must end inside.\<close>

definition c_string :: "mem \<Rightarrow> byte list run" where
  "c_string m = (if 0 \<in> set m then ret (takeWhile (\<lambda>c. c \<noteq> 0) m) else fail OutOfBounds)"

text \<open>
  \<^verbatim>\<open>inet_pton(AF_INET, ..)\<close>: four decimal numbers up to 255 without leading zeros. \<open>cur\<close> is the number being
  read, if a digit of it was seen.
\<close>

fun pton4_loop :: "byte list \<Rightarrow> nat option \<Rightarrow> byte list \<Rightarrow> byte list option" where
  "pton4_loop [] cur out = (case cur of
       None \<Rightarrow> None
     | Some v \<Rightarrow> if length out = 3 then Some (out @ [of_nat v]) else None)"
| "pton4_loop (c # cs) cur out = (case digit_val c of
       Some d \<Rightarrow> (case cur of
           None \<Rightarrow> pton4_loop cs (Some d) out
         | Some v \<Rightarrow> if v = 0 \<or> 255 < v * 10 + d then None else pton4_loop cs (Some (v * 10 + d)) out)
     | None \<Rightarrow> (case cur of
           None \<Rightarrow> None
         | Some v \<Rightarrow> if c = DOT \<and> length out < 3 then pton4_loop cs None (out @ [of_nat v]) else None))"

definition inet_pton4 :: "byte list \<Rightarrow> byte list option" where
  "inet_pton4 s = pton4_loop s None []"

text \<open>
  \<^verbatim>\<open>inet_pton(AF_INET6, ..)\<close>: groups of up to four hexadecimal digits, one \<^verbatim>\<open>::\<close>, and a final dotted IPv4
  address are accepted. \<open>tok\<close> is the text from the start of the current group, \<open>n\<close> the number of its
  digits, \<open>gap\<close> the place of the \<^verbatim>\<open>::\<close> in the output.
\<close>

definition pton6_end :: "byte list \<Rightarrow> nat option \<Rightarrow> byte list option" where
  "pton6_end out gap = (case gap of
       None \<Rightarrow> if length out = 16 then Some out else None
     | Some g \<Rightarrow> if 16 \<le> length out then None
         else Some (take g out @ replicate (16 - length out) 0 @ drop g out))"

definition put_group :: "nat \<Rightarrow> byte list \<Rightarrow> byte list" where
  "put_group v out = out @ [of_nat (v div 256), of_nat (v mod 256)]"

fun pton6_loop :: "byte list \<Rightarrow> byte list \<Rightarrow> nat \<Rightarrow> nat \<Rightarrow> byte list \<Rightarrow> nat option \<Rightarrow> byte list option" where
  "pton6_loop [] tok n v out gap =
     (if n = 0 then pton6_end out gap
      else if 14 < length out then None
      else pton6_end (put_group v out) gap)"
| "pton6_loop (c # cs) tok n v out gap = (case xdigit_val c of
       Some d \<Rightarrow> if n = 4 then None else pton6_loop cs tok (Suc n) (v * 16 + d) out gap
     | None \<Rightarrow>
         if c = COLON then
           if n = 0 then (if gap \<noteq> None then None else pton6_loop cs cs 0 0 out (Some (length out)))
           else if cs = [] \<or> 14 < length out then None
           else pton6_loop cs cs 0 0 (put_group v out) gap
         else if c = DOT \<and> length out \<le> 12 then
           (case inet_pton4 tok of None \<Rightarrow> None | Some q \<Rightarrow> pton6_end (out @ q) gap)
         else None)"

definition inet_pton6 :: "byte list \<Rightarrow> byte list option" where
  "inet_pton6 s = (case s of
       c # cs \<Rightarrow> if c = COLON \<and> (cs = [] \<or> hd cs \<noteq> COLON) then None
         else let s' = (if c = COLON then cs else s) in pton6_loop s' s' 0 0 [] None
     | [] \<Rightarrow> pton6_loop [] [] 0 0 [] None)"

section \<open>Addresses\<close>

text \<open>An address is the bytes it has in memory; the result is -1 and the old value on a bad format.\<close>

definition ipv4_convert :: "mem \<Rightarrow> byte list \<Rightarrow> (int \<times> byte list) run" where
  "ipv4_convert src dest = bind_run (c_string src) (\<lambda>s.
     ret (case inet_pton4 s of Some a \<Rightarrow> (1, a) | None \<Rightarrow> (-1, dest)))"

definition ipv6_convert :: "mem \<Rightarrow> byte list \<Rightarrow> (int \<times> byte list) run" where
  "ipv6_convert src dest = bind_run (c_string src) (\<lambda>s.
     ret (case inet_pton6 s of Some a \<Rightarrow> (1, a) | None \<Rightarrow> (-1, dest)))"

section \<open>Text of a relay line\<close>

definition str_lower :: "mem \<Rightarrow> mem run" where
  "str_lower m = bind_run (c_string m) (\<lambda>s. ret (map tolower s @ drop (length s) m))"

text \<open>One \<^verbatim>\<open>%1024s\<close> of \<^verbatim>\<open>sscanf\<close>: skip white space, then take at most 1024 other characters.\<close>

definition scan_word :: "byte list \<Rightarrow> (byte list \<times> byte list) option" where
  "scan_word s =
     (let r = dropWhile is_space s; w = take 1024 (takeWhile (\<lambda>c. \<not> is_space c) r)
      in if w = [] then None else Some (w, drop (length w) r))"

text \<open>A conversion that fails ends the scan and leaves the remaining buffers as they are.\<close>

definition sscanf2 :: "byte list \<Rightarrow> mem \<Rightarrow> mem \<Rightarrow> (mem \<times> mem) run" where
  "sscanf2 line buf1 buf2 = (case scan_word line of
       None \<Rightarrow> ret (buf1, buf2)
     | Some (w1, rest) \<Rightarrow>
         bind_run (wr_bytes buf1 0 (w1 @ [0])) (\<lambda>buf1.
         case scan_word rest of
           None \<Rightarrow> ret (buf1, buf2)
         | Some (w2, _) \<Rightarrow> bind_run (wr_bytes buf2 0 (w2 @ [0])) (\<lambda>buf2. ret (buf1, buf2))))"

text \<open>
  \<^verbatim>\<open>format_domain\<close> on the text \<open>s\<close>: the loop over \<^verbatim>\<open>strtok(.., ".")\<close>, writing each token with its length at \<open>dp\<close>.
  The third result is what \<^verbatim>\<open>strtok\<close> leaves of the text: the dot behind each token becomes a zero.
\<close>

function format_loop :: "byte list \<Rightarrow> mem \<Rightarrow> ptr \<Rightarrow> int \<Rightarrow> (int \<times> mem \<times> ptr \<times> byte list) run" where
  "format_loop s dest dp dlen =
     (let skipped = takeWhile (\<lambda>c. c = DOT) s; r = dropWhile (\<lambda>c. c = DOT) s in
      if r = [] then ret (dlen, dest, dp, s)
      else
        let token = takeWhile (\<lambda>c. c \<noteq> DOT) r; rest = dropWhile (\<lambda>c. c \<noteq> DOT) r; n = length token in
        bind_run (wr8 dest dp (of_nat n)) (\<lambda>dest.
        bind_run (wr_bytes dest (dp + 1) token) (\<lambda>dest.
        bind_run (format_loop (tl rest) dest (dp + 1 + int n) (dlen + (int n + 1)))
          (\<lambda>(dlen', dest', dp', left).
        ret (dlen', dest', dp', skipped @ token @ (if rest = [] then [] else 0 # left))))))"
  by pat_completeness auto
termination
proof (relation "measure (\<lambda>(s, dest, dp, dlen). length s)", goal_cases)
  case (2 s dest dp dlen skipped r token rest n)
  have "length rest \<le> length r" "length r \<le> length s"
    unfolding \<open>rest = _\<close> \<open>r = _\<close> by (rule length_dropWhile_le)+
  moreover have "0 < length r" using \<open>r \<noteq> []\<close> by simp
  ultimately show ?case by (cases rest) auto
qed simp

declare format_loop.simps [simp del, code]

definition format_domain :: "mem \<Rightarrow> mem \<Rightarrow> (int \<times> mem \<times> mem) run" where
  "format_domain dest src =
     bind_run (c_string src) (\<lambda>s.
     if dropWhile (\<lambda>c. c = DOT) s = [] then ret (-1, dest, src)
     else
       bind_run (format_loop s dest 0 0) (\<lambda>(dlen, dest, dp, left).
       bind_run (wr8 dest dp 0) (\<lambda>dest.
       ret (dlen + 1, dest, left @ drop (length s) src))))"

section \<open>The database\<close>

record database =
  tree :: bucket_tree

definition insert_database :: "database \<Rightarrow> resource_record \<Rightarrow> (int \<times> database) run" where
  "insert_database db rr =
     bind_run (domain_len (rr_name rr)) (\<lambda>dlen.
     if dlen < 0 then ret (-1, db)
     else
       bind_run (deref (rr_name rr)) (\<lambda>nm.
       bind_run (domain_rev (replicate DOMAIN_BUF_LEN 0) nm) (\<lambda>revbuf.
       bind_run (tree_insert (tree db) revbuf rr) (\<lambda>(r, t). ret (r, db\<lparr>tree := t\<rparr>)))))"

definition select_database ::
  "database \<Rightarrow> message_question \<Rightarrow> resource_record list \<Rightarrow> (int \<times> resource_record list) run"
where
  "select_database db msgq dest =
     bind_run (domain_len (qname msgq)) (\<lambda>dlen.
     if dlen < 0 then ret (0, dest)
     else
       bind_run (deref (qname msgq)) (\<lambda>nm.
       bind_run (domain_rev (replicate DOMAIN_BUF_LEN 0) nm) (\<lambda>revbuf.
       tree_search (tree db) dest revbuf (qtype msgq))))"

text \<open>The buffers of \<^verbatim>\<open>init_database\<close>, which keep their contents from one line to the next.\<close>

record relay_buffers =
  domainbuf :: mem
  ipbuf :: mem
  formatd :: mem
  formatip :: mem

text \<open>The address of the line, with the record type and the data length that go with it.\<close>

definition relay_address :: "relay_buffers \<Rightarrow> (u16 \<times> u16 \<times> relay_buffers) option run" where
  "relay_address b =
     bind_run (ipv4_convert (ipbuf b) [0, 0, 0, 0]) (\<lambda>(r4, ipv4).
     if r4 < 0 then
       bind_run (ipv6_convert (ipbuf b) (replicate 16 0)) (\<lambda>(r6, ipv6).
       if r6 < 0 then ret None
       else bind_run (wr_bytes (formatip b) 0 ipv6) (\<lambda>f. ret (Some (RRTYPE_AAAA, 16, b\<lparr>formatip := f\<rparr>))))
     else bind_run (wr_bytes (formatip b) 0 ipv4) (\<lambda>f. ret (Some (RRTYPE_A, 4, b\<lparr>formatip := f\<rparr>))))"

definition relay_line :: "byte list \<Rightarrow> relay_buffers \<Rightarrow> database \<Rightarrow> (relay_buffers \<times> database) run" where
  "relay_line line b db =
     (if 2048 < length line then ret (b, db)
      else
        bind_run (sscanf2 (takeWhile (\<lambda>c. c \<noteq> 0) line) (ipbuf b) (domainbuf b)) (\<lambda>(ip, dm).
        bind_run (str_lower dm) (\<lambda>dm.
        let b = b\<lparr>ipbuf := ip, domainbuf := dm\<rparr> in
        bind_run (relay_address b) (\<lambda>addr. case addr of
          None \<Rightarrow> ret (b, db)
        | Some (rrtype, rdlen, b) \<Rightarrow>
            bind_run (format_domain (formatd b) (domainbuf b)) (\<lambda>(dlen, fd, dm).
            let b = b\<lparr>formatd := fd, domainbuf := dm\<rparr> in
            if dlen < 0 \<or> DOMAIN_LEN_MAX \<le> dlen then ret (b, db)
            else
              bind_run (create_resource_record (formatd b) rrtype RRCLASS_IN 0 rdlen (formatip b)) (\<lambda>rr.
              bind_run (insert_database db rr) (\<lambda>(_, db). ret (b, db)))))))) "

fun relay_lines :: "byte list list \<Rightarrow> relay_buffers \<Rightarrow> database \<Rightarrow> database run" where
  "relay_lines [] b db = ret db"
| "relay_lines (line # lines) b db =
     bind_run (relay_line line b db) (\<lambda>(b, db). relay_lines lines b db)"

text \<open>\<^verbatim>\<open>file\<close> is \<^term>\<open>None\<close> when it cannot be opened; \<open>b\<close> is the stack space of the buffers.\<close>

definition init_database :: "byte list list option \<Rightarrow> relay_buffers \<Rightarrow> (int \<times> database) run" where
  "init_database file b =
     (let db = \<lparr>tree = tree_init rr_hash\<rparr> in
      case file of None \<Rightarrow> ret (-1, db)
      | Some lines \<Rightarrow> bind_run (relay_lines lines b db) (\<lambda>db. ret (1, db)))"

end
