(* ===== verification/Database_Props.thy ===== *)
theory Database_Props
  imports Database
begin

text \<open>
  The database: inserting a record and selecting by a question agree, the text of a name is turned
  into its wire form, and a relay line adds exactly the record it describes.
\<close>

section \<open>Inserting and selecting\<close>

definition db_lookup :: "database \<Rightarrow> label list \<Rightarrow> nat \<Rightarrow> resource_record list" where
  "db_lookup db ls e = stored (tree db) (rev ls) e"

definition db_valid :: "database \<Rightarrow> bool" where
  "db_valid db \<longleftrightarrow> tree_valid (tree db)"

text \<open>A name the database can hold.\<close>

definition db_name :: "label list \<Rightarrow> bool" where
  "db_name ls \<longleftrightarrow> ls \<noteq> [] \<and> (\<forall>l \<in> set ls. wf_lab l) \<and> length (enc_name ls) \<le> 255"

lemma nul_free_enc_labels: "\<forall>l \<in> set ls. wf_lab l \<Longrightarrow> nul_free (enc_labels ls)"
  using nul_free_enc_label by (induction ls) auto

lemma db_name_c_name: "db_name ls \<Longrightarrow> c_name (Some (enc_name ls))"
  by (simp add: db_name_def c_name_def enc_name_def nul_free_enc_labels)

lemma rev_name:
  assumes "db_name ls"
  shows "\<exists>revbuf. domain_rev (replicate DOMAIN_BUF_LEN 0) (enc_name ls) = ret revbuf \<and> names revbuf (rev ls)"
proof -
  let ?z = "replicate DOMAIN_BUF_LEN 0 :: mem"
  have wf: "\<forall>l \<in> set ls. wf_label l" using assms wf_lab_wf_label by (auto simp: db_name_def)
  have len: "length (enc_labels ls) \<le> DOMAIN_BUF_LEN" "length (enc_name ls) \<le> length ?z"
    using assms by (simp_all add: db_name_def)
  have "domain_rev ?z (enc_name ls) = ret (overlay ?z 0 (enc_name (rev ls)))"
    by (rule domain_rev_spec [OF wf holds_at_self len])
  moreover have "holds_at (overlay ?z 0 (enc_name (rev ls))) 0 (enc_name (rev ls))"
    using len by (intro holds_at_overlay) (simp add: fits_def)
  ultimately show ?thesis using assms by (auto simp: names_def db_name_def)
qed

lemma insert_database_ok:
  assumes "db_valid db" and "db_name ls" and "rr_name rr = Some (enc_name ls)" and "wf_rr rr"
    and "element_index (rr_type rr) = Some e" and "comparable (db_lookup db ls e) rr"
  shows "\<exists>db'. insert_database db rr = ret (if accepts (db_lookup db ls e) rr then 1 else -1, db') \<and>
    db_valid db' \<and> (\<forall>ls' k. k < RR_ARR_LEN \<longrightarrow> db_lookup db' ls' k = db_lookup db ls' k @
      (if ls' = ls \<and> k = e \<and> accepts (db_lookup db ls e) rr then [rr] else []))"
proof -
  obtain revbuf where rev: "domain_rev (replicate DOMAIN_BUF_LEN 0) (enc_name ls) = ret revbuf"
    "names revbuf (rev ls)" using rev_name [OF assms(2)] by blast
  have dl: "domain_len (Some (enc_name ls)) = ret (int (length (enc_name ls)))"
    using domain_len_c_name [OF db_name_c_name [OF assms(2)]] by simp
  have tv: "tree_valid (tree db)" "comparable (stored (tree db) (rev ls) e) rr"
    using assms(1,6) by (simp_all add: db_valid_def db_lookup_def)
  from bt.insert_law [OF tv(1) rev(2) assms(4,5) tv(2)] obtain t' where
    t': "tree_insert (tree db) revbuf rr = ret (if accepts (db_lookup db ls e) rr then 1 else -1, t')"
      "tree_valid t'" "\<forall>ls' k. k < RR_ARR_LEN \<longrightarrow> stored t' ls' k = stored (tree db) ls' k @
        (if ls' = rev ls \<and> k = e \<and> accepts (db_lookup db ls e) rr then [rr] else [])"
    unfolding db_lookup_def by blast
  have "insert_database db rr = ret (if accepts (db_lookup db ls e) rr then 1 else -1, db\<lparr>tree := t'\<rparr>)"
    using dl assms(3) rev(1) t'(1) by (simp add: insert_database_def)
  with t'(2,3) show ?thesis by (auto simp: db_valid_def db_lookup_def)
qed

lemma select_database_ok:
  assumes "db_valid db" and "db_name ls" and "qname q = Some (enc_name ls)"
    and "element_index (qtype q) = Some e" and "length (db_lookup db ls e) \<le> length dest"
  shows "select_database db q dest =
    ret (int (length (db_lookup db ls e)), db_lookup db ls e @ drop (length (db_lookup db ls e)) dest)"
proof -
  obtain revbuf where rev: "domain_rev (replicate DOMAIN_BUF_LEN 0) (enc_name ls) = ret revbuf"
    "names revbuf (rev ls)" using rev_name [OF assms(2)] by blast
  have dl: "domain_len (Some (enc_name ls)) = ret (int (length (enc_name ls)))"
    using domain_len_c_name [OF db_name_c_name [OF assms(2)]] by simp
  have "tree_search (tree db) dest revbuf (qtype q) =
      ret (int (length (db_lookup db ls e)), db_lookup db ls e @ drop (length (db_lookup db ls e)) dest)"
    using bt.search_law [OF _ rev(2) assms(4)] assms(1,5) by (simp add: db_valid_def db_lookup_def)
  with dl assms(3) rev(1) show ?thesis by (simp add: select_database_def)
qed

section \<open>Names in text form\<close>

fun dotted :: "label list \<Rightarrow> byte list" where
  "dotted [] = []"
| "dotted [l] = l"
| "dotted (l # ls) = l @ DOT # dotted ls"

definition text_label :: "label \<Rightarrow> bool" where
  "text_label l \<longleftrightarrow> l \<noteq> [] \<and> DOT \<notin> set l \<and> length l < 256"

lemma dotted_Cons: "dotted (l # ls) = l @ (if ls = [] then [] else DOT # dotted ls)"
  by (cases ls) auto

text \<open>The first token of a dotted name, and what is left of it.\<close>

lemma dotted_token:
  assumes "text_label l"
  shows "dropWhile (\<lambda>c. c = DOT) (dotted (l # ls)) = dotted (l # ls)"
    "takeWhile (\<lambda>c. c = DOT) (dotted (l # ls)) = []" "dotted (l # ls) \<noteq> []"
    "takeWhile (\<lambda>c. c \<noteq> DOT) (dotted (l # ls)) = l"
    "tl (dropWhile (\<lambda>c. c \<noteq> DOT) (dotted (l # ls))) = dotted ls"
    "dropWhile (\<lambda>c. c \<noteq> DOT) (dotted (l # ls)) = [] \<longleftrightarrow> ls = []"
proof -
  obtain c cs where l: "l = c # cs" "c \<noteq> DOT" using assms by (cases l) (auto simp: text_label_def)
  then show "dropWhile (\<lambda>c. c = DOT) (dotted (l # ls)) = dotted (l # ls)"
    "takeWhile (\<lambda>c. c = DOT) (dotted (l # ls)) = []" "dotted (l # ls) \<noteq> []"
    by (simp_all add: dotted_Cons)
  have all: "\<forall>c \<in> set l. c \<noteq> DOT" using assms by (auto simp: text_label_def)
  then have "takeWhile (\<lambda>c. c \<noteq> DOT) (l @ xs) = l @ takeWhile (\<lambda>c. c \<noteq> DOT) xs"
    "dropWhile (\<lambda>c. c \<noteq> DOT) (l @ xs) = dropWhile (\<lambda>c. c \<noteq> DOT) xs" for xs
    by (simp_all add: takeWhile_append2 dropWhile_append2)
  then show "takeWhile (\<lambda>c. c \<noteq> DOT) (dotted (l # ls)) = l"
    "tl (dropWhile (\<lambda>c. c \<noteq> DOT) (dotted (l # ls))) = dotted ls"
    "dropWhile (\<lambda>c. c \<noteq> DOT) (dotted (l # ls)) = [] \<longleftrightarrow> ls = []"
    by (simp_all add: dotted_Cons)
qed

lemma format_loop_step:
  assumes "text_label l"
  shows "format_loop (dotted (l # ls)) dest dp dlen =
    bind_run (wr_bytes dest dp (enc_label l)) (\<lambda>dest.
    bind_run (format_loop (dotted ls) dest (dp + int (length (enc_label l))) (dlen + int (length (enc_label l))))
      (\<lambda>(dlen', dest', dp', left). ret (dlen', dest', dp', l @ (if ls = [] then [] else 0 # left))))"
proof -
  have w: "bind_run (wr8 dest dp (of_nat (length l))) (\<lambda>d. bind_run (wr_bytes d (dp + 1) l) K) =
      bind_run (wr_bytes dest dp (enc_label l)) K" for K :: "mem \<Rightarrow> (int \<times> mem \<times> ptr \<times> byte list) run"
    by (simp add: wr8_then_bytes enc_label_def)
  have "format_loop (dotted (l # ls)) dest dp dlen =
      bind_run (wr8 dest dp (of_nat (length l))) (\<lambda>dest. bind_run (wr_bytes dest (dp + 1) l) (\<lambda>dest.
      bind_run (format_loop (dotted ls) dest (dp + 1 + int (length l)) (dlen + (int (length l) + 1)))
        (\<lambda>(dlen', dest', dp', left). ret (dlen', dest', dp', l @ (if ls = [] then [] else 0 # left)))))"
    by (subst format_loop.simps) (simp add: dotted_token [OF assms] Let_def del: dropWhile_eq_Nil_conv)
  then show ?thesis unfolding w by (simp add: ac_simps)
qed

lemma format_loop_ok:
  "\<forall>l \<in> set ls. text_label l \<Longrightarrow> fits dest dp (length (enc_labels ls)) \<Longrightarrow>
     \<exists>left. format_loop (dotted ls) dest dp dlen =
       ret (dlen + int (length (enc_labels ls)), overlay dest dp (enc_labels ls),
            dp + int (length (enc_labels ls)), left) \<and> length left = length (dotted ls)"
proof (induction ls arbitrary: dest dp dlen)
  case Nil
  then show ?case by (subst format_loop.simps) simp
next
  case (Cons l ls)
  have l: "text_label l" using Cons.prems(1) by simp
  have f: "fits dest dp (length (enc_label l) + length (enc_labels ls))" using Cons.prems(2) by simp
  then have f1: "fits dest dp (length (enc_label l))" by (rule fits_mono) simp
  with f have f2: "fits (overlay dest dp (enc_label l)) (dp + int (length (enc_label l))) (length (enc_labels ls))"
    by (subst fits_overlay [OF f1]) (rule fits_shift)
  obtain left where left: "format_loop (dotted ls) (overlay dest dp (enc_label l)) (dp + int (length (enc_label l)))
      (dlen + int (length (enc_label l))) =
      ret (dlen + int (length (enc_label l)) + int (length (enc_labels ls)),
           overlay (overlay dest dp (enc_label l)) (dp + int (length (enc_label l))) (enc_labels ls),
           dp + int (length (enc_label l)) + int (length (enc_labels ls)), left)"
    "length left = length (dotted ls)"
    using Cons.IH [OF _ f2, of "dlen + int (length (enc_label l))"] Cons.prems(1) by auto
  show ?case
    using left f f1 by (subst format_loop_step [OF l])
      (simp add: wr_bytes_fits overlay_append dotted_Cons del: length_enc_label)
qed

lemma format_loop_overflow:
  "\<forall>l \<in> set ls. text_label l \<Longrightarrow> 0 \<le> dp \<Longrightarrow> dp \<le> int (length dest) \<Longrightarrow>
     int (length dest) < dp + int (length (enc_labels ls)) \<Longrightarrow>
     format_loop (dotted ls) dest dp dlen = fail OutOfBounds"
proof (induction ls arbitrary: dest dp dlen)
  case (Cons l ls)
  have l: "text_label l" using Cons.prems(1) by simp
  show ?case
  proof (cases "fits dest dp (length (enc_label l))")
    case True
    then have len: "length (overlay dest dp (enc_label l)) = length dest" by (rule length_overlay)
    have "format_loop (dotted ls) (overlay dest dp (enc_label l)) (dp + int (length (enc_label l)))
        (dlen + int (length (enc_label l))) = fail OutOfBounds"
      using Cons.prems True by (intro Cons.IH) (auto simp: len fits_def)
    with True show ?thesis by (subst format_loop_step [OF l]) (simp add: wr_bytes_fits del: length_enc_label)
  next
    case False
    then have "wr_bytes dest dp (enc_label l) = fail OutOfBounds"
      by (auto simp: wr_bytes_def fits_def enc_label_def)
    then show ?thesis by (subst format_loop_step [OF l]) simp
  qed
qed simp

lemma c_string_nul: "nul_free s \<Longrightarrow> c_string (s @ 0 # junk) = ret s"
  by (simp add: c_string_def)

lemma format_domain_ok:
  assumes "ls \<noteq> []" and "\<forall>l \<in> set ls. text_label l" and "nul_free (dotted ls)"
    and "length (enc_name ls) \<le> length dest"
  shows "\<exists>src'. format_domain dest (dotted ls @ 0 # junk) =
    ret (int (length (enc_name ls)), overlay dest 0 (enc_name ls), src')"
proof -
  obtain l ks where ls: "ls = l # ks" using assms(1) by (cases ls) auto
  then have ne: "dropWhile (\<lambda>c. c = DOT) (dotted ls) \<noteq> []" using dotted_token(1,3) [of l ks] assms(2) by simp
  have f: "fits dest 0 (length (enc_labels ls))" using assms(4) by (simp add: fits_def)
  obtain left where left: "format_loop (dotted ls) dest 0 0 = ret (int (length (enc_labels ls)),
      overlay dest 0 (enc_labels ls), int (length (enc_labels ls)), left)"
    using format_loop_ok [OF assms(2) f, of 0] by auto
  have "wr8 (overlay dest 0 (enc_labels ls)) (int (length (enc_labels ls))) 0 = ret (overlay dest 0 (enc_name ls))"
    using f assms(4) overlay_append [of dest 0 "enc_labels ls" "[0]"]
    by (subst wr8_fits) (auto simp: fits_def enc_name_def)
  with left ne assms(3) show ?thesis
    by (simp add: format_domain_def c_string_nul add.commute)
qed

lemma format_domain_overflow:
  assumes "ls \<noteq> []" and "\<forall>l \<in> set ls. text_label l" and "nul_free (dotted ls)"
    and "length dest < length (enc_name ls)"
  shows "format_domain dest (dotted ls @ 0 # junk) = fail OutOfBounds"
proof -
  obtain l ks where ls: "ls = l # ks" using assms(1) by (cases ls) auto
  then have ne: "dropWhile (\<lambda>c. c = DOT) (dotted ls) \<noteq> []" using dotted_token(1,3) [of l ks] assms(2) by simp
  show ?thesis
  proof (cases "length dest < length (enc_labels ls)")
    case True
    then have "format_loop (dotted ls) dest 0 0 = fail OutOfBounds"
      by (intro format_loop_overflow [OF assms(2)]) simp_all
    with ne assms(3) show ?thesis by (simp add: format_domain_def c_string_nul)
  next
    case False
    then have len: "length (enc_labels ls) = length dest" using assms(4) by simp
    then have f: "fits dest 0 (length (enc_labels ls))" by (simp add: fits_def)
    obtain left where left: "format_loop (dotted ls) dest 0 0 = ret (int (length (enc_labels ls)),
        overlay dest 0 (enc_labels ls), int (length (enc_labels ls)), left)"
      using format_loop_ok [OF assms(2) f, of 0] by auto
    have "wr8 (overlay dest 0 (enc_labels ls)) (int (length (enc_labels ls))) 0 = fail OutOfBounds"
      using f len by (intro wr8_not_fits) (simp add: fits_def)
    with left ne assms(3) show ?thesis by (simp add: format_domain_def c_string_nul)
  qed
qed

section \<open>Relay lines\<close>

definition host_label :: "label \<Rightarrow> bool" where
  "host_label l \<longleftrightarrow> l \<noteq> [] \<and> length l < SUBDOMAIN_MAX \<and> (\<forall>c \<in> set l. c \<noteq> DOT \<and> c \<noteq> 0 \<and> \<not> is_space c)"

definition host_name :: "label list \<Rightarrow> bool" where
  "host_name ls \<longleftrightarrow> ls \<noteq> [] \<and> (\<forall>l \<in> set ls. host_label l) \<and> length (enc_name ls) < 255"

definition lower :: "label list \<Rightarrow> label list" where
  "lower ls = map (map tolower) ls"

text \<open>An IPv4 or IPv6 address in text form, as it stands in a relay line, and the kind of records it belongs to.\<close>

definition address_text :: "byte list \<Rightarrow> byte list \<Rightarrow> bool" where
  "address_text ip a \<longleftrightarrow> ip \<noteq> [] \<and> length ip < 1024 \<and> (\<forall>c \<in> set ip. c \<noteq> 0 \<and> \<not> is_space c) \<and>
     (inet_pton4 ip = Some a \<or> inet_pton4 ip = None \<and> inet_pton6 ip = Some a)"

definition relay_kind :: "byte list \<Rightarrow> nat" where
  "relay_kind a = (if length a = 4 then RR_ARR_A else RR_ARR_AAAA)"

text \<open>
  A relay line: an address, white space, a host name and possibly more white space, such as a line end with or without
  a carriage return. The entry has the text of the address, its bytes and the labels of the name.
\<close>

type_synonym relay_entry = "byte list \<times> byte list \<times> label list"

fun relay_text :: "relay_entry \<Rightarrow> byte list \<Rightarrow> bool" where
  "relay_text (ip, a, ls) line \<longleftrightarrow> address_text ip a \<and> host_name ls \<and> length line \<le> 2048 \<and>
     (\<exists>sp tail. line = ip @ sp @ dotted ls @ tail \<and> sp \<noteq> [] \<and> (\<forall>c \<in> set (sp @ tail). is_space c))"

definition relay_rr :: "byte list \<Rightarrow> label list \<Rightarrow> resource_record" where
  "relay_rr a ls = \<lparr>rr_name = Some (enc_name ls), rr_type = (if length a = 4 then RRTYPE_A else RRTYPE_AAAA),
     rr_class = RRCLASS_IN, ttl = 0, rdlength = of_nat (length a), rdata = Some a\<rparr>"

definition buffers_ok :: "relay_buffers \<Rightarrow> bool" where
  "buffers_ok b \<longleftrightarrow> length (domainbuf b) = 1024 \<and> length (ipbuf b) = 1024 \<and> length (formatd b) = 512 \<and>
     length (formatip b) = 1024"

lemma pton4_length: "pton4_loop s cur out = Some a \<Longrightarrow> length a = 4"
  by (induction s cur out rule: pton4_loop.induct) (auto split: option.splits if_splits)

lemma pton6_end_length: "pton6_end out gap = Some a \<Longrightarrow> length a = 16"
  by (auto simp: pton6_end_def split: option.splits if_splits)

lemma pton6_length: "pton6_loop s tok n v out gap = Some a \<Longrightarrow> length a = 16"
  by (induction s tok n v out gap rule: pton6_loop.induct) (auto split: option.splits if_splits dest: pton6_end_length)

lemma address_text_cases:
  assumes "address_text ip a"
  obtains "inet_pton4 ip = Some a" "length a = 4"
  | "inet_pton4 ip = None" "inet_pton6 ip = Some a" "length a = 16"
proof -
  consider "inet_pton4 ip = Some a" | "inet_pton4 ip = None" "inet_pton6 ip = Some a"
    using assms by (auto simp: address_text_def)
  then show ?thesis
  proof cases
    case 1
    with pton4_length [of ip None "[]" a] that(1) show ?thesis by (simp add: inet_pton4_def)
  next
    case 2
    then have "length a = 16" by (auto simp: inet_pton6_def Let_def simp del: pton6_loop.simps dest: pton6_length split: list.splits if_splits)
    with 2 that(2) show ?thesis by blast
  qed
qed

lemma tolower_simps:
  "tolower c = 0 \<longleftrightarrow> c = 0" "tolower c = DOT \<longleftrightarrow> c = DOT" "is_space (tolower c) \<longleftrightarrow> is_space c"
proof -
  have r: "97 \<le> c + 32" "c + 32 \<le> 122" if "65 \<le> c" "c \<le> 90"
    using that by (simp_all add: word_le_nat_alt unat_word_ariths)
  then show "tolower c = 0 \<longleftrightarrow> c = 0" "tolower c = DOT \<longleftrightarrow> c = DOT" "is_space (tolower c) \<longleftrightarrow> is_space c"
    by (auto simp: tolower_def is_space_def word_le_nat_alt)
qed

lemma host_label_lower: "host_label l \<Longrightarrow> host_label (map tolower l)"
  by (auto simp: host_label_def tolower_simps)

lemma length_enc_labels_lower: "length (enc_labels (lower ls)) = length (enc_labels ls)"
  by (induction ls) (simp_all add: lower_def)

lemma host_name_lower: "host_name ls \<Longrightarrow> host_name (lower ls)"
  using host_label_lower by (auto simp: host_name_def length_enc_labels_lower) (auto simp: lower_def)

lemma dotted_lower: "map tolower (dotted ls) = dotted (lower ls)"
  by (induction ls rule: dotted.induct) (simp_all add: lower_def tolower_def)

lemma host_name_facts:
  assumes "host_name ls"
  shows "\<forall>l \<in> set ls. text_label l" "\<forall>l \<in> set ls. wf_lab l" "nul_free (dotted ls)" "db_name ls"
    "\<forall>c \<in> set (dotted ls). \<not> is_space c" "dotted ls \<noteq> []" "length (dotted ls) < 255"
proof -
  have hl: "\<forall>l \<in> set ls. host_label l" "ls \<noteq> []" "length (enc_name ls) < 255"
    using assms by (simp_all add: host_name_def)
  then show "\<forall>l \<in> set ls. text_label l" by (auto simp: host_label_def text_label_def)
  show wf: "\<forall>l \<in> set ls. wf_lab l" using hl by (auto simp: host_label_def wf_lab_def nul_free_def)
  have set: "set (dotted ls) \<subseteq> insert DOT (\<Union> (set ` set ls))" by (induction ls rule: dotted.induct) auto
  have "c \<noteq> 0 \<and> \<not> is_space c" if "c \<in> set (dotted ls)" for c
  proof -
    from that set have "c = DOT \<or> (\<exists>l \<in> set ls. c \<in> set l)" by blast
    moreover have "\<not> is_space DOT" by (simp add: is_space_def)
    ultimately show ?thesis using hl(1) by (auto simp: host_label_def)
  qed
  then show "nul_free (dotted ls)" "\<forall>c \<in> set (dotted ls). \<not> is_space c" by (auto simp: nul_free_def)
  show "db_name ls" using hl wf by (simp add: db_name_def)
  have "length (dotted ls) \<le> length (enc_labels ls)" by (induction ls rule: dotted.induct) simp_all
  then show "length (dotted ls) < 255" using hl(3) by simp
  from hl(1,2) show "dotted ls \<noteq> []" by (cases ls) (auto simp: dotted_Cons host_label_def)
qed

lemma scan_word_ok:
  assumes "\<forall>c \<in> set w. \<not> is_space c" and "w \<noteq> []" and "length w \<le> 1024" and "\<forall>c \<in> set sp. is_space c"
    and "rest = [] \<or> is_space (hd rest)"
  shows "scan_word (sp @ w @ rest) = Some (w, rest)"
proof -
  have d: "dropWhile is_space (sp @ w @ rest) = w @ rest" using assms(1,2,4) by (cases w) (auto simp: dropWhile_append2)
  have t: "takeWhile (\<lambda>c. \<not> is_space c) (w @ rest) = w" using assms(1,5) by (cases rest) (auto simp: takeWhile_append2)
  show ?thesis using assms(2,3) by (simp add: scan_word_def Let_def d t)
qed

lemma sscanf2_relay:
  assumes "relay_text (ip, a, ls) line" and "length buf1 = 1024" and "length buf2 = 1024"
  shows "sscanf2 line buf1 buf2 =
    ret (ip @ 0 # drop (Suc (length ip)) buf1, dotted ls @ 0 # drop (Suc (length (dotted ls))) buf2)"
proof -
  from assms(1) obtain sp tail where line: "line = ip @ sp @ dotted ls @ tail" "sp \<noteq> []" "\<forall>c \<in> set sp. is_space c"
    "\<forall>c \<in> set tail. is_space c" and ok: "address_text ip a" "host_name ls" by auto
  have ip: "\<forall>c \<in> set ip. \<not> is_space c" "ip \<noteq> []" "length ip < 1024" using ok(1) by (auto simp: address_text_def)
  note d = host_name_facts(5,6,7) [OF ok(2)]
  have "is_space (hd (sp @ dotted ls @ tail))" using line(2,3) by (cases sp) simp_all
  then have "scan_word line = Some (ip, sp @ dotted ls @ tail)"
    using scan_word_ok [OF ip(1,2), of "[]" "sp @ dotted ls @ tail"] ip(3) line(1) by simp
  moreover have "tail = [] \<or> is_space (hd tail)" using line(4) by (cases tail) simp_all
  then have "scan_word (sp @ dotted ls @ tail) = Some (dotted ls, tail)"
    using d(3) line(3) by (intro scan_word_ok [OF d(1,2)]) simp_all
  moreover have "wr_bytes buf1 0 (ip @ [0]) = ret (ip @ 0 # drop (Suc (length ip)) buf1)"
    using ip(3) assms(2) by (simp add: wr_bytes_def)
  moreover have "wr_bytes buf2 0 (dotted ls @ [0]) = ret (dotted ls @ 0 # drop (Suc (length (dotted ls))) buf2)"
    using d(3) assms(3) by (simp add: wr_bytes_def)
  ultimately show ?thesis by (simp add: sscanf2_def)
qed

lemma wf_relay_rr: "db_name ls \<Longrightarrow> length a = 4 \<or> length a = 16 \<Longrightarrow> wf_rr (relay_rr a ls)"
  by (auto simp: wf_rr_def relay_rr_def db_name_c_name)

lemma create_relay_rr:
  assumes "host_name ls" and "length a = 4 \<or> length a = 16"
  shows "create_resource_record (enc_name ls @ junk) (if length a = 4 then RRTYPE_A else RRTYPE_AAAA) RRCLASS_IN 0
    (of_nat (length a)) (a @ junk') = ret (relay_rr a ls)"
proof -
  have nf: "nul_free (enc_labels ls)" "length (enc_labels ls) < 254"
    using assms(1) nul_free_enc_labels [OF host_name_facts(2)] by (simp_all add: host_name_def)
  then have "domain_len (Some (enc_name ls @ junk)) = ret (int (length (enc_name ls)))"
    using strnlen_cstring [OF nf(1), of 512 junk] by (simp add: domain_len_def enc_name_def)
  moreover have "rd_bytes (enc_name ls @ junk) 0 (length (enc_name ls)) = ret (enc_name ls)"
    by (simp add: rd_bytes_def)
  moreover have "rd_bytes (a @ junk') 0 (length a) = ret a" by (simp add: rd_bytes_def)
  moreover have "unat (of_nat (length a) :: u16) = length a" using assms(2) by auto
  ultimately show ?thesis using assms(2)
    by (auto simp: create_resource_record_def relay_rr_def simp del: length_enc_name)
qed

text \<open>The databases the relay file can build: all A records carry four bytes and all AAAA records sixteen.\<close>

definition relay_db :: "database \<Rightarrow> bool" where
  "relay_db db \<longleftrightarrow> db_valid db \<and> (\<forall>ls. (\<forall>x \<in> set (db_lookup db ls RR_ARR_A). rdlength x = 4) \<and>
     (\<forall>x \<in> set (db_lookup db ls RR_ARR_AAAA). rdlength x = 16))"

text \<open>What a line adds to the records of a name.\<close>

definition add_relay :: "byte list \<Rightarrow> label list \<Rightarrow> (label list \<Rightarrow> resource_record list) \<Rightarrow>
    label list \<Rightarrow> resource_record list" where
  "add_relay a ls m = (if accepts (m ls) (relay_rr a ls) then m(ls := m ls @ [relay_rr a ls]) else m)"

definition add_entry :: "nat \<Rightarrow> relay_entry \<Rightarrow> (label list \<Rightarrow> resource_record list) \<Rightarrow> label list \<Rightarrow> resource_record list" where
  "add_entry e en m = (case en of (ip, a, ls) \<Rightarrow> if relay_kind a = e then add_relay a (lower ls) m else m)"

lemma insert_relay_rr:
  assumes "relay_db db" and "db_name ls" and "length a = 4 \<or> length a = 16"
  shows "\<exists>r db'. insert_database db (relay_rr a ls) = ret (r, db') \<and> relay_db db' \<and>
    (\<forall>e \<in> {RR_ARR_A, RR_ARR_AAAA}. (\<lambda>ks. db_lookup db' ks e) =
      (if relay_kind a = e then add_relay a ls (\<lambda>ks. db_lookup db ks e) else (\<lambda>ks. db_lookup db ks e)))"
proof -
  let ?rr = "relay_rr a ls" and ?k = "relay_kind a"
  have rr: "rr_name ?rr = Some (enc_name ls)" "element_index (rr_type ?rr) = Some ?k"
    "rdlength ?rr = (if length a = 4 then 4 else 16)"
    using assms(3) by (auto simp: relay_rr_def element_index_def relay_kind_def)
  have len: "rdlength x = (if length a = 4 then 4 else 16)" if "x \<in> set (db_lookup db ks ?k)" for x ks
    using that assms(1) by (auto simp: relay_db_def relay_kind_def)
  then have "comparable (db_lookup db ls ?k) ?rr" by (auto simp: comparable_def rr(3))
  moreover have db: "db_valid db" using assms(1) by (simp add: relay_db_def)
  ultimately obtain db' where
    db': "insert_database db ?rr = ret (if accepts (db_lookup db ls ?k) ?rr then 1 else -1, db')" "db_valid db'"
      "\<forall>ls' k. k < RR_ARR_LEN \<longrightarrow> db_lookup db' ls' k = db_lookup db ls' k @
         (if ls' = ls \<and> k = ?k \<and> accepts (db_lookup db ls ?k) ?rr then [?rr] else [])"
    using insert_database_ok [OF _ assms(2) rr(1) wf_relay_rr [OF assms(2,3)] rr(2)] by blast
  have lk: "db_lookup db' ks e = db_lookup db ks e @
      (if ks = ls \<and> e = ?k \<and> accepts (db_lookup db ls ?k) ?rr then [?rr] else [])" if "e \<in> {RR_ARR_A, RR_ARR_AAAA}" for ks e
    using db'(3) [rule_format, of e ks] that by auto
  have "relay_db db'"
    using db'(2) assms(1) lk [of RR_ARR_A] lk [of RR_ARR_AAAA] rr(3)
    by (auto simp: relay_db_def relay_kind_def split: if_splits)
  moreover have "\<forall>e \<in> {RR_ARR_A, RR_ARR_AAAA}. (\<lambda>ks. db_lookup db' ks e) =
      (if ?k = e then add_relay a ls (\<lambda>ks. db_lookup db ks e) else (\<lambda>ks. db_lookup db ks e))"
  proof
    fix e assume "e \<in> {RR_ARR_A, RR_ARR_AAAA}"
    from lk [OF this] show "(\<lambda>ks. db_lookup db' ks e) =
      (if ?k = e then add_relay a ls (\<lambda>ks. db_lookup db ks e) else (\<lambda>ks. db_lookup db ks e))"
      by (auto simp: add_relay_def fun_eq_iff)
  qed
  ultimately show ?thesis using db'(1) by blast
qed

lemma str_lower_ok: "nul_free s \<Longrightarrow> str_lower (s @ 0 # junk) = ret (map tolower s @ 0 # junk)"
  by (simp add: str_lower_def c_string_nul)

lemma relay_address_ok:
  assumes "address_text ip a" and "length (formatip b) = 1024" and "ipbuf b = ip @ 0 # junk"
  shows "relay_address b = ret (Some (if length a = 4 then RRTYPE_A else RRTYPE_AAAA, of_nat (length a),
    b\<lparr>formatip := a @ drop (length a) (formatip b)\<rparr>))"
proof -
  have "nul_free ip" using assms(1) by (auto simp: address_text_def nul_free_def)
  then have s: "c_string (ipbuf b) = ret ip" by (simp add: c_string_nul assms(3))
  from assms(1) show ?thesis
  proof (rule address_text_cases)
    assume a: "inet_pton4 ip = Some a" "length a = 4"
    then have "wr_bytes (formatip b) 0 a = ret (a @ drop (length a) (formatip b))" using assms(2) by (auto simp: wr_bytes_def)
    with a s show ?thesis by (simp add: relay_address_def ipv4_convert_def)
  next
    assume a: "inet_pton4 ip = None" "inet_pton6 ip = Some a" "length a = 16"
    then have "wr_bytes (formatip b) 0 a = ret (a @ drop (length a) (formatip b))" using assms(2) by (auto simp: wr_bytes_def)
    with a s show ?thesis by (simp add: relay_address_def ipv4_convert_def ipv6_convert_def)
  qed
qed

lemma format_domain_left:
  assumes "format_domain dest src = ret (n, dest', src')" and "c_string src = ret (dotted ls)"
    and "ls \<noteq> []" and "\<forall>l \<in> set ls. text_label l" and "length (enc_name ls) \<le> length dest"
  shows "length src' = length src \<and> length dest' = length dest"
proof -
  obtain l ks where ls: "ls = l # ks" using assms(3) by (cases ls) auto
  then have ne: "dropWhile (\<lambda>c. c = DOT) (dotted ls) \<noteq> []" using dotted_token(1,3) [of l ks] assms(4) by simp
  have f: "fits dest 0 (length (enc_labels ls))" using assms(5) by (simp add: fits_def)
  obtain left where "format_loop (dotted ls) dest 0 0 = ret (int (length (enc_labels ls)),
      overlay dest 0 (enc_labels ls), int (length (enc_labels ls)), left)" "length left = length (dotted ls)"
    using format_loop_ok [OF assms(4) f, of 0] by auto
  moreover have "length (dotted ls) \<le> length src"
    using assms(2) length_takeWhile_le [of "\<lambda>c. c \<noteq> 0" src] by (auto simp: c_string_def split: if_splits)
  ultimately show ?thesis
    using assms(1,2) ne length_overlay [OF f] by (auto simp: format_domain_def simp del: dropWhile_eq_Nil_conv dest!: wr8_length)
qed

lemma space_not_nul: "\<not> is_space 0"
  by (simp add: is_space_def)

lemma relay_line_ok:
  assumes "relay_db db" and "buffers_ok b" and "relay_text en line"
  shows "\<exists>b' db'. relay_line line b db = ret (b', db') \<and> buffers_ok b' \<and> relay_db db' \<and>
    (\<forall>e \<in> {RR_ARR_A, RR_ARR_AAAA}. (\<lambda>ks. db_lookup db' ks e) = add_entry e en (\<lambda>ks. db_lookup db ks e))"
proof -
  obtain ip a ls where en: "en = (ip, a, ls)" by (cases en)
  with assms(3) have line: "relay_text (ip, a, ls) line" by simp
  then have ok: "address_text ip a" "host_name ls" "length line \<le> 2048" by simp_all
  let ?ls = "lower ls" and ?dj = "drop (Suc (length (dotted ls))) (domainbuf b)"
  let ?b1 = "b\<lparr>ipbuf := ip @ 0 # drop (Suc (length ip)) (ipbuf b), domainbuf := dotted ?ls @ 0 # ?dj\<rparr>"
  let ?b2 = "?b1\<lparr>formatip := a @ drop (length a) (formatip b)\<rparr>"
  have bl: "length (domainbuf b) = 1024" "length (ipbuf b) = 1024" "length (formatd b) = 512" "length (formatip b) = 1024"
    using assms(2) by (simp_all add: buffers_ok_def)
  have ip: "nul_free ip" "length ip < 1024" using ok(1) by (auto simp: address_text_def nul_free_def)
  have a: "length a = 4 \<or> length a = 16" using address_text_cases [OF ok(1)] by blast
  note n = host_name_facts [OF ok(2)] and low = host_name_lower [OF ok(2)]
  note m = host_name_facts [OF low]
  have tw: "takeWhile (\<lambda>c. c \<noteq> 0) line = line"
    using line ip(1) n(3) space_not_nul by (auto simp: takeWhile_eq_all_conv nul_free_def)
  have low1: "str_lower (dotted ls @ 0 # ?dj) = ret (dotted ?ls @ 0 # ?dj)"
    using str_lower_ok [OF n(3)] by (simp add: dotted_lower)
  have addr: "relay_address ?b1 = ret (Some (if length a = 4 then RRTYPE_A else RRTYPE_AAAA, of_nat (length a), ?b2))"
    using relay_address_ok [OF ok(1), of ?b1] bl(4) by simp
  have enc: "length (enc_name ?ls) < 255" "?ls \<noteq> []" using low by (simp_all add: host_name_def)
  then obtain src' where fmt: "format_domain (formatd b) (dotted ?ls @ 0 # ?dj) =
      ret (int (length (enc_name ?ls)), overlay (formatd b) 0 (enc_name ?ls), src')"
    using format_domain_ok [OF _ m(1,3), of "formatd b" ?dj] bl(3) by auto
  have ll: "length (dotted ?ls) = length (dotted ls)" using arg_cong [OF dotted_lower, of length ls] by simp
  have fl: "length src' = 1024 \<and> length (overlay (formatd b) 0 (enc_name ?ls)) = 512"
    using format_domain_left [OF fmt c_string_nul [OF m(3)] enc(2) m(1)] enc(1) bl n(7) ll by simp
  have ov: "overlay (formatd b) 0 (enc_name ?ls) = enc_name ?ls @ drop (length (enc_name ?ls)) (formatd b)"
    by (simp add: overlay_def)
  obtain r db' where db': "insert_database db (relay_rr a ?ls) = ret (r, db')" "relay_db db'"
    "\<forall>e \<in> {RR_ARR_A, RR_ARR_AAAA}. (\<lambda>ks. db_lookup db' ks e) =
      (if relay_kind a = e then add_relay a ?ls (\<lambda>ks. db_lookup db ks e) else (\<lambda>ks. db_lookup db ks e))"
    using insert_relay_rr [OF assms(1) m(4) a] by blast
  let ?b3 = "?b2\<lparr>formatd := overlay (formatd b) 0 (enc_name ?ls), domainbuf := src'\<rparr>"
  have "relay_line line b db = ret (?b3, db')"
    using ok(3) sscanf2_relay [OF line bl(2,1)] low1 addr fmt enc(1) create_relay_rr [OF low a] db'(1) ov
    by (simp add: relay_line_def Let_def tw del: relay_text.simps)
  moreover have "buffers_ok ?b3" using fl bl ip a by (auto simp: buffers_ok_def)
  ultimately show ?thesis using db'(2,3) by (auto simp: add_entry_def en)
qed

text \<open>A file of well-formed lines, and the records of kind \<open>e\<close> it lists for each name.\<close>

definition relay_file :: "relay_entry list \<Rightarrow> byte list list \<Rightarrow> bool" where
  "relay_file es lines \<longleftrightarrow> list_all2 relay_text es lines"

definition relay_spec :: "relay_entry list \<Rightarrow> nat \<Rightarrow> label list \<Rightarrow> resource_record list" where
  "relay_spec es e = fold (add_entry e) es (\<lambda>_. [])"

lemma relay_lines_ok:
  "list_all2 relay_text es lines \<Longrightarrow> relay_db db \<Longrightarrow> buffers_ok b \<Longrightarrow>
     \<exists>db'. relay_lines lines b db = ret db' \<and> relay_db db' \<and>
       (\<forall>e \<in> {RR_ARR_A, RR_ARR_AAAA}. (\<lambda>ks. db_lookup db' ks e) = fold (add_entry e) es (\<lambda>ks. db_lookup db ks e))"
proof (induction es lines arbitrary: db b rule: list_all2_induct)
  case (Cons en es line lines)
  from relay_line_ok [OF Cons.prems Cons.hyps(1)] obtain b' db' where
    l: "relay_line line b db = ret (b', db')" "buffers_ok b'" "relay_db db'"
      "\<forall>e \<in> {RR_ARR_A, RR_ARR_AAAA}. (\<lambda>ks. db_lookup db' ks e) = add_entry e en (\<lambda>ks. db_lookup db ks e)" by blast
  from Cons.IH [OF l(3,2)] obtain db'' where
    "relay_lines lines b' db' = ret db''" "relay_db db''"
    "\<forall>e \<in> {RR_ARR_A, RR_ARR_AAAA}. (\<lambda>ks. db_lookup db'' ks e) = fold (add_entry e) es (\<lambda>ks. db_lookup db' ks e)" by blast
  with l(1,4) show ?case by simp
qed simp

lemma relay_db_init: "relay_db \<lparr>tree = tree_init rr_hash\<rparr>" "db_lookup \<lparr>tree = tree_init rr_hash\<rparr> ls e = []"
  by (simp_all add: relay_db_def db_valid_def db_lookup_def tree_valid_init)

lemma init_database_ok:
  assumes "relay_file es lines" and "buffers_ok b"
  shows "\<exists>db. init_database (Some lines) b = ret (1, db) \<and> relay_db db \<and>
    (\<forall>ls. \<forall>e \<in> {RR_ARR_A, RR_ARR_AAAA}. db_lookup db ls e = relay_spec es e ls)"
proof -
  from relay_lines_ok [OF assms(1) [unfolded relay_file_def] relay_db_init(1) assms(2)] obtain db where
    db: "relay_lines lines b \<lparr>tree = tree_init rr_hash\<rparr> = ret db" "relay_db db"
    "\<forall>e \<in> {RR_ARR_A, RR_ARR_AAAA}. (\<lambda>ks. db_lookup db ks e) = relay_spec es e"
    by (auto simp: relay_spec_def relay_db_init(2))
  then have "db_lookup db ls e = relay_spec es e ls" if "e \<in> {RR_ARR_A, RR_ARR_AAAA}" for ls e
    using that by (metis (mono_tags))
  with db(1,2) show ?thesis by (auto simp: init_database_def)
qed

section \<open>Properties\<close>

text \<open>C16: loading a relay file of well-formed lines (an IPv4 or IPv6 address, white space, a host name, and any white space up to
  the end of the line) succeeds, and afterwards the database holds, for each name in lower case, exactly the
  addresses the file lists for it, IPv4 and IPv6 apart, in file order, without repetitions and at most four of a kind per
  name.\<close>

theorem init_database_loads:
  assumes "relay_file es lines" and "buffers_ok b"
  shows "\<exists>db. init_database (Some lines) b = ret (1, db) \<and> db_valid db \<and>
    (\<forall>ls. db_lookup db ls RR_ARR_A = relay_spec es RR_ARR_A ls \<and> db_lookup db ls RR_ARR_AAAA = relay_spec es RR_ARR_AAAA ls)"
  using init_database_ok [OF assms] by (auto simp: relay_db_def)

definition sample_buffers :: relay_buffers where
  "sample_buffers = \<lparr>domainbuf = replicate 1024 0, ipbuf = replicate 1024 0, formatd = replicate 512 0,
     formatip = replicate 1024 0\<rparr>"

text \<open>The line \<^verbatim>\<open>1.2.3.4 Ab.c\<close>, ended by a carriage return and a line feed, and the line \<^verbatim>\<open>2001:db8::1 Ab.c\<close> without an end.\<close>

definition sample_entry :: relay_entry where
  "sample_entry = ([49, 46, 50, 46, 51, 46, 52], [1, 2, 3, 4], [[65, 98], [99]])"

definition sample_entry6 :: relay_entry where
  "sample_entry6 = ([50, 48, 48, 49, 58, 100, 98, 56, 58, 58, 49], [0x20, 1, 13, 0xB8, 0, 0, 0, 0, 0, 0, 0, 0, 0, 0, 0, 1],
     [[65, 98], [99]])"

definition sample_lines :: "byte list list" where
  "sample_lines = [[49, 46, 50, 46, 51, 46, 52, 32, 65, 98, 46, 99, 13, 10],
     [50, 48, 48, 49, 58, 100, 98, 56, 58, 58, 49, 32, 65, 98, 46, 99]]"

lemma sample_host: "host_name [[65, 98], [99]]" "dotted [[65, 98], [99]] = [65, 98, 46, 99]"
  by (simp_all add: host_name_def host_label_def is_space_def)

lemma sample_addresses:
  "address_text [49, 46, 50, 46, 51, 46, 52] [1, 2, 3, 4]"
  "address_text [50, 48, 48, 49, 58, 100, 98, 56, 58, 58, 49] [0x20, 1, 13, 0xB8, 0, 0, 0, 0, 0, 0, 0, 0, 0, 0, 0, 1]"
proof -
  show "address_text [49, 46, 50, 46, 51, 46, 52] [1, 2, 3, 4]"
    by (simp add: address_text_def is_space_def inet_pton4_def digit_val_def)
  have "inet_pton4 [50, 48, 48, 49, 58, 100, 98, 56, 58, 58, 49] = None"
    by code_simp
  moreover have "inet_pton6 [50, 48, 48, 49, 58, 100, 98, 56, 58, 58, 49] =
      Some [0x20, 1, 13, 0xB8, 0, 0, 0, 0, 0, 0, 0, 0, 0, 0, 0, 1]"
    by code_simp
  ultimately show "address_text [50, 48, 48, 49, 58, 100, 98, 56, 58, 58, 49]
      [0x20, 1, 13, 0xB8, 0, 0, 0, 0, 0, 0, 0, 0, 0, 0, 0, 1]"
    by (simp add: address_text_def is_space_def)
qed

lemma sample_relay: "relay_file [sample_entry, sample_entry6] sample_lines" "buffers_ok sample_buffers"
proof -
  have "relay_text sample_entry [49, 46, 50, 46, 51, 46, 52, 32, 65, 98, 46, 99, 13, 10]"
    unfolding sample_entry_def relay_text.simps using sample_host sample_addresses
    by (simp, intro exI [of _ "[32]"] exI [of _ "[13, 10]"]) (simp add: is_space_def)
  moreover have "relay_text sample_entry6 [50, 48, 48, 49, 58, 100, 98, 56, 58, 58, 49, 32, 65, 98, 46, 99]"
    unfolding sample_entry6_def relay_text.simps using sample_host sample_addresses
    by (simp, intro exI [of _ "[32]"] exI [of _ "[]"]) (simp add: is_space_def)
  ultimately show "relay_file [sample_entry, sample_entry6] sample_lines" by (simp add: relay_file_def sample_lines_def)
  show "buffers_ok sample_buffers" by (simp add: buffers_ok_def sample_buffers_def)
qed

lemmas sample_spec_simps = relay_spec_def sample_entry_def sample_entry6_def add_entry_def add_relay_def lower_def
  tolower_def accepts_def relay_kind_def

theorem init_database_loads_witness:
  "\<exists>db. init_database (Some sample_lines) sample_buffers = ret (1, db) \<and>
     db_lookup db [[97, 98], [99]] RR_ARR_A = [relay_rr [1, 2, 3, 4] [[97, 98], [99]]] \<and>
     db_lookup db [[97, 98], [99]] RR_ARR_AAAA =
       [relay_rr [0x20, 1, 13, 0xB8, 0, 0, 0, 0, 0, 0, 0, 0, 0, 0, 0, 1] [[97, 98], [99]]]"
  using init_database_loads [OF sample_relay] by (auto simp: sample_spec_simps)

text \<open>A record accepted by \<^verbatim>\<open>insert_database\<close> is returned by \<^verbatim>\<open>select_database\<close> for a question with its
  name and type, behind the records that were already there.\<close>

lemma insert_then_select:
  assumes "db_valid db" and "db_name ls" and "rr_name rr = Some (enc_name ls)" and "wf_rr rr"
    and "element_index (rr_type rr) = Some e" and "comparable (db_lookup db ls e) rr"
    and "accepts (db_lookup db ls e) rr" and "Suc (length (db_lookup db ls e)) \<le> length dest"
    and "qname q = Some (enc_name ls)" and "qtype q = rr_type rr"
  shows "\<exists>db'. insert_database db rr = ret (1, db') \<and> select_database db' q dest =
    ret (int (length (db_lookup db ls e)) + 1, db_lookup db ls e @ [rr] @ drop (Suc (length (db_lookup db ls e))) dest)"
proof -
  from insert_database_ok [OF assms(1-6)] assms(7) element_index_less [OF assms(5)] obtain db' where
    db': "insert_database db rr = ret (1, db')" "db_valid db'" "db_lookup db' ls e = db_lookup db ls e @ [rr]"
    by auto
  then have "select_database db' q dest = ret (int (length (db_lookup db' ls e)),
      db_lookup db' ls e @ drop (length (db_lookup db' ls e)) dest)"
    using assms(5,8,10) by (intro select_database_ok [OF db'(2) assms(2,9)]) simp_all
  with db' show ?thesis by (simp add: add.commute)
qed

text \<open>\<^verbatim>\<open>format_domain\<close> writes before the length of the name is checked: a name whose wire form exceeds
  the 512 bytes of its buffer (a relay line may hold one of 1023 characters) is written past its
  end.\<close>

lemma format_domain_overflows:
  assumes "ls \<noteq> []" and "\<forall>l \<in> set ls. text_label l" and "nul_free (dotted ls)"
    and "length dest < length (enc_name ls)"
  shows "format_domain dest (dotted ls @ 0 # junk) = fail OutOfBounds"
  using assms by (rule format_domain_overflow)

lemma format_domain_overflows_witness:
  "format_domain (replicate 512 0) (dotted (replicate 200 [97, 98]) @ [0]) = fail OutOfBounds"
proof (rule format_domain_overflows)
  show "nul_free (dotted (replicate 200 [97, 98]))"
  proof -
    have "set (dotted ls) \<subseteq> insert DOT (\<Union> (set ` set ls))" for ls by (induction ls rule: dotted.induct) auto
    from this [of "replicate 200 [97, 98]"] show ?thesis by (auto simp: nul_free_def)
  qed
  have "length (enc_labels (replicate n [97, 98])) = 3 * n" for n by (induction n) simp_all
  then show "length (replicate 512 0) < length (enc_name (replicate 200 [97, 98]))" by simp
qed (simp_all add: text_label_def)

lemma lower_lower: "lower (lower ls) = lower ls"
proof -
  have "tolower (tolower c) = tolower c" for c
  proof (cases "65 \<le> c \<and> c \<le> 90")
    case True
    then have "97 \<le> c + 32" by (simp add: word_le_nat_alt unat_word_ariths)
    then show ?thesis using True by (auto simp: tolower_def word_le_nat_alt)
  qed (auto simp: tolower_def)
  then show ?thesis by (simp add: lower_def)
qed

lemma relay_spec_lower:
  assumes "relay_spec es e ls \<noteq> []"
  shows "lower ls = ls"
proof -
  have "\<forall>ks. fold (add_entry e) es m ks \<noteq> [] \<longrightarrow> lower ks = ks"
    if "\<forall>ks. m ks \<noteq> [] \<longrightarrow> lower ks = ks" for m
    using that
  proof (induction es arbitrary: m)
    case (Cons en es)
    obtain ip a k where en: "en = (ip, a, k)" by (cases en)
    have "\<forall>ks. add_entry e en m ks \<noteq> [] \<longrightarrow> lower ks = ks"
      using Cons.prems lower_lower [of k] by (simp add: add_relay_def add_entry_def en)
    then show ?case unfolding fold_simps o_apply by (rule Cons.IH)
  qed simp
  from this [of "\<lambda>_. []"] assms show ?thesis by (simp add: relay_spec_def)
qed

text \<open>C38: names are stored in lower case but looked up as they are: a query that spells a listed name with
  an upper-case letter finds nothing, so a name blocked by the relay file is not blocked in that
  spelling.\<close>

theorem select_is_case_sensitive:
  assumes "relay_file es lines" and "buffers_ok b" and "db_name ls" and "lower ls \<noteq> ls"
    and "qname q = Some (enc_name ls)" and "qtype q = RRTYPE_A \<or> qtype q = RRTYPE_AAAA"
  shows "\<exists>db. init_database (Some lines) b = ret (1, db) \<and> select_database db q dest = ret (0, dest)"
proof -
  from init_database_ok [OF assms(1,2)] obtain db where
    db: "init_database (Some lines) b = ret (1, db)" "relay_db db"
    "\<forall>ls. \<forall>e \<in> {RR_ARR_A, RR_ARR_AAAA}. db_lookup db ls e = relay_spec es e ls" by blast
  obtain e where e: "element_index (qtype q) = Some e" "e \<in> {RR_ARR_A, RR_ARR_AAAA}"
    using assms(6) by (auto simp: element_index_def)
  then have "db_lookup db ls e = []" using db(3) relay_spec_lower [of es e ls] assms(4) by metis
  with e(1) have "select_database db q dest = ret (0, dest)"
    using select_database_ok [OF _ assms(3,5), of db e dest] db(2) by (simp add: relay_db_def)
  with db(1) show ?thesis by simp
qed

theorem select_is_case_sensitive_witness:
  "\<exists>db. init_database (Some sample_lines) sample_buffers = ret (1, db) \<and>
     select_database db \<lparr>qname = Some (enc_name [[65, 98], [99]]), qtype = 1, qclass = 1\<rparr> [zero_rr] = ret (0, [zero_rr])"
  by (rule select_is_case_sensitive [OF sample_relay, of "[[65, 98], [99]]"])
    (simp_all add: db_name_def wf_lab_def lower_def tolower_def)

end
