(* ===== verification/Resolv.thy ===== *)
theory Resolv
  imports Client Cache Database_Props
begin

text \<open>
  The resolver (\<^verbatim>\<open>socket/resolv.c\<close>): \<^verbatim>\<open>resolv_handle\<close> answers each question of a query from the cache, then
  from the database, and hands the query to the external resolver when both know nothing. The
  cache is threaded through; the addresses of new cache nodes, the time before and after the
  external exchange, and the exchange itself are fields of the argument \<open>world\<close>. One query is handled
  without another thread changing the cache in between; the theories \<open>Job_Calls\<close> and \<open>Interleaving\<close> lift this.
\<close>

section \<open>State\<close>

abbreviation (input) ANCOUNT_MAX :: nat where "ANCOUNT_MAX \<equiv> 100"

record world =
  alloc :: "rr_cache \<Rightarrow> addr"
  now :: int
  later :: int
  net :: net

text \<open>The variables of \<^verbatim>\<open>resolv_handle\<close> that the question loop changes, with the shared cache.\<close>

record answering =
  ans_cache :: rr_cache
  ans_buffer :: "resource_record list"
  ans_cnt :: int
  external_dns_flag :: bool
  failure_flag :: byte

text \<open>
  What a call leaves behind: the return value, the send buffer, \<^verbatim>\<open>*ans_size\<close>, the query and the cache,
  and whether a name of the query was released together with the answer.
\<close>

record resolved =
  res_code :: int
  res_buf :: mem
  res_size :: u32
  res_query :: message
  res_cache :: rr_cache
  res_dangling :: bool

section \<open>Operations\<close>

text \<open>The text of a name is only logged, but collecting it reads the name and writes a buffer of 512 bytes.\<close>

function print_loop :: "mem \<Rightarrow> nat \<Rightarrow> nat \<Rightarrow> mem \<Rightarrow> nat \<Rightarrow> mem run" where
  "print_loop name i dlen questionbuf qi =
     (if dlen \<le> i then ret questionbuf
      else
        bind_run (rd8 name (int i)) (\<lambda>len.
        if len = 0 then ret questionbuf
        else
          bind_run (rd_bytes name (int i + 1) (unat len)) (\<lambda>bs.
          bind_run (wr_bytes questionbuf (int qi) (bs @ [46])) (\<lambda>questionbuf.
          print_loop name (Suc (i + unat len)) dlen questionbuf (Suc (qi + unat len))))))"
  by pat_completeness auto
termination by (relation "measure (\<lambda>(_, i, dlen, _, _). dlen - i)") auto

declare print_loop.simps [simp del]

definition print_question :: "message_question \<Rightarrow> mem run" where
  "print_question mqptr =
     bind_run (domain_len (qname mqptr)) (\<lambda>dlen.
     if dlen < 0 then ret (replicate 512 0)
     else
       bind_run (deref (qname mqptr)) (\<lambda>name.
       print_loop name 0 (nat dlen) (replicate 512 0) 0))"

text \<open>Not called by anything; it holds when the names differ.\<close>

definition rr_match :: "resource_record \<Rightarrow> message_question \<Rightarrow> u32 \<Rightarrow> bool run" where
  "rr_match rr mq dlen =
     (if rr_type rr = qtype mq \<and> rr_class rr = qclass mq then
        bind_run (deref (rr_name rr)) (\<lambda>a.
        bind_run (deref (qname mq)) (\<lambda>b.
        bind_run (strncmp a b (unat dlen)) (\<lambda>c. ret (c \<noteq> 0))))
      else ret False)"

fun put_records :: "(rr_cache \<Rightarrow> addr) \<Rightarrow> int \<Rightarrow> resource_record list \<Rightarrow> rr_cache \<Rightarrow> rr_cache run" where
  "put_records al t [] c = ret c"
| "put_records al t (rr # rrs) c =
     bind_run (cache_put_rr c (al c) t rr) (\<lambda>(_, c). put_records al t rrs c)"

definition first_entries :: "'a list \<Rightarrow> nat \<Rightarrow> 'a list run" where
  "first_entries xs n = (if n \<le> length xs then ret (take n xs) else fail OutOfBounds)"

text \<open>
  The search for a blocked address among the records found. The inner loop of the code releases
  the blocked record once per record found; after the first time its pointers are null.
\<close>

fun blocked_loop :: "resource_record list \<Rightarrow> nat \<Rightarrow> nat \<Rightarrow> (resource_record list \<times> bool) run" where
  "blocked_loop buf i 0 = ret (buf, False)"
| "blocked_loop buf i (Suc k) =
     (if length buf \<le> i then fail OutOfBounds
      else
        bind_run (check_blocked (buf ! i)) (\<lambda>blocked.
        if blocked then
          ret (case free_heap_resource_record (Some (buf ! i)) of
                 None \<Rightarrow> buf | Some rr \<Rightarrow> buf[i := rr], True)
        else blocked_loop buf (Suc i) k))"

text \<open>The body of the question loop; the first component tells whether the loop goes on.\<close>

definition answer_question ::
  "world \<Rightarrow> database \<Rightarrow> message_question \<Rightarrow> answering \<Rightarrow> (bool \<times> answering) run"
where
  "answer_question w db mq s =
     bind_run (print_question mq) (\<lambda>_.
     bind_run (domain_len (qname mq)) (\<lambda>dlen.
     if dlen < 0 then ret (False, s\<lparr>failure_flag := RCODE_FORMAT_ERROR\<rparr>)
     else
       bind_run (deref (qname mq)) (\<lambda>name.
       bind_run (cache_find_rr (ans_cache s) (ans_buffer s) name (qtype mq) (qclass mq)) (\<lambda>(n_rec, buf).
       if n_rec < 0 then ret (False, s\<lparr>ans_buffer := buf, failure_flag := RCODE_SERVER_FAILURE\<rparr>)
       else if n_rec > 0 then
         bind_run (first_entries buf (nat n_rec)) (\<lambda>rrs.
         bind_run (put_records (alloc w) (now w) rrs (ans_cache s)) (\<lambda>c.
         ret (True, s\<lparr>ans_cache := c, ans_buffer := buf, ans_cnt := ans_cnt s + n_rec\<rparr>)))
       else
         bind_run (select_database db mq buf) (\<lambda>(n_rr_db, buf).
         if n_rr_db \<noteq> 0 then
           bind_run (blocked_loop buf 0 (size_t n_rr_db)) (\<lambda>(buf, blocked).
           ret (True, s\<lparr>ans_buffer := buf, ans_cnt := (if blocked then 0 else n_rr_db)\<rparr>))
         else ret (False, s\<lparr>ans_buffer := buf, external_dns_flag := True\<rparr>))))))"

text \<open>The loop from question \<open>i\<close> on, with \<open>k\<close> questions left.\<close>

fun question_loop :: "world \<Rightarrow> database \<Rightarrow> message \<Rightarrow> nat \<Rightarrow> nat \<Rightarrow> answering \<Rightarrow> answering run" where
  "question_loop w db query i 0 s = ret s"
| "question_loop w db query i (Suc k) s =
     bind_run (deref (question query)) (\<lambda>qs.
     if length qs \<le> i then fail OutOfBounds
     else case qs ! i of
       None \<Rightarrow> ret (s\<lparr>failure_flag := RCODE_FORMAT_ERROR\<rparr>)
     | Some mq \<Rightarrow>
         bind_run (answer_question w db mq s) (\<lambda>(go, s).
         if go then question_loop w db query (Suc i) k s else ret s))"

text \<open>The exchange with the external resolver. On success the answers go to the cache; on failure \<^verbatim>\<open>ans\<close>
  keeps whatever header \<^verbatim>\<open>send_question\<close> left there.\<close>

definition clear_counts :: "message \<Rightarrow> message" where
  "clear_counts m = m\<lparr>header := (header m)\<lparr>ancount := 0, arcount := 0, nscount := 0\<rparr>\<rparr>"

fun entries :: "'a ptr_array \<Rightarrow> nat \<Rightarrow> nat \<Rightarrow> 'a list run" where
  "entries arr i 0 = ret []"
| "entries arr i (Suc k) =
     bind_run (entry_at arr i) (\<lambda>x. bind_run (entries arr (Suc i) k) (\<lambda>xs. ret (x # xs)))"

definition ask_external ::
  "world \<Rightarrow> message \<Rightarrow> message \<Rightarrow> rr_cache \<Rightarrow> (bool \<times> message \<times> message \<times> rr_cache) run"
where
  "ask_external w query ans c =
     bind_run (free_heap_message ans) (\<lambda>(_, ans).
     bind_run (send_question (net w) query ans) (\<lambda>(r, query, ans).
     if r < 0 then ret (False, query, clear_counts ans, c)
     else
       bind_run (entries (answer ans) 0 (unat (ancount (header ans)))) (\<lambda>rrs.
       bind_run (put_records (alloc w) (later w) rrs c) (\<lambda>c.
       ret (True, query, ans, c)))))"

text \<open>The answer section out of \<^verbatim>\<open>ans_buffer\<close>; the count is cut to 16 bits.\<close>

definition fill_answer :: "resource_record list \<Rightarrow> int \<Rightarrow> message \<Rightarrow> message run" where
  "fill_answer buf cnt ans =
     (let n = word_of_int cnt; ans = ans\<lparr>header := (header ans)\<lparr>ancount := n\<rparr>\<rparr> in
      if n = 0 then ret ans
      else bind_run (first_entries buf (unat n)) (\<lambda>rrs. ret (ans\<lparr>answer := Some (map Some rrs)\<rparr>)))"

text \<open>
  Copy the questions of the query, from \<open>i\<close> on with \<open>k\<close> left; the boolean tells whether a copy failed and
  the name is shared with the query.
\<close>

fun copy_questions :: "message_question ptr_array \<Rightarrow> nat \<Rightarrow> nat \<Rightarrow> (message_question list \<times> bool) run" where
  "copy_questions arr i 0 = ret ([], False)"
| "copy_questions arr i (Suc k) =
     bind_run (entry_at arr i) (\<lambda>mq.
     bind_run (mq_copy mq) (\<lambda>(r, cp).
     bind_run (copy_questions arr (Suc i) k) (\<lambda>(cps, shared).
     ret (cp # cps, r < 0 \<or> shared))))"

definition paste_questions :: "message \<Rightarrow> message \<Rightarrow> (message \<times> bool) run" where
  "paste_questions query ans =
     (let n = qdcount (header query) in
      bind_run (copy_questions (question query) 0 (unat n)) (\<lambda>(qs, shared).
      ret (ans\<lparr>header := (header ans)\<lparr>qdcount := n\<rparr>, question := Some (map Some qs)\<rparr>, shared)))"

definition initial_answer :: "message \<Rightarrow> message" where
  "initial_answer query = zero_message\<lparr>header := zero_header\<lparr>
     msg_id := msg_id (header query),
     misc1 := create_misc1 QR_RESP OPCODE_QUERY AA_TRUE TC_FALSE RD_FALSE,
     misc2 := create_misc2 RA_FALSE Z_FLAG RCODE_NO_ERROR\<rparr>\<rparr>"

text \<open>From the end of the question loop on.\<close>

definition finish_answer ::
  "world \<Rightarrow> mem \<Rightarrow> ptr \<Rightarrow> u32 \<Rightarrow> message \<Rightarrow> message \<Rightarrow> answering \<Rightarrow> resolved run"
where
  "finish_answer w sendbuf p asize query ans s =
     bind_run
       (if external_dns_flag s \<and> failure_flag s = 0 then ask_external w query ans (ans_cache s)
        else ret (external_dns_flag s, query, ans, ans_cache s)) (\<lambda>(external, query, ans, c).
     bind_run
       (if \<not> external \<and> failure_flag s = 0 then fill_answer (ans_buffer s) (ans_cnt s) ans
        else ret ans) (\<lambda>ans.
     bind_run
       (if failure_flag s \<noteq> 0 then
          bind_run (free_heap_message ans) (\<lambda>(_, ans).
          ret (clear_counts (ans\<lparr>header := (header ans)\<lparr>
            misc2 := create_misc2 RA_FALSE Z_FLAG (failure_flag s)\<rparr>\<rparr>)))
        else ret ans) (\<lambda>ans.
     bind_run
       (if \<not> external \<or> failure_flag s \<noteq> 0 then paste_questions query ans else ret (ans, False))
       (\<lambda>(ans, shared).
     bind_run (message_to_u8 ans sendbuf p) (\<lambda>(msgsize, sendbuf).
     if msgsize < 0 then
       ret \<lparr>res_code = -1, res_buf = sendbuf, res_size = asize, res_query = query, res_cache = c,
            res_dangling = False\<rparr>
     else
       bind_run (free_heap_message ans) (\<lambda>_.
       ret \<lparr>res_code = 1, res_buf = sendbuf, res_size = word_of_int msgsize, res_query = query,
            res_cache = c, res_dangling = shared\<rparr>))))))"

definition resolv_handle ::
  "world \<Rightarrow> database \<Rightarrow> rr_cache \<Rightarrow> mem \<Rightarrow> ptr \<Rightarrow> u32 \<Rightarrow> message \<Rightarrow> resolved run"
where
  "resolv_handle w db c sendbuf p asize query =
     (if misc_QR (misc1 (header query)) \<noteq> QR_REQ then
        ret \<lparr>res_code = -1, res_buf = sendbuf, res_size = asize, res_query = query, res_cache = c,
             res_dangling = False\<rparr>
      else
        let external = misc_OPCODE (misc1 (header query)) \<noteq> OPCODE_QUERY;
            s = \<lparr>ans_cache = c, ans_buffer = replicate ANCOUNT_MAX zero_rr, ans_cnt = 0,
                 external_dns_flag = external, failure_flag = RCODE_NO_ERROR\<rparr> in
        bind_run
          (if external then ret s else question_loop w db query 0 (unat (qdcount (header query))) s) (\<lambda>s.
        finish_answer w sendbuf p asize query (initial_answer query) s))"

end
