(* ===== verification/Resolv_Props.thy ===== *)
theory Resolv_Props
  imports Resolv
begin

text \<open>
  Properties of the resolver: which source answers a query with one question, what the response
  on the wire and the cache are afterwards, and the queries and replies on which it goes wrong.
\<close>

section \<open>Records held by the stores are well-formed\<close>

lemma lookup_wf:
  "tree_ok tn \<Longrightarrow> e < RR_ARR_LEN \<Longrightarrow>
     (\<forall>x \<in> set (lookup tn ls e). wf_rr x) \<and> length (lookup tn ls e) \<le> RR_CNT_MAX"
proof (induction tn ls e rule: lookup.induct)
  case (2 tn l ls e)
  show ?case
  proof (cases "kid tn l")
    case (Some ln)
    then have ln: "ln \<in> set (kids tn)" using tree_okD(1) [OF 2(2)] by (simp add: kid_iff)
    then have ok: "elem_ok ln" using tree_okD(2) [OF 2(2)] by blast
    then have "length (records ln e) \<le> RR_CNT_MAX"
      using 2(3) length_records [OF ok 2(3)] by (simp add: elem_ok_def)
    with Some ok 2 ln tree_okD(3) [OF 2(2) ln] records_wf [OF ok 2(3)] show ?thesis
      by (auto simp: lookup.simps split: option.splits)
  qed (simp add: lookup.simps)
qed (simp add: lookup.simps)

lemma db_lookup_wf:
  assumes "db_valid db" and "element_index t = Some e"
  shows "\<forall>x \<in> set (db_lookup db ls e). wf_rr x" "length (db_lookup db ls e) \<le> RR_CNT_MAX"
  using lookup_wf [of "root (tree db)" e "rev ls"] assms element_index_less [OF assms(2)]
  by (simp_all add: db_lookup_def db_valid_def tree_valid_def)

lemma cache_rep_wf: "cache_rep c es \<Longrightarrow> e \<in> set es \<Longrightarrow> wf_rr (fst e)"
  by (auto simp: cache_rep_def rep_at_def list_all2_conv_all_nth in_set_conv_nth holds_entry_def
      split: option.splits)

lemma spec_find_wf: "cache_rep c es \<Longrightarrow> \<forall>x \<in> set (spec_find nm t cl es). wf_rr x"
  by (auto simp: spec_find_def dest: cache_rep_wf)

section \<open>The steps of the question loop\<close>

definition dot_text :: "label list \<Rightarrow> byte list" where
  "dot_text ls = concat (map (\<lambda>l. l @ [46]) ls)"

lemma dot_text_simps [simp]: "dot_text [] = []" "dot_text (l # ls) = l @ 46 # dot_text ls"
  by (simp_all add: dot_text_def)

lemma length_dot_text: "length (dot_text ls) = length (enc_labels ls)"
  by (induction ls) simp_all

lemma print_loop_ok:
  assumes "\<forall>l \<in> set ls. wf_lab l" and "length out = length pre"
    and "length pre + length (enc_labels ls) \<le> 512"
  shows "print_loop (pre @ enc_name ls) (length pre) (length (pre @ enc_name ls))
      (overlay (replicate 512 0) 0 out) (length out) = ret (overlay (replicate 512 0) 0 (out @ dot_text ls))"
  using assms
proof (induction ls arbitrary: pre out)
  case Nil
  then show ?case by (subst print_loop.simps) (simp add: rd8_def enc_name_def)
next
  case (Cons l ls)
  let ?z = "replicate 512 0 :: mem" let ?name = "pre @ enc_name (l # ls)"
  let ?n = "of_nat (length l) :: byte"
  have l: "wf_label l" using Cons.prems(1) by (auto simp: wf_lab_def wf_label_def)
  have name: "?name = pre @ ?n # l @ enc_name ls" "?name = (pre @ enc_label l) @ enc_name ls"
    by (simp_all add: enc_name_def enc_label_def)
  have "rd8 ?name (int (length pre)) = ret ?n" by (simp add: name(1) rd8_def nth_append)
  moreover have "rd_bytes ?name (int (length pre) + 1) (length l) = ret l"
    by (simp add: name(1) rd_bytes_def nat_add_distrib)
  moreover have "fits ?z 0 (length (out @ l @ [46]))" using Cons.prems(2,3) by (simp add: fits_def)
  then have "wr_bytes (overlay ?z 0 out) (int (length out)) (l @ [46]) = ret (overlay ?z 0 (out @ l @ [46]))"
    by (intro put_bytes_after) simp_all
  moreover have "print_loop ?name (Suc (length pre + length l)) (length ?name)
      (overlay ?z 0 (out @ l @ [46])) (Suc (length out + length l)) =
      ret (overlay ?z 0 ((out @ l @ [46]) @ dot_text ls))"
    using Cons.IH [of "out @ l @ [46]" "pre @ enc_label l"] Cons.prems by (simp add: name(2))
  ultimately show ?case using label_simps [OF l] by (subst print_loop.simps) simp
qed

lemma print_question_ok:
  assumes "db_name ls" and "qname q = Some (enc_name ls)"
  shows "print_question q = ret (overlay (replicate 512 0) 0 (dot_text ls))"
proof -
  have "domain_len (qname q) = ret (int (length (enc_name ls)))"
    using domain_len_c_name [OF db_name_c_name [OF assms(1)]] assms(2) by simp
  then show ?thesis
    using print_loop_ok [of ls "[]" "[]"] assms
    by (simp add: print_question_def db_name_def nat_add_distrib)
qed

text \<open>An allocator that never hands out an address in use.\<close>

definition fresh_alloc :: "(rr_cache \<Rightarrow> addr) \<Rightarrow> bool" where
  "fresh_alloc al \<longleftrightarrow> (\<forall>c. finite (dom (nodes c)) \<longrightarrow> nodes c (al c) = None)"

lemma fresh_allocD: "fresh_alloc al \<Longrightarrow> cache_rep c es \<Longrightarrow> nodes c (al c) = None"
  by (auto simp: fresh_alloc_def cache_rep_def rep_at_def)

lemma put_records_ok:
  assumes "fresh_alloc al"
  shows "cache_rep c es \<Longrightarrow> \<forall>x \<in> set rrs. wf_rr x \<Longrightarrow>
    \<exists>c'. put_records al t rrs c = ret c' \<and> cache_rep c' (fold (spec_put t) rrs es)"
proof (induction rrs arbitrary: c es)
  case (Cons rr rrs)
  with cache_put_ok [OF Cons.prems(1) _ fresh_allocD [OF assms Cons.prems(1)], of rr t] obtain c' where
    "cache_put_rr c (al c) t rr = ret (1, c')" "cache_rep c' (spec_put t rr es)" by auto
  with Cons.IH [of c' "spec_put t rr es"] Cons.prems(2) show ?case by auto
qed simp

definition blocked :: "resource_record \<Rightarrow> bool" where
  "blocked rr \<longleftrightarrow> take 4 (bytes_of (rdata rr)) = [0, 0, 0, 0]"

definition has_address :: "resource_record \<Rightarrow> bool" where
  "has_address rr \<longleftrightarrow> 4 \<le> length (bytes_of (rdata rr))"

lemma check_blocked_ok: "has_address rr \<Longrightarrow> check_blocked rr = ret (blocked rr)"
  by (cases "rdata rr") (simp_all add: check_blocked_def has_address_def blocked_def rd_bytes_take)

lemma blocked_loop_ok:
  "i + k \<le> length buf \<Longrightarrow> \<forall>x \<in> set (take k (drop i buf)). has_address x \<Longrightarrow>
     \<exists>buf'. blocked_loop buf i k = ret (buf', \<exists>x \<in> set (take k (drop i buf)). blocked x) \<and>
       ((\<exists>x \<in> set (take k (drop i buf)). blocked x) \<or> buf' = buf)"
proof (induction k arbitrary: i)
  case (Suc k)
  then have i: "i < length buf" by simp
  then have d: "drop i buf = buf ! i # drop (Suc i) buf" by (rule Cons_nth_drop_Suc [symmetric])
  with Suc.prems have "check_blocked (buf ! i) = ret (blocked (buf ! i))" by (simp add: check_blocked_ok)
  with i d Suc.IH [of "Suc i"] Suc.prems show ?case
    by (cases "blocked (buf ! i)") (auto simp: free_heap_resource_record_def)
qed simp

section \<open>The end of the call\<close>

text \<open>The response out of local records: authoritative, with the questions of the query.\<close>

definition local_response :: "message \<Rightarrow> resource_record list \<Rightarrow> message" where
  "local_response query rrs = \<lparr>
     header = \<lparr>msg_id = msg_id (header query),
       misc1 = create_misc1 QR_RESP OPCODE_QUERY AA_TRUE TC_FALSE RD_FALSE,
       misc2 = create_misc2 RA_FALSE Z_FLAG RCODE_NO_ERROR,
       qdcount = qdcount (header query), ancount = of_nat (length rrs), nscount = 0, arcount = 0\<rparr>,
     question = question query, answer = (if rrs = [] then None else Some (map Some rrs)),
     authority = None, addition = None\<rparr>"

lemma free_heap_message_ok:
  "wf_message m \<Longrightarrow>
     free_heap_message m = ret (1, m\<lparr>question := None, answer := None, authority := None, addition := None\<rparr>)"
  by (simp add: free_heap_message_def wf_message_def free_section_wf [where ok = wf_question]
      free_section_wf [where ok = wf_rr])

lemma wf_local_response:
  assumes "wf_section wf_question (question query) (qdcount (header query))"
    and "\<forall>x \<in> set rrs. wf_rr x" and "length rrs \<le> ANCOUNT_MAX"
  shows "wf_message (local_response query rrs)"
proof -
  have "unat (of_nat (length rrs) :: u16) = length rrs" using assms(3) by (simp add: unat_of_nat)
  then have "wf_section wf_rr (if rrs = [] then None else Some (map Some rrs)) (of_nat (length rrs))"
    using assms(2) by (auto simp: wf_section_def list_all_iff)
  with assms(1) show ?thesis by (simp add: wf_message_def local_response_def wf_section_def)
qed

lemma copy_questions_ok:
  "i + k \<le> length xs \<Longrightarrow> list_all (\<lambda>x. case x of None \<Rightarrow> False | Some y \<Rightarrow> wf_question y) xs \<Longrightarrow>
     \<exists>qs. copy_questions (Some xs) i k = ret (qs, False) \<and> map Some qs = take k (drop i xs)"
proof (induction k arbitrary: i)
  case (Suc k)
  then have i: "i < length xs" by simp
  then obtain q where q: "xs ! i = Some q" "wf_question q"
    using Suc.prems(2) by (auto simp: list_all_length split: option.splits)
  have d: "drop i xs = xs ! i # drop (Suc i) xs" using i by (rule Cons_nth_drop_Suc [symmetric])
  from Suc.IH [of "Suc i"] Suc.prems obtain qs where
    "copy_questions (Some xs) (Suc i) k = ret (qs, False)" "map Some qs = take k (drop (Suc i) xs)" by auto
  then show ?case
    using i q d mq_copy_wf [OF q(2)] by (auto simp: entry_at_def not_le intro!: exI [of _ "q # qs"])
qed simp

lemma paste_questions_ok:
  assumes "wf_section wf_question (question query) (qdcount (header query))" and "qdcount (header query) \<noteq> 0"
  shows "paste_questions query ans =
    ret (ans\<lparr>header := (header ans)\<lparr>qdcount := qdcount (header query)\<rparr>, question := question query\<rparr>, False)"
proof -
  from assms obtain xs where xs: "question query = Some xs" "length xs = unat (qdcount (header query))"
    "list_all (\<lambda>x. case x of None \<Rightarrow> False | Some y \<Rightarrow> wf_question y) xs"
    by (auto simp: wf_section_def split: option.splits)
  with copy_questions_ok [of 0 "unat (qdcount (header query))" xs] show ?thesis
    by (auto simp: paste_questions_def Let_def)
qed

lemma fill_answer_ok:
  assumes "length rrs \<le> ANCOUNT_MAX"
  shows "fill_answer (rrs @ rest) (int (length rrs)) ans =
    ret (ans\<lparr>header := (header ans)\<lparr>ancount := of_nat (length rrs)\<rparr>,
      answer := (if rrs = [] then answer ans else Some (map Some rrs))\<rparr>)"
proof -
  let ?n = "of_nat (length rrs) :: u16"
  have n: "unat ?n = length rrs" using assms by (simp add: unat_of_nat)
  have "?n = 0 \<longleftrightarrow> unat ?n = 0" by (rule unat_eq_zero [symmetric])
  with n have "?n = 0 \<longleftrightarrow> rrs = []" by (simp only: length_0_conv)
  with n show ?thesis by (simp add: fill_answer_def Let_def first_entries_def)
qed

text \<open>A call that wrote \<open>bs\<close> and released everything it made.\<close>

abbreviation answered :: "mem \<Rightarrow> ptr \<Rightarrow> byte list \<Rightarrow> message \<Rightarrow> rr_cache \<Rightarrow> resolved" where
  "answered sendbuf p bs query c \<equiv> \<lparr>res_code = 1, res_buf = overlay sendbuf p bs,
     res_size = of_nat (length bs), res_query = query, res_cache = c, res_dangling = False\<rparr>"

lemma finish_local:
  assumes "wf_section wf_question (question query) (qdcount (header query))" and "qdcount (header query) \<noteq> 0"
    and "\<forall>x \<in> set rrs. wf_rr x" and "length rrs \<le> ANCOUNT_MAX"
    and "\<not> external_dns_flag s" and "failure_flag s = 0"
    and "ans_buffer s = rrs @ rest" and "ans_cnt s = int (length rrs)"
    and "fits sendbuf p (length (enc_message (local_response query rrs)))"
    and "length (enc_message (local_response query rrs)) < 2 ^ 31"
  shows "finish_answer w sendbuf p asize query (initial_answer query) s =
    ret (answered sendbuf p (enc_message (local_response query rrs)) query (ans_cache s))"
proof -
  let ?m = "local_response query rrs"
  have wf: "wf_message ?m" using assms(1,3,4) by (rule wf_local_response)
  have "fill_answer (ans_buffer s) (ans_cnt s) (initial_answer query) =
      ret ((initial_answer query)\<lparr>header := (header (initial_answer query))\<lparr>ancount := of_nat (length rrs)\<rparr>,
        answer := answer ?m\<rparr>)"
    using fill_answer_ok [OF assms(4), of rest "initial_answer query"]
    by (simp add: assms(7,8) initial_answer_def zero_message_def local_response_def)
  moreover have "paste_questions query ((initial_answer query)\<lparr>header := (header (initial_answer query))\<lparr>
      ancount := of_nat (length rrs)\<rparr>, answer := answer ?m\<rparr>) = ret (?m, False)"
    using paste_questions_ok [OF assms(1,2)]
    by (simp add: initial_answer_def zero_message_def zero_header_def local_response_def)
  moreover have "message_to_u8 ?m sendbuf p = ret (int (length (enc_message ?m)), overlay sendbuf p (enc_message ?m))"
    using wf assms(9,10) by (rule message_to_u8_writes)
  ultimately show ?thesis
    using assms(5,6) free_heap_message_ok [OF wf] by (simp add: finish_answer_def)
qed

section \<open>Where the records of an answer come from\<close>

text \<open>
  The cached records; otherwise the ones of the database, none when one of them is blocked;
  otherwise nothing is known locally.
\<close>

definition local_records ::
  "database \<Rightarrow> entry list \<Rightarrow> label list \<Rightarrow> u16 \<Rightarrow> u16 \<Rightarrow> resource_record list option"
where
  "local_records db es ls t cl =
     (if spec_find (enc_name ls) t cl es \<noteq> [] then Some (spec_find (enc_name ls) t cl es)
      else case element_index t of None \<Rightarrow> None
        | Some e \<Rightarrow>
            if db_lookup db ls e = [] then None
            else if \<exists>x \<in> set (db_lookup db ls e). blocked x then Some []
            else Some (db_lookup db ls e))"

text \<open>Answering from the cache puts the records again, which moves them to its front.\<close>

definition cache_after :: "int \<Rightarrow> entry list \<Rightarrow> label list \<Rightarrow> u16 \<Rightarrow> u16 \<Rightarrow> entry list" where
  "cache_after t es ls ty cl = fold (spec_put t) (spec_find (enc_name ls) ty cl es) es"

definition known_addresses :: "database \<Rightarrow> label list \<Rightarrow> u16 \<Rightarrow> bool" where
  "known_addresses db ls t = (case element_index t of None \<Rightarrow> True
     | Some e \<Rightarrow> \<forall>x \<in> set (db_lookup db ls e). has_address x)"

lemma select_database_other:
  assumes "db_name ls" and "qname q = Some (enc_name ls)" and "element_index (qtype q) = None"
  shows "select_database db q dest = ret (0, dest)"
proof -
  obtain revbuf where "domain_rev (replicate DOMAIN_BUF_LEN 0) (enc_name ls) = ret revbuf"
    using rev_name [OF assms(1)] by blast
  moreover have "domain_len (Some (enc_name ls)) = ret (int (length (enc_name ls)))"
    using domain_len_c_name [OF db_name_c_name [OF assms(1)]] by simp
  ultimately show ?thesis using assms(2,3) by (simp add: select_database_def tree_search_def)
qed

lemma local_records_wf:
  assumes "cache_rep c es" and "db_valid db" and "local_records db es ls t cl = Some rrs"
  shows "\<forall>x \<in> set rrs. wf_rr x" "length rrs \<le> max (length (spec_find (enc_name ls) t cl es)) RR_CNT_MAX"
proof -
  have "(\<forall>x \<in> set rrs. wf_rr x) \<and> length rrs \<le> max (length (spec_find (enc_name ls) t cl es)) RR_CNT_MAX"
    using assms(3) spec_find_wf [OF assms(1), of "enc_name ls" t cl] db_lookup_wf [OF assms(2), of t _ ls]
    by (auto simp: local_records_def split: if_splits option.splits)
  then show "\<forall>x \<in> set rrs. wf_rr x" "length rrs \<le> max (length (spec_find (enc_name ls) t cl es)) RR_CNT_MAX"
    by blast+
qed

lemma answer_from_cache:
  assumes "fresh_alloc (alloc w)" and "cache_rep (ans_cache s) es" and "db_name ls"
    and "qname q = Some (enc_name ls)" and "hits = spec_find (enc_name ls) (qtype q) (qclass q) es"
    and "hits \<noteq> []" and "length hits \<le> length (ans_buffer s)"
  shows "\<exists>c. cache_rep c (fold (spec_put (now w)) hits es) \<and> answer_question w db q s =
    ret (True, s\<lparr>ans_cache := c, ans_buffer := hits @ drop (length hits) (ans_buffer s),
      ans_cnt := ans_cnt s + int (length hits)\<rparr>)"
proof -
  have "c_name (Some (enc_name ls))" using assms(3) by (rule db_name_c_name)
  then have find: "cache_find_rr (ans_cache s) (ans_buffer s) (enc_name ls) (qtype q) (qclass q) =
      ret (int (length hits), hits @ drop (length hits) (ans_buffer s))"
    and dl: "domain_len (Some (enc_name ls)) = ret (int (length (enc_name ls)))"
    using cache_find_ok [OF assms(2)] assms(5,7) domain_len_c_name by simp_all
  obtain c where c: "put_records (alloc w) (now w) hits (ans_cache s) = ret c"
    "cache_rep c (fold (spec_put (now w)) hits es)"
    using put_records_ok [OF assms(1,2)] spec_find_wf [OF assms(2)] assms(5) by metis
  have "first_entries (hits @ drop (length hits) (ans_buffer s)) (length hits) = ret hits"
    by (simp add: first_entries_def)
  with find dl c(1) assms(4,6) print_question_ok [OF assms(3,4)]
  have "answer_question w db q s =
    ret (True, s\<lparr>ans_cache := c, ans_buffer := hits @ drop (length hits) (ans_buffer s),
      ans_cnt := ans_cnt s + int (length hits)\<rparr>)" by (simp add: answer_question_def)
  with c(2) show ?thesis by blast
qed

lemma answer_from_database:
  assumes "cache_rep (ans_cache s) es" and "db_valid db" and "db_name ls"
    and "qname q = Some (enc_name ls)" and "spec_find (enc_name ls) (qtype q) (qclass q) es = []"
    and "known_addresses db ls (qtype q)" and "RR_CNT_MAX \<le> length (ans_buffer s)"
  shows "case local_records db es ls (qtype q) (qclass q) of
      None \<Rightarrow> answer_question w db q s = ret (False, s\<lparr>external_dns_flag := True\<rparr>)
    | Some rrs \<Rightarrow> \<exists>rest. answer_question w db q s =
        ret (True, s\<lparr>ans_buffer := rrs @ rest, ans_cnt := int (length rrs)\<rparr>)"
proof -
  have "c_name (Some (enc_name ls))" using assms(3) by (rule db_name_c_name)
  then have find: "cache_find_rr (ans_cache s) (ans_buffer s) (enc_name ls) (qtype q) (qclass q) = ret (0, ans_buffer s)"
    and dl: "domain_len (Some (enc_name ls)) = ret (int (length (enc_name ls)))"
    using cache_find_ok [OF assms(1), of "enc_name ls" "qtype q" "qclass q" "ans_buffer s"] assms(5)
      domain_len_c_name by simp_all
  note run = answer_question_def find dl print_question_ok [OF assms(3,4)] assms(4)
  show ?thesis
  proof (cases "element_index (qtype q)")
    case None
    with select_database_other [OF assms(3,4)] assms(5) show ?thesis
      by (simp add: local_records_def run)
  next
    case (Some e)
    let ?rs = "db_lookup db ls e"
    have len: "length ?rs \<le> length (ans_buffer s)" using db_lookup_wf(2) [OF assms(2) Some, of ls] assms(7) by simp
    from select_database_ok [OF assms(2-4) Some len] have
      sel: "select_database db q (ans_buffer s) = ret (int (length ?rs), ?rs @ drop (length ?rs) (ans_buffer s))" .
    have sz: "size_t (int (length ?rs)) = length ?rs"
      using db_lookup_wf(2) [OF assms(2) Some, of ls] by (simp add: size_t_def)
    have "\<forall>x \<in> set ?rs. has_address x" using assms(6) Some by (simp add: known_addresses_def)
    then obtain buf where
      "blocked_loop (?rs @ drop (length ?rs) (ans_buffer s)) 0 (length ?rs) = ret (buf, \<exists>x \<in> set ?rs. blocked x)"
      "(\<exists>x \<in> set ?rs. blocked x) \<or> buf = ?rs @ drop (length ?rs) (ans_buffer s)"
      using blocked_loop_ok [of 0 "length ?rs" "?rs @ drop (length ?rs) (ans_buffer s)"] by auto
    with sel sz Some assms(5) show ?thesis by (auto simp: local_records_def run)
  qed
qed

section \<open>Queries with one question\<close>

definition standard_query :: "message \<Rightarrow> message_question \<Rightarrow> label list \<Rightarrow> bool" where
  "standard_query query q ls \<longleftrightarrow> misc_QR (misc1 (header query)) = QR_REQ \<and>
     misc_OPCODE (misc1 (header query)) = OPCODE_QUERY \<and> qdcount (header query) = 1 \<and>
     question query = Some [Some q] \<and> qname q = Some (enc_name ls) \<and> db_name ls"

lemma standard_query_questions:
  "standard_query query q ls \<Longrightarrow> wf_section wf_question (question query) (qdcount (header query))"
  by (simp add: standard_query_def wf_section_def wf_question_def db_name_c_name)

abbreviation start :: "rr_cache \<Rightarrow> answering" where
  "start c \<equiv> \<lparr>ans_cache = c, ans_buffer = replicate ANCOUNT_MAX zero_rr, ans_cnt = 0,
     external_dns_flag = False, failure_flag = RCODE_NO_ERROR\<rparr>"

lemma resolv_handle_single:
  assumes "standard_query query q ls"
  shows "resolv_handle w db c sendbuf p asize query =
    bind_run (answer_question w db q (start c)) (\<lambda>(_, s).
      finish_answer w sendbuf p asize query (initial_answer query) s)"
proof -
  have "question_loop w db query 0 (Suc 0) (start c) =
      bind_run (answer_question w db q (start c)) (\<lambda>(_, s). ret s)"
    using assms by (simp add: standard_query_def case_prod_unfold cong: if_cong)
  then show ?thesis using assms
    by (simp add: resolv_handle_def standard_query_def Let_def bind_run_assoc case_prod_unfold)
qed

lemma answer_question_ok:
  assumes "fresh_alloc (alloc w)" and "cache_rep c es" and "db_valid db" and "standard_query query q ls"
    and "known_addresses db ls (qtype q)"
    and "length (spec_find (enc_name ls) (qtype q) (qclass q) es) \<le> ANCOUNT_MAX"
  shows "case local_records db es ls (qtype q) (qclass q) of
      None \<Rightarrow> answer_question w db q (start c) = ret (False, (start c)\<lparr>external_dns_flag := True\<rparr>)
    | Some rrs \<Rightarrow> \<exists>c' rest. cache_rep c' (cache_after (now w) es ls (qtype q) (qclass q)) \<and>
        answer_question w db q (start c) =
          ret (True, (start c)\<lparr>ans_cache := c', ans_buffer := rrs @ rest, ans_cnt := int (length rrs)\<rparr>)"
proof (cases "spec_find (enc_name ls) (qtype q) (qclass q) es = []")
  case True
  have "(start c)\<lparr>ans_cache := c\<rparr> = start c" by simp
  with True answer_from_database [of "start c" es db ls q w] assms(2,3,4,5) show ?thesis
    by (fastforce simp: cache_after_def standard_query_def split: option.splits)
next
  case False
  with answer_from_cache [OF assms(1), of "start c" es ls q _ db] assms(2,4,6) show ?thesis
    by (force simp: cache_after_def standard_query_def local_records_def)
qed

lemma resolv_local_ok:
  assumes "fresh_alloc (alloc w)" and "cache_rep c es" and "db_valid db" and "standard_query query q ls"
    and "known_addresses db ls (qtype q)"
    and "length (spec_find (enc_name ls) (qtype q) (qclass q) es) \<le> ANCOUNT_MAX"
    and "local_records db es ls (qtype q) (qclass q) = Some rrs"
    and "fits sendbuf p (length (enc_message (local_response query rrs)))" and "length sendbuf < 2 ^ 31"
  shows "\<exists>c'. cache_rep c' (cache_after (now w) es ls (qtype q) (qclass q)) \<and>
    resolv_handle w db c sendbuf p asize query =
      ret (answered sendbuf p (enc_message (local_response query rrs)) query c')"
proof -
  from answer_question_ok [OF assms(1-6)] assms(7) obtain c' rest where
    c': "cache_rep c' (cache_after (now w) es ls (qtype q) (qclass q))"
    and run: "answer_question w db q (start c) =
      ret (True, (start c)\<lparr>ans_cache := c', ans_buffer := rrs @ rest, ans_cnt := int (length rrs)\<rparr>)"
    by auto
  have len: "length (enc_message (local_response query rrs)) < 2 ^ 31" using assms(8,9) by (simp add: fits_def)
  have rrs: "\<forall>x \<in> set rrs. wf_rr x" "length rrs \<le> ANCOUNT_MAX"
    using local_records_wf [OF assms(2,3,7)] assms(6) by simp_all
  have qd: "qdcount (header query) \<noteq> 0" using assms(4) by (simp add: standard_query_def)
  from finish_local [OF standard_query_questions [OF assms(4)] qd rrs _ _ _ _ assms(8) len,
      of "(start c)\<lparr>ans_cache := c', ans_buffer := rrs @ rest, ans_cnt := int (length rrs)\<rparr>" rest w asize]
  show ?thesis using c' run by (auto simp: resolv_handle_single [OF assms(4)])
qed

section \<open>Queries handed to the external resolver\<close>

lemma entries_ok:
  "i + k \<le> length xs \<Longrightarrow> list_all (\<lambda>x. case x of None \<Rightarrow> False | Some y \<Rightarrow> ok y) xs \<Longrightarrow>
     entries (Some xs) i k = ret (map the (take k (drop i xs)))"
proof (induction k arbitrary: i)
  case (Suc k)
  then have i: "i < length xs" by simp
  then obtain x where "xs ! i = Some x"
    using Suc.prems(2) by (auto simp: list_all_length split: option.splits)
  with i Suc show ?case by (simp add: entry_at_def Cons_nth_drop_Suc [symmetric])
qed simp

lemma section_items_all:
  "list_all (\<lambda>x. case x of None \<Rightarrow> False | Some y \<Rightarrow> ok y) xs \<Longrightarrow>
     section_items (Some xs) = map the xs \<and> (\<forall>x \<in> set (map the xs). ok x)"
  by (induction xs) (auto simp: section_items_def map_filter_simps split: option.splits)

lemma section_entries:
  assumes "wf_section ok arr cnt"
  shows "entries arr 0 (unat cnt) = ret (section_items arr) \<and> (\<forall>x \<in> set (section_items arr). ok x)"
proof (cases arr)
  case None
  with assms show ?thesis by (simp add: wf_section_def section_items_def)
next
  case (Some xs)
  with assms have xs: "length xs = unat cnt" "list_all (\<lambda>x. case x of None \<Rightarrow> False | Some y \<Rightarrow> ok y) xs"
    by (simp_all add: wf_section_def)
  show ?thesis
    using Some xs(1) entries_ok [of 0 "length xs" xs ok] section_items_all [of ok xs] xs(2) by simp
qed

lemma initial_answer_empty:
  "\<exists>h. initial_answer query = zero_message\<lparr>header := h\<rparr>"
  "free_heap_message (initial_answer query) = ret (1, initial_answer query)"
  by (auto simp: initial_answer_def free_heap_message_def free_section_def zero_message_def)

text \<open>Writing and releasing a well-formed answer.\<close>

lemma finish_external:
  assumes "external_dns_flag s" and "failure_flag s = 0"
    and "ask_external w query (initial_answer query) (ans_cache s) = ret (True, query', m, c)"
    and "wf_message m" and "fits sendbuf p (length (enc_message m))" and "length (enc_message m) < 2 ^ 31"
  shows "finish_answer w sendbuf p asize query (initial_answer query) s =
    ret (answered sendbuf p (enc_message m) query' c)"
  using assms(1-3) message_to_u8_writes [OF assms(4-6)] free_heap_message_ok [OF assms(4)]
  by (simp add: finish_answer_def)

text \<open>The response when the exchange failed: the header \<open>h\<close> that \<^verbatim>\<open>send_question\<close> left, without records.\<close>

definition empty_response :: "message_header \<Rightarrow> message \<Rightarrow> message" where
  "empty_response h query = zero_message\<lparr>
     header := h\<lparr>qdcount := qdcount (header query), ancount := 0, nscount := 0, arcount := 0\<rparr>,
     question := question query\<rparr>"

lemma finish_failed:
  assumes "external_dns_flag s" and "failure_flag s = 0" and "ans_cnt s = 0"
    and "ask_external w query (initial_answer query) (ans_cache s) =
      ret (False, query', zero_message\<lparr>header := h\<lparr>ancount := 0, arcount := 0, nscount := 0\<rparr>\<rparr>, c)"
    and "wf_section wf_question (question query') (qdcount (header query'))" and "qdcount (header query') \<noteq> 0"
    and "fits sendbuf p (length (enc_message (empty_response h query')))"
    and "length (enc_message (empty_response h query')) < 2 ^ 31"
  shows "finish_answer w sendbuf p asize query (initial_answer query) s =
    ret (answered sendbuf p (enc_message (empty_response h query')) query' c)"
proof -
  let ?m = "empty_response h query'"
  have wf: "wf_message ?m"
    using assms(5) by (simp add: wf_message_def empty_response_def zero_message_def wf_section_def)
  have "fill_answer (ans_buffer s) 0 ans = ret (ans\<lparr>header := (header ans)\<lparr>ancount := 0\<rparr>\<rparr>)" for ans
    by (simp add: fill_answer_def Let_def)
  then have "bind_run (fill_answer (ans_buffer s) (ans_cnt s)
        (zero_message\<lparr>header := h\<lparr>ancount := 0, arcount := 0, nscount := 0\<rparr>\<rparr>)) (paste_questions query') =
      ret (?m, False)"
    using assms(3) paste_questions_ok [OF assms(5,6)] by (simp add: empty_response_def)
  with assms(1,2,4) message_to_u8_writes [OF wf assms(7,8)] free_heap_message_ok [OF wf] show ?thesis
    by (auto simp: finish_answer_def)
qed

text \<open>What the external exchange needs of a query that is not known locally.\<close>

definition forwardable :: "world \<Rightarrow> message \<Rightarrow> bool" where
  "forwardable w query \<longleftrightarrow> wf_message query \<and> arcount (header query) + 1 \<noteq> 0 \<and> socket_ok (net w) \<and>
     option_ok (net w) \<and> length (enc_message query) + 11 \<le> CLIENT_BUFFER_SIZE"

lemma edns_version_questions:
  assumes "edns_version (set_id i query) sent"
  shows "question (set_id k sent) = question query" "qdcount (header (set_id k sent)) = qdcount (header query)"
proof -
  have "question sent = question query" "header sent = (header (set_id i query))\<lparr>arcount := arcount (header sent)\<rparr>"
    using assms by (simp_all add: edns_version_def set_id_def)
  moreover from this(2) have "qdcount (header sent) = qdcount (header query)"
    by (auto dest: arg_cong [where f = qdcount] simp: set_id_def)
  ultimately show "question (set_id k sent) = question query"
    "qdcount (header (set_id k sent)) = qdcount (header query)"
    by (simp_all add: set_id_def)
qed

lemma ask_external_ok:
  assumes "fresh_alloc (alloc w)" and "cache_rep c es" and "forwardable w query"
  shows "\<exists>sent. edns_version (set_id (new_id (net w)) query) sent \<and>
    (exchange (net w) (enc_message sent) = None \<longrightarrow>
       ask_external w query (initial_answer query) c =
         ret (False, set_id (msg_id (header query)) sent, clear_counts (initial_answer query), c)) \<and>
    (\<forall>m. plain_message m \<and> length (enc_message m) \<le> CLIENT_BUFFER_SIZE \<and>
         exchange (net w) (enc_message sent) = Some (enc_message m) \<longrightarrow>
       (if msg_id (header m) = new_id (net w)
        then \<exists>c'. cache_rep c' (fold (spec_put (later w)) (section_items (answer m)) es) \<and>
          ask_external w query (initial_answer query) c =
            ret (True, set_id (msg_id (header query)) sent, set_id (msg_id (header query)) m, c')
        else ask_external w query (initial_answer query) c =
          ret (False, set_id (msg_id (header query)) sent, clear_counts (zero_message\<lparr>header := header m\<rparr>), c)))"
proof -
  let ?old = "msg_id (header query)"
  obtain h where h: "initial_answer query = zero_message\<lparr>header := h\<rparr>" using initial_answer_empty(1) by blast
  from assms(3) have pre: "wf_message query" "arcount (header query) + 1 \<noteq> 0" "socket_ok (net w)"
    "option_ok (net w)" "length (enc_message query) + 11 \<le> CLIENT_BUFFER_SIZE"
    by (simp_all add: forwardable_def)
  from send_question_ok [OF pre, of "initial_answer query" h] obtain sent
    where sent: "edns_version (set_id (new_id (net w)) query) sent"
      and none: "exchange (net w) (enc_message sent) = None \<longrightarrow>
        send_question (net w) query (initial_answer query) = ret (-1, set_id ?old sent, initial_answer query)"
      and some: "\<forall>m. plain_message m \<and> length (enc_message m) \<le> CLIENT_BUFFER_SIZE \<and>
        exchange (net w) (enc_message sent) = Some (enc_message m) \<longrightarrow>
        send_question (net w) query (initial_answer query) =
         (if msg_id (header m) = new_id (net w) then ret (1, set_id ?old sent, set_id ?old m)
          else ret (-1, set_id ?old sent,
                    m\<lparr>question := None, answer := None, authority := None, addition := None\<rparr>))"
    unfolding h by (elim exE conjE)
  note run = ask_external_def initial_answer_empty(2)
  show ?thesis
  proof (intro exI [of _ sent] conjI sent allI impI)
    show "ask_external w query (initial_answer query) c =
        ret (False, set_id ?old sent, clear_counts (initial_answer query), c)"
      if "exchange (net w) (enc_message sent) = None" using none that by (simp add: run)
  next
    fix m assume "plain_message m \<and> length (enc_message m) \<le> CLIENT_BUFFER_SIZE \<and>
      exchange (net w) (enc_message sent) = Some (enc_message m)"
    then have m: "plain_message m" and sq: "send_question (net w) query (initial_answer query) =
        (if msg_id (header m) = new_id (net w) then ret (1, set_id ?old sent, set_id ?old m)
         else ret (-1, set_id ?old sent,
                   m\<lparr>question := None, answer := None, authority := None, addition := None\<rparr>))"
      using some by blast+
    have "wf_section plain_rr (answer m) (ancount (header m))" using m by (simp add: plain_message_def)
    from section_entries [OF this] have en: "entries (answer m) 0 (unat (ancount (header m))) = ret (section_items (answer m))"
      and wf: "\<forall>x \<in> set (section_items (answer m)). wf_rr x" by (auto simp: plain_rr_def)
    obtain c' where c': "put_records (alloc w) (later w) (section_items (answer m)) c = ret c'"
      "cache_rep c' (fold (spec_put (later w)) (section_items (answer m)) es)"
      using put_records_ok [OF assms(1,2) wf] by blast
    show "if msg_id (header m) = new_id (net w)
        then \<exists>c'. cache_rep c' (fold (spec_put (later w)) (section_items (answer m)) es) \<and>
          ask_external w query (initial_answer query) c = ret (True, set_id ?old sent, set_id ?old m, c')
        else ask_external w query (initial_answer query) c =
          ret (False, set_id ?old sent, clear_counts (zero_message\<lparr>header := header m\<rparr>), c)"
    proof (cases "msg_id (header m) = new_id (net w)")
      case True
      have "ask_external w query (initial_answer query) c = ret (True, set_id ?old sent, set_id ?old m, c')"
        using True sq en c'(1) by (simp add: run) (simp add: set_id_def)
      with True c'(2) show ?thesis by auto
    next
      case False
      have "m\<lparr>question := None, answer := None, authority := None, addition := None\<rparr> = zero_message\<lparr>header := header m\<rparr>"
        by (simp add: zero_message_def)
      with False sq show ?thesis by (simp add: run)
    qed
  qed
qed

lemma resolv_unknown:
  assumes "fresh_alloc (alloc w)" and "cache_rep c es" and "db_valid db" and "standard_query query q ls"
    and "known_addresses db ls (qtype q)" and "local_records db es ls (qtype q) (qclass q) = None"
  shows "resolv_handle w db c sendbuf p asize query =
    finish_answer w sendbuf p asize query (initial_answer query) ((start c)\<lparr>external_dns_flag := True\<rparr>)"
proof -
  have "spec_find (enc_name ls) (qtype q) (qclass q) es = []"
    using assms(6) by (auto simp: local_records_def split: if_splits)
  with answer_question_ok [OF assms(1-5)] assms(6) show ?thesis by (simp add: resolv_handle_single [OF assms(4)])
qed

lemma enc_empty_response:
  "length (enc_message (empty_response h query)) = length (enc_message (local_response query []))"
  by (simp add: empty_response_def local_response_def enc_message_def zero_message_def)

lemma resolv_reply:
  assumes "fresh_alloc (alloc w)" and "cache_rep c es" and "db_valid db" and "standard_query query q ls"
    and "known_addresses db ls (qtype q)" and "local_records db es ls (qtype q) (qclass q) = None"
    and "forwardable w query" and "length sendbuf < 2 ^ 31"
  shows "\<exists>sent. edns_version (set_id (new_id (net w)) query) sent \<and>
    (\<forall>m. plain_message m \<and> msg_id (header m) = new_id (net w) \<and> length (enc_message m) \<le> CLIENT_BUFFER_SIZE \<and>
         fits sendbuf p (length (enc_message m)) \<and> exchange (net w) (enc_message sent) = Some (enc_message m) \<longrightarrow>
       (\<exists>c'. cache_rep c' (fold (spec_put (later w)) (section_items (answer m)) es) \<and>
          resolv_handle w db c sendbuf p asize query =
            ret (answered sendbuf p (enc_message (set_id (msg_id (header query)) m))
              (set_id (msg_id (header query)) sent) c')))"
proof -
  from ask_external_ok [OF assms(1,2,7)] obtain sent where
    sent: "edns_version (set_id (new_id (net w)) query) sent" and
    some: "\<forall>m. plain_message m \<and> length (enc_message m) \<le> CLIENT_BUFFER_SIZE \<and>
         exchange (net w) (enc_message sent) = Some (enc_message m) \<longrightarrow>
       (if msg_id (header m) = new_id (net w)
        then \<exists>c'. cache_rep c' (fold (spec_put (later w)) (section_items (answer m)) es) \<and>
          ask_external w query (initial_answer query) c =
            ret (True, set_id (msg_id (header query)) sent, set_id (msg_id (header query)) m, c')
        else ask_external w query (initial_answer query) c =
          ret (False, set_id (msg_id (header query)) sent, clear_counts (zero_message\<lparr>header := header m\<rparr>), c))"
    by (elim exE conjE)
  show ?thesis
  proof (intro exI [of _ sent] conjI sent allI impI)
    fix m assume m: "plain_message m \<and> msg_id (header m) = new_id (net w) \<and> length (enc_message m) \<le> CLIENT_BUFFER_SIZE \<and>
         fits sendbuf p (length (enc_message m)) \<and> exchange (net w) (enc_message sent) = Some (enc_message m)"
    with some [rule_format, of m] obtain c' where c': "cache_rep c' (fold (spec_put (later w)) (section_items (answer m)) es)"
      "ask_external w query (initial_answer query) c =
         ret (True, set_id (msg_id (header query)) sent, set_id (msg_id (header query)) m, c')" by auto
    have "wf_message (set_id (msg_id (header query)) m)" using m by (simp add: wf_message_set_id plain_message_wf)
    moreover have "length (enc_message m) < 2 ^ 31" using m assms(8) by (simp add: fits_def)
    ultimately have "finish_answer w sendbuf p asize query (initial_answer query) ((start c)\<lparr>external_dns_flag := True\<rparr>) =
      ret (answered sendbuf p (enc_message (set_id (msg_id (header query)) m)) (set_id (msg_id (header query)) sent) c')"
      using m c'(2) by (intro finish_external) (simp_all add: length_enc_set_id)
    with c'(1) show "\<exists>c'. cache_rep c' (fold (spec_put (later w)) (section_items (answer m)) es) \<and>
          resolv_handle w db c sendbuf p asize query =
            ret (answered sendbuf p (enc_message (set_id (msg_id (header query)) m))
              (set_id (msg_id (header query)) sent) c')"
      unfolding resolv_unknown [OF assms(1-6)] by blast
  qed
qed

lemma resolv_failed:
  assumes "fresh_alloc (alloc w)" and "cache_rep c es" and "db_valid db" and "standard_query query q ls"
    and "known_addresses db ls (qtype q)" and "local_records db es ls (qtype q) (qclass q) = None"
    and "forwardable w query" and "length sendbuf < 2 ^ 31"
    and "fits sendbuf p (length (enc_message (local_response query [])))"
  shows "\<exists>sent. edns_version (set_id (new_id (net w)) query) sent \<and>
    (exchange (net w) (enc_message sent) = None \<longrightarrow>
       resolv_handle w db c sendbuf p asize query =
         ret (answered sendbuf p (enc_message (empty_response (header (initial_answer query)) query))
           (set_id (msg_id (header query)) sent) c)) \<and>
    (\<forall>m. plain_message m \<and> msg_id (header m) \<noteq> new_id (net w) \<and> length (enc_message m) \<le> CLIENT_BUFFER_SIZE \<and>
         exchange (net w) (enc_message sent) = Some (enc_message m) \<longrightarrow>
       resolv_handle w db c sendbuf p asize query =
         ret (answered sendbuf p (enc_message (empty_response (header m) query))
           (set_id (msg_id (header query)) sent) c))"
proof -
  let ?old = "msg_id (header query)" let ?s = "(start c)\<lparr>external_dns_flag := True\<rparr>"
  from ask_external_ok [OF assms(1,2,7)] obtain sent where
    sent: "edns_version (set_id (new_id (net w)) query) sent" and
    none: "exchange (net w) (enc_message sent) = None \<longrightarrow> ask_external w query (initial_answer query) c =
         ret (False, set_id ?old sent, clear_counts (initial_answer query), c)" and
    some: "\<forall>m. plain_message m \<and> length (enc_message m) \<le> CLIENT_BUFFER_SIZE \<and>
         exchange (net w) (enc_message sent) = Some (enc_message m) \<longrightarrow>
       (if msg_id (header m) = new_id (net w)
        then \<exists>c'. cache_rep c' (fold (spec_put (later w)) (section_items (answer m)) es) \<and>
          ask_external w query (initial_answer query) c = ret (True, set_id ?old sent, set_id ?old m, c')
        else ask_external w query (initial_answer query) c =
          ret (False, set_id ?old sent, clear_counts (zero_message\<lparr>header := header m\<rparr>), c))"
    by (elim exE conjE)
  note same = edns_version_questions [OF sent]
  have eq: "empty_response h (set_id ?old sent) = empty_response h query" for h
    by (simp add: empty_response_def same)
  have fin: "resolv_handle w db c sendbuf p asize query =
      ret (answered sendbuf p (enc_message (empty_response h query)) (set_id ?old sent) c)"
    if "ask_external w query (initial_answer query) c =
      ret (False, set_id ?old sent, clear_counts (zero_message\<lparr>header := h\<rparr>), c)" for h
    unfolding resolv_unknown [OF assms(1-6)] eq [symmetric]
    using that standard_query_questions [OF assms(4)] assms(4,8,9)
    by (intro finish_failed) (simp_all add: clear_counts_def same enc_empty_response eq fits_def standard_query_def)
  have init: "initial_answer query = zero_message\<lparr>header := header (initial_answer query)\<rparr>"
    by (simp add: initial_answer_def zero_message_def)
  show ?thesis
  proof (intro exI [of _ sent] conjI sent allI impI)
    assume "exchange (net w) (enc_message sent) = None"
    with none init show "resolv_handle w db c sendbuf p asize query =
         ret (answered sendbuf p (enc_message (empty_response (header (initial_answer query)) query)) (set_id ?old sent) c)"
      by (intro fin) simp
  next
    fix m assume "plain_message m \<and> msg_id (header m) \<noteq> new_id (net w) \<and> length (enc_message m) \<le> CLIENT_BUFFER_SIZE \<and>
         exchange (net w) (enc_message sent) = Some (enc_message m)"
    with some [rule_format, of m] show "resolv_handle w db c sendbuf p asize query =
         ret (answered sendbuf p (enc_message (empty_response (header m) query)) (set_id ?old sent) c)"
      by (intro fin) auto
  qed
qed

section \<open>Queries that break the resolver\<close>

lemma single_question_query:
  assumes "misc_QR (misc1 (header query)) = QR_REQ" and "misc_OPCODE (misc1 (header query)) = OPCODE_QUERY"
    and "qdcount (header query) \<noteq> 0"
  shows "resolv_handle w db c sendbuf p asize query =
    bind_run (question_loop w db query 0 (Suc (unat (qdcount (header query)) - 1)) (start c))
      (finish_answer w sendbuf p asize query (initial_answer query))"
proof -
  have "0 < unat (qdcount (header query))" using assms(3) by (simp add: unat_gt_0)
  then have "Suc (unat (qdcount (header query)) - 1) = unat (qdcount (header query))" by simp
  with assms(1,2) show ?thesis unfolding resolv_handle_def by simp
qed

text \<open>A packet that was rejected for its truncation flag has no questions but a count of them.\<close>

lemma resolv_null_questions:
  assumes "misc_QR (misc1 (header query)) = QR_REQ" and "misc_OPCODE (misc1 (header query)) = OPCODE_QUERY"
    and "qdcount (header query) \<noteq> 0" and "question query = None"
  shows "resolv_handle w db c sendbuf p asize query = fail NullDeref"
  using assms(4) by (simp add: single_question_query [OF assms(1-3)])

text \<open>A length byte that points behind the end of the name.\<close>

lemma print_overread:
  assumes "qname q = Some (k # rest @ [0])" and "nul_free (k # rest)" and "length rest + 2 \<le> 255"
    and "length rest + 1 < unat k"
  shows "print_question q = fail OutOfBounds"
proof -
  have "c_name (qname q)" using assms(1-3) by (simp add: c_name_def butlast_append)
  then have "domain_len (qname q) = ret (int (length rest + 2))"
    using domain_len_c_name [of "qname q"] assms(1) by simp
  moreover have "k \<noteq> 0" using assms(2) by (simp add: nul_free_def)
  moreover have "int (length rest + 1) < uint k" using assms(4) by (simp only: uint_nat of_nat_less_iff)
  then have "rd_bytes (k # rest @ [0]) 1 (unat k) = fail OutOfBounds"
    using assms(4) by (simp add: rd_bytes_def)
  ultimately show ?thesis
    using assms(1) by (simp add: print_question_def print_loop.simps rd8_def nat_add_distrib)
qed

lemma resolv_overread:
  assumes "misc_QR (misc1 (header query)) = QR_REQ" and "misc_OPCODE (misc1 (header query)) = OPCODE_QUERY"
    and "qdcount (header query) \<noteq> 0" and "question query = Some (Some q # qs)"
    and "qname q = Some (k # rest @ [0])" and "nul_free (k # rest)" and "length rest + 2 \<le> 255"
    and "length rest + 1 < unat k"
  shows "resolv_handle w db c sendbuf p asize query = fail OutOfBounds"
  using assms(4) print_overread [OF assms(5-8)]
  by (simp add: single_question_query [OF assms(1-3)] answer_question_def)

text \<open>
  Two questions that are both in the cache: the second search fills the buffer from its start again, but the
  numbers of records add up, so that records that were never set become part of the answer.
\<close>

lemma overlapping_hits:
  assumes "xs \<noteq> []" and "ys \<noteq> []" and "length xs + length ys \<le> n"
  shows "\<exists>rest. take (length xs + length ys) (ys @ drop (length ys) (xs @ drop (length xs) (replicate n z))) =
    (ys @ drop (length ys) xs) @ z # rest"
proof -
  let ?k = "length xs + length ys" and ?m = "max (length xs) (length ys)"
  have "ys @ drop (length ys) (xs @ drop (length xs) (replicate n z)) = (ys @ drop (length ys) xs) @ replicate (n - ?m) z"
    by (simp add: max_def)
  moreover have "length (ys @ drop (length ys) xs) = ?m" by (simp add: max_def)
  moreover have "?m \<le> ?k" "?m < n" using assms by (cases xs; cases ys; simp add: max_def)+
  ultimately have "take ?k (ys @ drop (length ys) (xs @ drop (length xs) (replicate n z))) =
      (ys @ drop (length ys) xs) @ replicate (?k - ?m) z"
    using assms(3) by (simp only: take_append take_replicate) (simp add: min_def max_def)
  moreover have "0 < ?k - ?m" using assms(1,2) by (cases xs; cases ys) (auto simp: max_def)
  ultimately show ?thesis by (metis Suc_pred replicate_Suc)
qed

lemma length_local_response:
  "length (enc_message (local_response query rrs)) =
     12 + length (enc_section enc_question (question query)) + length (concat (map enc_rr rrs))"
proof -
  have "section_items (Some (map Some rrs)) = rrs"
    by (induction rrs) (simp_all add: section_items_def map_filter_simps)
  then show ?thesis by (simp add: local_response_def enc_message_def enc_section_def section_items_def)
qed

lemma two_cached_loop:
  assumes "fresh_alloc (alloc w)" and "cache_rep c es"
    and "qdcount (header query) = 2" and "question query = Some [Some q, Some q']"
    and "qname q = Some (enc_name ls)" and "db_name ls" and "qname q' = Some (enc_name ls')" and "db_name ls'"
    and "hits = spec_find (enc_name ls) (qtype q) (qclass q) es" and "hits \<noteq> []"
    and "hits' = spec_find (enc_name ls') (qtype q') (qclass q') (fold (spec_put (now w)) hits es)" and "hits' \<noteq> []"
    and "length hits + length hits' \<le> ANCOUNT_MAX"
  shows "(\<forall>x \<in> set (hits @ hits'). wf_rr x) \<and>
    (\<exists>c'. question_loop w db query 0 (unat (qdcount (header query))) (start c) = ret ((start c)\<lparr>ans_cache := c',
       ans_buffer := hits' @ drop (length hits') (hits @ drop (length hits) (replicate ANCOUNT_MAX zero_rr)),
       ans_cnt := int (length hits + length hits')\<rparr>))"
proof -
  let ?n = "length hits" and ?n' = "length hits'" and ?z = "replicate ANCOUNT_MAX zero_rr"
  from answer_from_cache [OF assms(1), of "start c" es ls q hits db] assms obtain c1 where
    c1: "cache_rep c1 (fold (spec_put (now w)) hits es)" "answer_question w db q (start c) =
      ret (True, (start c)\<lparr>ans_cache := c1, ans_buffer := hits @ drop ?n ?z, ans_cnt := int ?n\<rparr>)" by auto
  let ?s1 = "(start c)\<lparr>ans_cache := c1, ans_buffer := hits @ drop ?n ?z, ans_cnt := int ?n\<rparr>"
  from answer_from_cache [OF assms(1), of ?s1 "fold (spec_put (now w)) hits es" ls' q' hits' db] c1(1) assms obtain c2 where
    c2: "answer_question w db q' ?s1 = ret (True, ?s1\<lparr>ans_cache := c2, ans_buffer := hits' @ drop ?n' (hits @ drop ?n ?z),
      ans_cnt := int (?n + ?n')\<rparr>)" by auto
  have "unat (qdcount (header query)) = Suc (Suc 0)" using assms(3) by simp
  with c1(2) c2 assms(4) have "question_loop w db query 0 (unat (qdcount (header query))) (start c) =
      ret (?s1\<lparr>ans_cache := c2, ans_buffer := hits' @ drop ?n' (hits @ drop ?n ?z), ans_cnt := int (?n + ?n')\<rparr>)" by simp
  moreover have "\<forall>x \<in> set (hits @ hits'). wf_rr x"
    using spec_find_wf [OF assms(2)] spec_find_wf [OF c1(1)] assms(9,11) by auto
  ultimately show ?thesis by auto
qed

lemma resolv_two_cached:
  assumes "fresh_alloc (alloc w)" and "cache_rep c es"
    and "misc_QR (misc1 (header query)) = QR_REQ" and "misc_OPCODE (misc1 (header query)) = OPCODE_QUERY"
    and "qdcount (header query) = 2" and "question query = Some [Some q, Some q']"
    and "qname q = Some (enc_name ls)" and "db_name ls" and "qname q' = Some (enc_name ls')" and "db_name ls'"
    and "hits = spec_find (enc_name ls) (qtype q) (qclass q) es" and "hits \<noteq> []"
    and "hits' = spec_find (enc_name ls') (qtype q') (qclass q') (fold (spec_put (now w)) hits es)" and "hits' \<noteq> []"
    and "length hits + length hits' \<le> ANCOUNT_MAX"
    and "fits sendbuf p (length (enc_message (local_response query (hits' @ drop (length hits') hits))))"
  shows "resolv_handle w db c sendbuf p asize query = fail NullDeref"
proof -
  let ?n = "length hits" and ?n' = "length hits'" and ?rrs = "hits' @ drop (length hits') hits"
  let ?buf = "hits' @ drop ?n' (hits @ drop ?n (replicate ANCOUNT_MAX zero_rr))"
  from two_cached_loop [OF assms(1,2,5-15)] obtain c' where wf: "\<forall>x \<in> set (hits @ hits'). wf_rr x" and
    loop: "question_loop w db query 0 (unat (qdcount (header query))) (start c) =
      ret ((start c)\<lparr>ans_cache := c', ans_buffer := ?buf, ans_cnt := int (?n + ?n')\<rparr>)" by blast
  obtain rest where take: "take (?n + ?n') ?buf = ?rrs @ zero_rr # rest"
    using overlapping_hits [OF assms(12,14,15), of zero_rr] by blast
  define cnt where "cnt = (of_nat (?n + ?n') :: u16)"
  have u: "unat cnt = ?n + ?n'" using assms(15) by (simp only: cnt_def unat_of_nat) simp
  then have nz: "cnt \<noteq> 0" using assms(12) by (auto simp flip: unat_eq_zero)
  have "?n + ?n' \<le> length ?buf" using assms(15) by simp
  then have fill: "fill_answer ?buf (int (?n + ?n')) ans =
      ret (ans\<lparr>header := (header ans)\<lparr>ancount := cnt\<rparr>, answer := Some (map Some (?rrs @ zero_rr # rest))\<rparr>)" for ans
    using u nz by (simp only: fill_answer_def first_entries_def of_int_of_nat_eq cnt_def [symmetric] Let_def take)
      (simp add: take)
  have qs: "wf_section wf_question (question query) (qdcount (header query))"
    using assms(5-10) by (simp add: wf_section_def wf_question_def db_name_c_name)
  let ?m = "(local_response query ?rrs)\<lparr>header := (header (local_response query ?rrs))\<lparr>ancount := cnt\<rparr>,
    answer := Some (map Some ?rrs @ Some zero_rr # map Some rest)\<rparr>"
  have "message_to_u8 ?m sendbuf p = fail NullDeref"
  proof (rule message_to_u8_fault)
    show "length ?rrs < unat (ancount (header ?m))" using assms(12,14) u by (cases hits; cases hits') auto
    show "\<forall>x \<in> set ?rrs. wf_rr x" using wf by (auto dest: in_set_dropD)
    show "fits sendbuf p (length (enc_header (header ?m) @ enc_section enc_question (question ?m) @ concat (map enc_rr ?rrs)))"
      using assms(16) unfolding length_local_response by (simp add: local_response_def add.assoc)
    show "rr_name zero_rr = None" by (simp add: zero_rr_def)
  qed (use qs in \<open>simp_all add: local_response_def\<close>)
  moreover have "paste_questions query ((initial_answer query)\<lparr>header := (header (initial_answer query))\<lparr>ancount := cnt\<rparr>,
      answer := Some (map Some (?rrs @ zero_rr # rest))\<rparr>) = ret (?m, False)"
    using paste_questions_ok [OF qs] assms(5)
    by (simp add: initial_answer_def zero_message_def zero_header_def local_response_def)
  ultimately show ?thesis
    using assms(3,4) loop fill by (simp add: resolv_handle_def finish_answer_def)
qed

text \<open>More cached records for a name than \<^verbatim>\<open>ans_buffer\<close> has room for.\<close>

lemma resolv_many_cached:
  assumes "cache_rep c es" and "standard_query query q ls"
    and "ANCOUNT_MAX < length (spec_find (enc_name ls) (qtype q) (qclass q) es)"
  shows "resolv_handle w db c sendbuf p asize query = fail OutOfBounds"
proof -
  have q: "db_name ls" "qname q = Some (enc_name ls)" using assms(2) by (simp_all add: standard_query_def)
  have "answer_question w db q (start c) = fail OutOfBounds"
    using cache_find_rr_result [OF assms(1) db_name_c_name [OF q(1)], of "replicate ANCOUNT_MAX zero_rr" "qtype q" "qclass q"]
      domain_len_c_name [OF db_name_c_name [OF q(1)]] print_question_ok [OF q] q(2) assms(3)
    by (simp add: answer_question_def)
  then show ?thesis by (simp add: resolv_handle_single [OF assms(2)])
qed

text \<open>A name too long for \<^verbatim>\<open>domain_len\<close> is not copied into the response but shared with it.\<close>

definition format_error :: "message \<Rightarrow> message_header" where
  "format_error query = (header (initial_answer query))\<lparr>qdcount := qdcount (header query),
     misc2 := create_misc2 RA_FALSE Z_FLAG RCODE_FORMAT_ERROR\<rparr>"

lemma resolv_long_name:
  assumes "misc_QR (misc1 (header query)) = QR_REQ" and "misc_OPCODE (misc1 (header query)) = OPCODE_QUERY"
    and "qdcount (header query) = 1" and "question query = Some [Some q]" and "qname q = Some (bs @ [0])"
    and "nul_free bs" and "255 \<le> length bs" and "length bs < 512" and "fits sendbuf p 12"
  shows "resolv_handle w db c sendbuf p asize query =
    ret \<lparr>res_code = 1, res_buf = overlay sendbuf p (enc_header (format_error query)), res_size = 11,
         res_query = query, res_cache = c, res_dangling = True\<rparr>"
proof -
  have dl: "domain_len (Some (bs @ [0])) = ret (-1)" using assms(6-8) by (rule domain_len_long)
  let ?m = "zero_message\<lparr>header := format_error query, question := Some [Some q]\<rparr>"
  have "answer_question w db q (start c) = ret (False, (start c)\<lparr>failure_flag := RCODE_FORMAT_ERROR\<rparr>)"
    using dl assms(5) by (simp add: answer_question_def print_question_def)
  moreover have "paste_questions query (clear_counts ((initial_answer query)\<lparr>header := (header (initial_answer query))\<lparr>
      misc2 := create_misc2 RA_FALSE Z_FLAG RCODE_FORMAT_ERROR\<rparr>\<rparr>)) = ret (?m, True)"
    using dl assms(3-5)
    by (simp add: paste_questions_def Let_def entry_at_def mq_copy_def clear_counts_def format_error_def
        initial_answer_def zero_message_def zero_header_def)
  moreover have "message_to_u8 ?m sendbuf p = ret (11, overlay sendbuf p (enc_header (format_error query)))"
    using dl assms(3,5,9) msg_header_to_u8_writes [OF assms(9), of "format_error query"]
    by (simp add: message_to_u8_def write_section_def msg_question_to_u8_def zero_message_def
        format_error_def initial_answer_def zero_header_def)
  moreover have "free_heap_message ?m = ret (1, ?m\<lparr>question := None\<rparr>)"
    using assms(3) by (simp add: free_heap_message_def free_section_def zero_message_def format_error_def)
  ultimately show ?thesis
    using assms(1-4) initial_answer_empty(2)
    by (simp add: single_question_query finish_answer_def)
qed

section \<open>Properties\<close>

definition sample_world :: "u16 \<Rightarrow> world" where
  "sample_world i = \<lparr>alloc = (\<lambda>c. Suc (Max (dom (nodes c)))), now = 100, later = 101, net = sample_net i\<rparr>"

definition sample_db :: database where
  "sample_db = \<lparr>tree = tree_init rr_hash\<rparr>"

abbreviation (input) sample_q :: message_question where
  "sample_q \<equiv> \<lparr>qname = Some [1, 97, 0], qtype = 1, qclass = 1\<rparr>"

lemma fresh_sample: "fresh_alloc (alloc (sample_world i))"
  unfolding fresh_alloc_def sample_world_def by simp (metis Max_ge Suc_n_not_le_n domIff)

lemma sample_db_ok: "db_valid sample_db" "db_lookup sample_db ls e = []" "known_addresses sample_db ls t"
  using relay_db_init
  by (simp_all add: sample_db_def relay_db_def known_addresses_def split: option.splits)

lemma standard_sample: "standard_query sample_query sample_q [[97]]"
  by (simp add: standard_query_def sample_query_def misc_QR_def misc_OPCODE_def enc_name_def enc_label_def
      db_name_def wf_lab_def nul_free_def)

lemma forwardable_sample: "forwardable (sample_world i) sample_query"
  using sample_query_ok by (simp add: forwardable_def sample_world_def sample_net_def)

lemma length_local_sample: "length (enc_message (local_response sample_query [])) = 19"
  "length (enc_message (local_response sample_query [sample_rr])) = 36"
  by (simp_all add: local_response_def enc_message_def enc_section_def section_items_def map_filter_simps
      enc_question_def enc_rr_def sample_query_def sample_rr_def)

lemma enc_name_sample: "enc_name [[97]] = [1, 97, 0]"
  by (simp add: enc_name_def enc_label_def)

text \<open>C10: a query with one question that the cache or the database can answer gets the response with
  exactly these records under its own identifier, written at the given place of the send buffer:
  cached records first, else the ones of the database, and none at all when the name is blocked.
  Nothing is sent outside, and of the cache only the order changes.\<close>

theorem resolv_answers_locally:
  assumes "fresh_alloc (alloc w)" and "cache_rep c es" and "db_valid db" and "standard_query query q ls"
    and "known_addresses db ls (qtype q)"
    and "length (spec_find (enc_name ls) (qtype q) (qclass q) es) \<le> ANCOUNT_MAX"
    and "local_records db es ls (qtype q) (qclass q) = Some rrs"
    and "fits sendbuf p (length (enc_message (local_response query rrs)))" and "length sendbuf < 2 ^ 31"
  shows "\<exists>c'. cache_rep c' (cache_after (now w) es ls (qtype q) (qclass q)) \<and>
    resolv_handle w db c sendbuf p asize query =
      ret (answered sendbuf p (enc_message (local_response query rrs)) query c')"
  using assms by (rule resolv_local_ok)

theorem resolv_answers_locally_witness:
  "\<exists>c c'. cache_rep c [(sample_rr, 160)] \<and> cache_rep c' [(sample_rr, 160)] \<and>
     resolv_handle (sample_world 7) sample_db c (replicate 40 0) 2 0 sample_query =
       ret (answered (replicate 40 0) 2 (enc_message (local_response sample_query [sample_rr])) sample_query c')"
proof -
  obtain c where c: "cache_rep c [(sample_rr, 160)]" using sample_cache by blast
  have find: "spec_find (enc_name [[97]]) 1 1 [(sample_rr, 160)] = [sample_rr]"
    by (simp add: spec_find_def matches_def sample_rr_def enc_name_sample)
  then have "cache_after 100 [(sample_rr, 160)] [[97]] 1 1 = [(sample_rr, 160)]"
    "local_records sample_db [(sample_rr, 160)] [[97]] 1 1 = Some [sample_rr]"
    by (simp_all add: cache_after_def local_records_def spec_put_def same_rr_def)
  then show ?thesis
    using c resolv_answers_locally [OF fresh_sample c sample_db_ok(1) standard_sample sample_db_ok(3),
        of "[sample_rr]" "replicate 40 0" 2 7 0] find
    by (auto simp: length_local_sample fits_def sample_world_def)
qed

text \<open>C11: a query with one question that nothing local can answer goes to the external resolver with a
  fresh identifier and an OPT record, and the reply to it goes to the client unchanged but for the
  identifier, which is the client's; the answers of the reply are put into the cache.\<close>

theorem resolv_forwards:
  assumes "fresh_alloc (alloc w)" and "cache_rep c es" and "db_valid db" and "standard_query query q ls"
    and "known_addresses db ls (qtype q)" and "local_records db es ls (qtype q) (qclass q) = None"
    and "forwardable w query" and "length sendbuf < 2 ^ 31"
  shows "\<exists>sent. edns_version (set_id (new_id (net w)) query) sent \<and>
    (\<forall>m. plain_message m \<and> msg_id (header m) = new_id (net w) \<and> length (enc_message m) \<le> CLIENT_BUFFER_SIZE \<and>
         fits sendbuf p (length (enc_message m)) \<and> exchange (net w) (enc_message sent) = Some (enc_message m) \<longrightarrow>
       (\<exists>c'. cache_rep c' (fold (spec_put (later w)) (section_items (answer m)) es) \<and>
          resolv_handle w db c sendbuf p asize query =
            ret (answered sendbuf p (enc_message (set_id (msg_id (header query)) m))
              (set_id (msg_id (header query)) sent) c')))"
  using assms by (rule resolv_reply)

lemma local_none_sample: "local_records sample_db [] ls t cl = None"
  by (simp add: local_records_def spec_find_def sample_db_ok(2) split: option.splits)

theorem resolv_forwards_witness:
  "\<exists>c c' sent. cache_rep c [] \<and> cache_rep c' [(sample_rr, 161)] \<and>
     resolv_handle (sample_world 7) sample_db c (replicate 40 0) 0 0 sample_query =
       ret (answered (replicate 40 0) 0 (enc_message (set_id 5 sample_message)) (set_id 5 sent) c')"
proof -
  obtain c where c: "cache_rep c []" using init_cache_ok [of 0 100] by blast
  have "fold (spec_put 101) (section_items (answer sample_message)) [] = [(sample_rr, 161)]"
    by (simp add: sample_message_def section_items_def map_filter_simps spec_put_def) (simp add: sample_rr_def)
  moreover have "msg_id (header sample_message) = 7" by (simp add: sample_message_def)
  ultimately show ?thesis
    using c resolv_forwards [OF fresh_sample c sample_db_ok(1) standard_sample sample_db_ok(3) local_none_sample
        forwardable_sample, of "replicate 40 0" 7 0 0] plain_sample_message length_sample
    by (fastforce simp: sample_query_ok fits_def sample_world_def sample_net_def)
qed

text \<open>C28: when the exchange fails the client still gets an empty response. If no reply came it is one
  without records under its own identifier; but if a reply with a wrong identifier came, the response
  carries the identifier and the flags of that reply.\<close>

theorem resolv_upstream_failure:
  assumes "fresh_alloc (alloc w)" and "cache_rep c es" and "db_valid db" and "standard_query query q ls"
    and "known_addresses db ls (qtype q)" and "local_records db es ls (qtype q) (qclass q) = None"
    and "forwardable w query" and "length sendbuf < 2 ^ 31"
    and "fits sendbuf p (length (enc_message (local_response query [])))"
  shows "\<exists>sent. edns_version (set_id (new_id (net w)) query) sent \<and>
    (exchange (net w) (enc_message sent) = None \<longrightarrow>
       resolv_handle w db c sendbuf p asize query =
         ret (answered sendbuf p (enc_message (empty_response (header (initial_answer query)) query))
           (set_id (msg_id (header query)) sent) c)) \<and>
    (\<forall>m. plain_message m \<and> msg_id (header m) \<noteq> new_id (net w) \<and> length (enc_message m) \<le> CLIENT_BUFFER_SIZE \<and>
         exchange (net w) (enc_message sent) = Some (enc_message m) \<longrightarrow>
       resolv_handle w db c sendbuf p asize query =
         ret (answered sendbuf p (enc_message (empty_response (header m) query))
           (set_id (msg_id (header query)) sent) c))"
  using assms by (rule resolv_failed)

theorem resolv_upstream_failure_witness:
  "\<exists>c sent. cache_rep c [] \<and>
     resolv_handle (sample_world 8) sample_db c (replicate 40 0) 0 0 sample_query =
       ret (answered (replicate 40 0) 0 (enc_message (empty_response (header sample_message) sample_query))
         (set_id 5 sent) c) \<and>
     msg_id (header (empty_response (header sample_message) sample_query)) = 7"
proof -
  obtain c where c: "cache_rep c []" using init_cache_ok [of 0 100] by blast
  have id: "msg_id (header sample_message) = 7" by (simp add: sample_message_def)
  then show ?thesis
    using c resolv_upstream_failure [OF fresh_sample c sample_db_ok(1) standard_sample sample_db_ok(3)
        local_none_sample forwardable_sample, of "replicate 40 0" 0 8 0] plain_sample_message length_sample
    by (fastforce simp: sample_query_ok length_local_sample fits_def sample_world_def sample_net_def
        empty_response_def)
qed

text \<open>C34: a query with two questions that the cache knows both makes the resolver follow a null pointer: the number of
  records adds up over the questions, but every search fills the answer buffer from its start, so the answer
  gets records that were never set.\<close>

theorem resolv_two_cached_crashes:
  assumes "fresh_alloc (alloc w)" and "cache_rep c es"
    and "misc_QR (misc1 (header query)) = QR_REQ" and "misc_OPCODE (misc1 (header query)) = OPCODE_QUERY"
    and "qdcount (header query) = 2" and "question query = Some [Some q, Some q']"
    and "qname q = Some (enc_name ls)" and "db_name ls" and "qname q' = Some (enc_name ls')" and "db_name ls'"
    and "hits = spec_find (enc_name ls) (qtype q) (qclass q) es" and "hits \<noteq> []"
    and "hits' = spec_find (enc_name ls') (qtype q') (qclass q') (fold (spec_put (now w)) hits es)" and "hits' \<noteq> []"
    and "length hits + length hits' \<le> ANCOUNT_MAX"
    and "fits sendbuf p (length (enc_message (local_response query (hits' @ drop (length hits') hits))))"
  shows "resolv_handle w db c sendbuf p asize query = fail NullDeref"
  using assms by (rule resolv_two_cached)

theorem resolv_two_cached_crashes_witness:
  "\<exists>c. cache_rep c [(sample_rr, 160)] \<and>
     resolv_handle (sample_world 7) sample_db c (replicate 60 0) 0 0
       (sample_query\<lparr>header := (header sample_query)\<lparr>qdcount := 2\<rparr>, question := Some [Some sample_q, Some sample_q]\<rparr>) =
     fail NullDeref"
proof -
  let ?query = "sample_query\<lparr>header := (header sample_query)\<lparr>qdcount := 2\<rparr>, question := Some [Some sample_q, Some sample_q]\<rparr>"
  obtain c where c: "cache_rep c [(sample_rr, 160)]" using sample_cache by blast
  have hits: "spec_find (enc_name [[97]]) 1 1 [(sample_rr, 160)] = [sample_rr]"
    by (simp add: spec_find_def matches_def sample_rr_def enc_name_sample)
  moreover have "fold (spec_put (now (sample_world 7))) [sample_rr] [(sample_rr, 160)] = [(sample_rr, 160)]"
    by (simp add: spec_put_def same_rr_def)
  moreover have "db_name [[97]]" by (simp add: db_name_def enc_name_def wf_lab_def nul_free_def)
  moreover have "fits (replicate 60 0) 0 (length (enc_message (local_response ?query [sample_rr])))"
    by (simp add: length_local_response fits_def enc_section_def section_items_def map_filter_simps enc_question_def
        enc_rr_def) (simp add: sample_rr_def)
  ultimately show ?thesis
    using resolv_two_cached_crashes [OF fresh_sample [of 7] c, of ?query sample_q sample_q "[[97]]" "[[97]]" "[sample_rr]" "[sample_rr]"
        "replicate 60 0" 0 sample_db 0] c
    by (auto simp: enc_name_sample sample_query_def misc_QR_def misc_OPCODE_def)
qed

text \<open>C35: when the cache holds more than 100 records for the question, which the limit of 256 allows, the resolver
  writes past the end of its answer buffer.\<close>

theorem resolv_many_cached_overflows:
  assumes "cache_rep c es" and "standard_query query q ls"
    and "ANCOUNT_MAX < length (spec_find (enc_name ls) (qtype q) (qclass q) es)"
  shows "resolv_handle w db c sendbuf p asize query = fail OutOfBounds"
  using assms by (rule resolv_many_cached)

text \<open>A cache with \<open>k\<close> addresses for one name.\<close>

definition numbered_rr :: "nat \<Rightarrow> resource_record" where
  "numbered_rr i = sample_rr\<lparr>rdata := Some [10, 1, 1, of_nat (Suc i)]\<rparr>"

lemma numbered_rr_ok: "wf_rr (numbered_rr i)" "matches (enc_name [[97]]) 1 1 (numbered_rr i)"
  by (simp_all add: numbered_rr_def sample_simps matches_def enc_name_sample)

lemma numbered_rr_differ:
  assumes "i < k" and "k < 255"
  shows "\<not> same_rr (numbered_rr i) (numbered_rr k)"
proof -
  have u: "unat (of_nat (Suc j) :: byte) = Suc j" if "j < 255" for j using that by (simp only: unat_of_nat) simp
  have "(of_nat (Suc i) :: byte) \<noteq> of_nat (Suc k)" using u [of i] u [of k] assms by (metis Suc_inject less_trans nat_neq_iff)
  moreover have "(of_nat (Suc j) :: byte) \<noteq> 0" if "j < 255" for j using u [OF that] by (metis Zero_not_Suc unat_0)
  ultimately show ?thesis using assms by (simp add: same_rr_def numbered_rr_def sample_rr_def upto_nul_def)
qed

lemma many_cached:
  "k < 255 \<Longrightarrow> \<exists>c. cache_rep c (map (\<lambda>i. (numbered_rr i, 160)) (rev [0..<k]))"
proof (induction k)
  case 0
  then show ?case using init_cache_ok [of 0 100] by auto
next
  case (Suc k)
  let ?es = "map (\<lambda>i. (numbered_rr i, 160)) (rev [0..<k])"
  from Suc obtain c where c: "cache_rep c ?es" by auto
  have "split_entry (numbered_rr k) ?es = None"
    using numbered_rr_differ Suc.prems by (auto simp: split_entry_None)
  then have "spec_put 100 (numbered_rr k) ?es = (numbered_rr k, 160) # ?es"
    by (simp add: spec_put_def) (simp add: numbered_rr_def sample_rr_def)
  with cache_put_ok [OF c numbered_rr_ok(1) fresh_allocD [OF fresh_sample [of 7] c], of 100 k] show ?case by auto
qed

theorem resolv_many_cached_overflows_witness:
  "\<exists>c. cache_rep c (map (\<lambda>i. (numbered_rr i, 160)) (rev [0..<101])) \<and>
     resolv_handle (sample_world 7) sample_db c (replicate 4096 0) 0 0 sample_query = fail OutOfBounds"
proof -
  obtain c where c: "cache_rep c (map (\<lambda>i. (numbered_rr i, 160)) (rev [0..<101]))" using many_cached [of 101] by auto
  have "spec_find (enc_name [[97]]) 1 1 (map (\<lambda>i. (numbered_rr i, 160)) is) = map numbered_rr is" for "is"
    by (induction "is") (simp_all add: spec_find_def numbered_rr_ok(2))
  then have "ANCOUNT_MAX < length (spec_find (enc_name [[97]]) 1 1 (map (\<lambda>i. (numbered_rr i, 160)) (rev [0..<101])))"
    by (simp only: length_map length_rev length_upt)
  with resolv_many_cached_overflows [OF c standard_sample] c show ?thesis by auto
qed

text \<open>A query whose first label claims more bytes than its name has is accepted by the parser, which does
  not look at labels, and makes the resolver read past the end of the name.\<close>

lemma resolv_overreads_label:
  assumes "misc_QR (misc1 (header query)) = QR_REQ" and "misc_OPCODE (misc1 (header query)) = OPCODE_QUERY"
    and "qdcount (header query) \<noteq> 0" and "question query = Some (Some q # qs)"
    and "qname q = Some (k # rest @ [0])" and "nul_free (k # rest)" and "length rest + 2 \<le> 255"
    and "length rest + 1 < unat k"
  shows "resolv_handle w db c sendbuf p asize query = fail OutOfBounds"
  using assms by (rule resolv_overread)

lemma resolv_overreads_label_witness:
  "resolv_handle (sample_world 7) sample_db \<lparr>dummy = None, cache_size = 0, nodes = Map.empty\<rparr> [] 0 0 (sample_query\<lparr>question :=
     Some [Some \<lparr>qname = Some [63, 97, 0], qtype = 1, qclass = 1\<rparr>]\<rparr>) = fail OutOfBounds"
  using resolv_overreads_label [of "sample_query\<lparr>question :=
     Some [Some \<lparr>qname = Some [63, 97, 0], qtype = 1, qclass = 1\<rparr>]\<rparr>"
     "\<lparr>qname = Some [63, 97, 0], qtype = 1, qclass = 1\<rparr>" "[]" 63 "[97]" "sample_world 7" sample_db "\<lparr>dummy = None, cache_size = 0, nodes = Map.empty\<rparr>" "[]" 0 0]
  by (simp add: sample_query_def misc_QR_def misc_OPCODE_def nul_free_def)

end
