(* ===== verification/Server.thy ===== *)
theory Server
  imports Threadpool Resolv_Props
begin

text \<open>
  The servers (\<^verbatim>\<open>socket/server.c\<close>): the loops that turn a datagram or a connection into a job of the
  thread pool, and the two jobs, which parse a request, resolve it and send the response. Sockets
  and OpenSSL are arguments: the datagrams that arrive, and for a TLS session the result of each
  call of the library. The handler pointers of the argument structures always are
  \<^verbatim>\<open>dns_recv_handle\<close> and \<^verbatim>\<open>resolv_handle\<close>, which the jobs call here directly.
\<close>

section \<open>Structures\<close>

abbreviation (input) UDP_BUFFER_SIZE :: nat where "UDP_BUFFER_SIZE \<equiv> 4096"
abbreviation (input) TLS_BUFFER_SIZE :: nat where "TLS_BUFFER_SIZE \<equiv> 5120"

text \<open>\<^verbatim>\<open>rcvbuffer\<close> is \<^term>\<open>None\<close> when it was never written.\<close>

record resolv_args =
  cliaddr :: "byte list"
  rcvbuffer :: "mem option"
  nrecv :: int
  clientfd :: int

text \<open>The two functions that are put into jobs.\<close>

datatype handler = Udp_resolv_and_respond | Ssl_resolv_and_respond

type_synonym dns_job = "(handler, resolv_args) job"

text \<open>
  What OpenSSL does in one session: the handshake, the two-byte read of the length, the \<open>i\<close>-th read
  of the request with the length argument it is given (\<^term>\<open>None\<close> for -1, the empty list for 0) and the write.
\<close>

record tls_session =
  ssl_accept :: int
  ssl_size :: "byte list"
  ssl_reads :: "nat \<Rightarrow> nat \<Rightarrow> byte list option"
  ssl_write :: int

section \<open>Operations\<close>

definition dns_recv_handle :: "mem \<Rightarrow> u32 \<Rightarrow> message \<Rightarrow> (int \<times> message) run" where
  "dns_recv_handle buf len msg = message_from_buf buf len msg"

definition create_resolv_args :: "byte list \<Rightarrow> mem option \<Rightarrow> int \<Rightarrow> int \<Rightarrow> resolv_args run" where
  "create_resolv_args addr buf n fd =
     bind_run (case buf of None \<Rightarrow> ret None
       | Some b \<Rightarrow> bind_run (rd_bytes b 0 UDP_BUFFER_SIZE) (\<lambda>bs. ret (Some bs))) (\<lambda>rcv.
     ret \<lparr>cliaddr = addr, rcvbuffer = rcv, nrecv = n, clientfd = fd\<rparr>)"

text \<open>Release of the request: a name that went with the answer is released a second time.\<close>

definition release_query :: "resolved \<Rightarrow> unit run" where
  "release_query res =
     (if res_dangling res then fail DanglingPointer
      else bind_run (free_heap_message (res_query res)) (\<lambda>_. ret ()))"

definition error_message :: "message option" where
  "error_message = snd (construct_error_response RCODE_FORMAT_ERROR (Some zero_message))"

text \<open>
  The job for a datagram. The result has the return value, the datagrams sent (address and
  bytes) and the cache. The test \<^verbatim>\<open>< -1\<close> is the one of the code.
\<close>

definition udp_resolv_and_respond ::
  "world \<Rightarrow> database \<Rightarrow> rr_cache \<Rightarrow> resolv_args \<Rightarrow> (int \<times> (byte list \<times> byte list) list \<times> rr_cache) run"
where
  "udp_resolv_and_respond w db c args =
     (let sendbuf = replicate UDP_BUFFER_SIZE 0 in
      bind_run (case rcvbuffer args of None \<Rightarrow> fail Uninitialised | Some b \<Rightarrow> ret b) (\<lambda>buf.
      bind_run (dns_recv_handle buf (word_of_int (nrecv args)) zero_message) (\<lambda>(r, msgrcv).
      if r < -1 then
        bind_run (deref error_message) (\<lambda>errmsg.
        bind_run (message_to_u8 errmsg sendbuf 0) (\<lambda>(n, sendbuf).
        bind_run (rd_bytes sendbuf 0 (unat (word_of_int n :: u32))) (\<lambda>bs.
        bind_run (free_heap_message msgrcv) (\<lambda>_.
        ret (-1, [(cliaddr args, bs)], c)))))
      else
        bind_run (resolv_handle w db c sendbuf 0 0 msgrcv) (\<lambda>res.
        if res_code res < 0 then
          bind_run (release_query res) (\<lambda>_. ret (-1, [], res_cache res))
        else
          bind_run (rd_bytes (res_buf res) 0 (unat (res_size res))) (\<lambda>bs.
          bind_run (release_query res) (\<lambda>_.
          ret (1, [(cliaddr args, bs)], res_cache res)))))))"

text \<open>
  The loop that reads a request from a TLS session, from the \<open>i\<close>-th read on; \<open>rcv\<close> is the result of
  the last read. Every read is given the size of the whole buffer as its length, although it writes behind
  the \<open>n\<close> bytes already there.
\<close>

partial_function (option) tls_read_loop ::
  "(nat \<Rightarrow> nat \<Rightarrow> byte list option) \<Rightarrow> nat \<Rightarrow> int \<Rightarrow> mem \<Rightarrow> nat \<Rightarrow> u16 \<Rightarrow> (int \<times> mem \<times> nat) run"
where
  "tls_read_loop reads i rcv recvbuf n expected =
     (if n = unat expected then ret (rcv, recvbuf, n)
      else case reads i (length recvbuf) of
        None \<Rightarrow> ret (-1, recvbuf, n)
      | Some bs \<Rightarrow>
          bind_run (wr_bytes recvbuf (int n) bs) (\<lambda>recvbuf.
          tls_read_loop reads (Suc i) (int (length bs)) recvbuf (n + length bs) expected))"

declare tls_read_loop.simps [code]

text \<open>\<^verbatim>\<open>*(uint16_t *)sendbuf = htons(nsend)\<close>, then \<^verbatim>\<open>SSL_write\<close> of \<^verbatim>\<open>nsend + 2\<close> bytes.\<close>

definition tls_frame :: "mem \<Rightarrow> int \<Rightarrow> byte list run" where
  "tls_frame sendbuf nsend =
     bind_run (wr_bytes sendbuf 0 (store16 (htons (word_of_int nsend)))) (\<lambda>sendbuf.
     rd_bytes sendbuf 0 (size_t (nsend + 2)))"

definition ssl_resolv_and_respond ::
  "world \<Rightarrow> database \<Rightarrow> rr_cache \<Rightarrow> tls_session \<Rightarrow> (int \<times> byte list list \<times> rr_cache) run"
where
  "ssl_resolv_and_respond w db c ssl =
     (let sendbuf = replicate TLS_BUFFER_SIZE 0 in
      if ssl_accept ssl \<le> 0 then ret (-1, [], c)
      else if length (ssl_size ssl) \<noteq> 2 then ret (-1, [], c)
      else
        let expected = ntohs (load16 (ssl_size ssl ! 0) (ssl_size ssl ! 1)) in
        bind_run (tls_read_loop (ssl_reads ssl) 0 0 (replicate TLS_BUFFER_SIZE 0) 0 expected) (\<lambda>(rcv, recvbuf, n).
        if rcv < 0 \<or> n \<noteq> unat expected then ret (-1, [], c)
        else
          bind_run (dns_recv_handle recvbuf (of_nat n) zero_message) (\<lambda>(r, msgrcv).
          if r < 0 then
            bind_run (deref error_message) (\<lambda>errmsg.
            bind_run (message_to_u8 errmsg sendbuf 0) (\<lambda>(nsend, sendbuf).
            bind_run (tls_frame sendbuf nsend) (\<lambda>bs.
            bind_run (free_heap_message msgrcv) (\<lambda>_.
            ret (-1, [bs], c)))))
          else
            bind_run (resolv_handle w db c sendbuf 2 0 msgrcv) (\<lambda>res.
            if res_code res < 0 then ret (-1, [], res_cache res)
            else
              bind_run (tls_frame (res_buf res) (sint (res_size res))) (\<lambda>bs.
              if ssl_write ssl < 0 then ret (-1, [], res_cache res)
              else
                bind_run (release_query res) (\<lambda>_.
                ret (1, [bs], res_cache res)))))))"

text \<open>
  One round of the loop of \<^verbatim>\<open>udp_responder\<close>. No datagram is ready, \<^verbatim>\<open>recvfrom\<close> fails, or it delivers the
  address and at most 4096 bytes. What \<^verbatim>\<open>threadpool_add_job\<close> returns is ignored.
\<close>

datatype udp_event = Not_ready | Recv_error | Datagram "byte list" "byte list"

definition udp_responder :: "dns_job threadpool \<Rightarrow> udp_event \<Rightarrow> dns_job threadpool run" where
  "udp_responder pool ev =
     (case ev of
        Not_ready \<Rightarrow> ret pool
      | Recv_error \<Rightarrow>
          bind_run (create_resolv_args (replicate 16 0) (Some (replicate UDP_BUFFER_SIZE 0)) (-1) 0) (\<lambda>args.
          bind_run (threadpool_add_job pool (create_job Udp_resolv_and_respond args)) (\<lambda>(_, pool). ret pool))
      | Datagram addr bs \<Rightarrow>
          let got = take UDP_BUFFER_SIZE bs in
          bind_run (create_resolv_args addr (Some (got @ replicate (UDP_BUFFER_SIZE - length got) 0))
            (int (length got)) 0) (\<lambda>args.
          bind_run (threadpool_add_job pool (create_job Udp_resolv_and_respond args)) (\<lambda>(_, pool). ret pool)))"

text \<open>One round of the loop of \<^verbatim>\<open>tls_responder\<close>, with the result of \<^verbatim>\<open>accept\<close>.\<close>

definition tls_responder :: "dns_job threadpool \<Rightarrow> byte list \<Rightarrow> int \<Rightarrow> dns_job threadpool run" where
  "tls_responder pool addr fd =
     (if fd < 0 then ret pool
      else
        bind_run (create_resolv_args addr None 0 fd) (\<lambda>args.
        bind_run (threadpool_add_job pool (create_job Ssl_resolv_and_respond args)) (\<lambda>(_, pool). ret pool)))"

section \<open>Setting up\<close>

text \<open>
  The results of the calls that create a server: \<^verbatim>\<open>socket\<close>, \<^verbatim>\<open>bind\<close> (for a port), \<^verbatim>\<open>listen\<close>; and, for TLS, whether a
  context could be made and what loading the certificate and the key returned.
\<close>

record sys_results =
  sys_socket :: int
  sys_bind :: "u16 \<Rightarrow> int"
  sys_listen :: int
  ssl_context :: bool
  ssl_certificate :: int
  ssl_private_key :: int

datatype sock_type = SOCK_DGRAM | SOCK_STREAM

definition create_socket :: "sys_results \<Rightarrow> u16 \<Rightarrow> sock_type \<Rightarrow> int" where
  "create_socket sys port protocol =
     (if sys_socket sys < 0 then -1
      else if sys_bind sys port < 0 then -1
      else if protocol = SOCK_STREAM \<and> sys_listen sys \<noteq> 0 then -1
      else sys_socket sys)"

text \<open>\<^verbatim>\<open>strcpy\<close> of the passphrase into the buffer of OpenSSL; the size of that buffer is not looked at.\<close>

definition my_pem_passwd_cb :: "mem \<Rightarrow> (int \<times> mem) run" where
  "my_pem_passwd_cb buf = bind_run (wr_bytes buf 0 [49, 49, 52, 53, 49, 52, 0]) (\<lambda>buf. ret (6, buf))"

text \<open>\<open>False\<close>: the process exits.\<close>

definition create_context :: "sys_results \<Rightarrow> bool" where
  "create_context sys = ssl_context sys"

definition configure_context :: "sys_results \<Rightarrow> bool" where
  "configure_context sys \<longleftrightarrow> 0 < ssl_certificate sys \<and> 0 < ssl_private_key sys"

record responder_args =
  ra_fd :: int
  ra_tls :: bool

definition create_responder_args :: "int \<Rightarrow> bool \<Rightarrow> responder_args" where
  "create_responder_args fd tls = \<lparr>ra_fd = fd, ra_tls = tls\<rparr>"

text \<open>
  The return value and the argument of the responder thread, if one is started; what \<^verbatim>\<open>pthread_create\<close>
  returns is ignored. The port is an argument; \<^verbatim>\<open>socket.h\<close> sets it to 53 and 853. \<^term>\<open>None\<close>: the process exits.
\<close>

definition start_udp_server :: "sys_results \<Rightarrow> u16 \<Rightarrow> int \<times> responder_args option" where
  "start_udp_server sys port =
     (let udp_fd = create_socket sys port SOCK_DGRAM in
      if udp_fd < 0 then (-1, None) else (1, Some (create_responder_args udp_fd False)))"

definition start_tls_server :: "sys_results \<Rightarrow> u16 \<Rightarrow> (int \<times> responder_args option) option" where
  "start_tls_server sys port =
     (if \<not> create_context sys then None
      else if \<not> configure_context sys then None
      else
        let tls_fd = create_socket sys port SOCK_STREAM in
        if tls_fd < 0 then Some (-1, None) else Some (1, Some (create_responder_args tls_fd True)))"

end
