(* ===== verification/Server_Props.thy ===== *)
theory Server_Props
  imports Server
begin

text \<open>
  Properties of the servers: a request that arrives over UDP or TLS is answered with the response of
  the resolver, and the requests on which the jobs crash, never end or send something else.
\<close>

section \<open>UDP\<close>

lemma holds_at_prefix: "holds_at (bs @ cs) 0 bs"
  by (cases "bs = []") (simp_all add: holds_at_iff)

text \<open>The arguments of a job for a request that arrived in one datagram.\<close>

definition udp_args :: "byte list \<Rightarrow> byte list \<Rightarrow> resolv_args" where
  "udp_args addr bs = \<lparr>cliaddr = addr,
     rcvbuffer = Some (bs @ replicate (UDP_BUFFER_SIZE - length bs) 0), nrecv = int (length bs), clientfd = 0\<rparr>"

lemma create_udp_args:
  assumes "length bs \<le> UDP_BUFFER_SIZE"
  shows "create_resolv_args addr (Some (bs @ replicate (UDP_BUFFER_SIZE - length bs) 0)) (int (length bs)) 0 =
    ret (udp_args addr bs)"
  using assms by (simp add: create_resolv_args_def rd_bytes_take udp_args_def)

lemma udp_parsed:
  assumes "plain_message query" and "length (enc_message query) \<le> UDP_BUFFER_SIZE"
  shows "dns_recv_handle (enc_message query @ replicate (UDP_BUFFER_SIZE - length (enc_message query)) 0)
    (word_of_int (int (length (enc_message query)))) zero_message = ret (1, query)"
proof -
  let ?e = "enc_message query"
  have len: "12 \<le> length ?e" by (simp add: enc_message_def)
  then have "12 \<le> (word_of_int (int (length ?e)) :: u32)"
    using assms(2) by (simp add: word_le_nat_alt unat_of_nat)
  then show ?thesis unfolding dns_recv_handle_def by (intro message_from_buf_reads assms(1) holds_at_prefix)
qed

text \<open>A response that the resolver wrote at the start of the buffer is what goes out.\<close>

lemma udp_sends:
  assumes "plain_message query" and "length (enc_message query) \<le> UDP_BUFFER_SIZE"
    and "resolv_handle w db c (replicate UDP_BUFFER_SIZE 0) 0 0 query =
      ret (answered (replicate UDP_BUFFER_SIZE 0) 0 bs query' c')"
    and "length bs \<le> UDP_BUFFER_SIZE" and "wf_message query'"
  shows "udp_resolv_and_respond w db c (udp_args addr (enc_message query)) = ret (1, [(addr, bs)], c')"
proof -
  have "unat (of_nat (length bs) :: u32) = length bs" using assms(4) by (simp add: unat_of_nat)
  moreover have "fits (replicate UDP_BUFFER_SIZE 0) 0 (length bs)" using assms(4) by (simp add: fits_def)
  then have "rd_bytes (overlay (replicate UDP_BUFFER_SIZE 0) 0 bs) 0 (length bs) = ret bs"
    using take_overlay_all [OF assms(4)] assms(4) by (simp add: rd_bytes_take)
  ultimately show ?thesis
    using udp_parsed [OF assms(1,2)] assms(3) free_heap_message_ok [OF assms(5)]
    by (simp add: udp_resolv_and_respond_def udp_args_def release_query_def)
qed

lemma udp_local_ok:
  assumes "fresh_alloc (alloc w)" and "cache_rep c es" and "db_valid db" and "standard_query query q ls"
    and "known_addresses db ls (qtype q)"
    and "length (spec_find (enc_name ls) (qtype q) (qclass q) es) \<le> ANCOUNT_MAX"
    and "local_records db es ls (qtype q) (qclass q) = Some rrs" and "plain_message query"
    and "length (enc_message query) \<le> UDP_BUFFER_SIZE"
    and "length (enc_message (local_response query rrs)) \<le> UDP_BUFFER_SIZE"
  shows "\<exists>c'. cache_rep c' (cache_after (now w) es ls (qtype q) (qclass q)) \<and>
    udp_resolv_and_respond w db c (udp_args addr (enc_message query)) =
      ret (1, [(addr, enc_message (local_response query rrs))], c')"
proof -
  have "fits (replicate UDP_BUFFER_SIZE 0) 0 (length (enc_message (local_response query rrs)))"
    using assms(10) by (simp add: fits_def)
  from resolv_local_ok [OF assms(1-7) this, of 0] obtain c' where
    c': "cache_rep c' (cache_after (now w) es ls (qtype q) (qclass q))"
    "resolv_handle w db c (replicate UDP_BUFFER_SIZE 0) 0 0 query =
      ret (answered (replicate UDP_BUFFER_SIZE 0) 0 (enc_message (local_response query rrs)) query c')"
    by auto
  from udp_sends [OF assms(8,9) c'(2) assms(10) plain_message_wf [OF assms(8)]] c'(1) show ?thesis by blast
qed

text \<open>A header with the truncation flag: the packet is rejected, but with -1, which passes the test.\<close>

lemma udp_truncated:
  assumes "rcvbuffer args = Some buf" and "holds_at buf 0 (enc_header h)" and "12 \<le> nrecv args" and "nrecv args < 2 ^ 31"
    and "misc_TC (misc1 h) \<noteq> 0" and "misc_QR (misc1 h) = QR_REQ" and "misc_OPCODE (misc1 h) = OPCODE_QUERY"
    and "qdcount h \<noteq> 0"
  shows "udp_resolv_and_respond w db c args = fail NullDeref"
proof -
  have "\<not> (word_of_int (nrecv args) :: u32) < 12"
    using assms(3,4) by (simp add: word_less_alt word_of_int_inverse)
  with assms(5) msg_header_from_buf_reads [OF assms(2)]
  have "dns_recv_handle buf (word_of_int (nrecv args)) zero_message = ret (-1, zero_message\<lparr>header := h\<rparr>)"
    by (simp add: dns_recv_handle_def message_from_buf_def)
  moreover have "resolv_handle w db c sendbuf 0 0 (zero_message\<lparr>header := h\<rparr>) = fail NullDeref" for sendbuf
    using assms(6-8) by (intro resolv_null_questions) (simp_all add: zero_message_def)
  ultimately show ?thesis using assms(1) by (simp add: udp_resolv_and_respond_def)
qed

text \<open>A question whose name passes the parser but not \<^verbatim>\<open>domain_len\<close>.\<close>

lemma udp_long_name:
  assumes "rcvbuffer args = Some buf" and "holds_at buf 0 (enc_header h @ enc_question q)"
    and "12 \<le> nrecv args" and "nrecv args < 2 ^ 31"
    and "misc_TC (misc1 h) = 0" and "misc_QR (misc1 h) = QR_REQ" and "misc_OPCODE (misc1 h) = OPCODE_QUERY"
    and "qdcount h = 1" and "ancount h = 0" and "nscount h = 0" and "arcount h = 0"
    and "qname q = Some (bs @ [0])" and "nul_free bs" and "pointer_free bs" and "255 \<le> length bs" and "length bs < 512"
  shows "udp_resolv_and_respond w db c args = fail DanglingPointer"
proof -
  let ?m = "zero_message\<lparr>header := h, question := Some [Some q]\<rparr>"
  have "\<not> (word_of_int (nrecv args) :: u32) < 12"
    using assms(3,4) by (simp add: word_less_alt word_of_int_inverse)
  moreover have "msg_header_from_buf buf 0 = ret h" using msg_header_from_buf_reads assms(2) by simp
  moreover have "msg_question_from_buf buf 12 = ret (int (length (enc_question q)), Some q)"
    using assms(2,12-14,16) by (intro msg_question_from_buf_reads [of q bs]) simp_all
  ultimately have recv: "dns_recv_handle buf (word_of_int (nrecv args)) zero_message = ret (1, ?m)"
    using assms(5,8-11)
    by (simp add: dns_recv_handle_def message_from_buf_def Let_def section_ptr_def zero_message_def)
  have "fits (replicate UDP_BUFFER_SIZE 0) 0 12" by (simp add: fits_def)
  then have "resolv_handle w db c (replicate UDP_BUFFER_SIZE 0) 0 0 ?m =
      ret \<lparr>res_code = 1, res_buf = overlay (replicate UDP_BUFFER_SIZE 0) 0 (enc_header (format_error ?m)),
           res_size = 11, res_query = ?m, res_cache = c, res_dangling = True\<rparr>"
    using assms by (intro resolv_long_name [of _ q bs]) (simp_all add: zero_message_def)
  with recv assms(1) show ?thesis
    by (simp add: udp_resolv_and_respond_def release_query_def fits_def rd_bytes_take)
qed

section \<open>TLS\<close>

text \<open>The reads deliver the chunks \<open>css\<close>, none of them empty, from read \<open>i\<close> on.\<close>

definition delivers :: "(nat \<Rightarrow> byte list option) \<Rightarrow> nat \<Rightarrow> byte list list \<Rightarrow> bool" where
  "delivers reads i css \<longleftrightarrow> (\<forall>j < length css. reads (i + j) = Some (css ! j)) \<and> [] \<notin> set css"

lemma delivers_simps [simp]:
  "delivers reads i []"
  "delivers reads i (cs # css) \<longleftrightarrow> reads i = Some cs \<and> cs \<noteq> [] \<and> delivers reads (Suc i) css"
proof -
  show "delivers reads i []" by (simp add: delivers_def)
  have "(\<forall>j < length (cs # css). reads (i + j) = Some ((cs # css) ! j)) \<longleftrightarrow>
      reads i = Some cs \<and> (\<forall>j < length css. reads (Suc i + j) = Some (css ! j))"
    by (simp add: All_less_Suc2)
  then show "delivers reads i (cs # css) \<longleftrightarrow> reads i = Some cs \<and> cs \<noteq> [] \<and> delivers reads (Suc i) css"
    unfolding delivers_def by auto
qed

lemma tls_read_loop_ok:
  "delivers (\<lambda>i. reads i k) i css \<Longrightarrow> length got + length (concat css) = unat expected \<Longrightarrow> unat expected \<le> k \<Longrightarrow> 0 \<le> rcv \<Longrightarrow>
     \<exists>rcv'. 0 \<le> rcv' \<and> tls_read_loop reads i rcv (overlay (replicate k 0) 0 got) (length got) expected =
       ret (rcv', overlay (replicate k 0) 0 (got @ concat css), unat expected)"
proof (induction css arbitrary: i rcv got)
  case Nil
  then show ?case by (subst tls_read_loop.simps) auto
next
  case (Cons cs css)
  let ?z = "replicate k 0 :: mem"
  have "length (overlay ?z 0 got) = k" using Cons.prems(2,3) by (simp add: fits_def)
  with Cons.prems(1) have cs: "reads i (length (overlay ?z 0 got)) = Some cs" "0 < length cs"
    "delivers (\<lambda>i. reads i k) (Suc i) css" by simp_all
  have "fits ?z 0 (length (got @ cs))" using Cons.prems(2,3) by (simp add: fits_def)
  then have wr: "wr_bytes (overlay ?z 0 got) (int (length got)) cs = ret (overlay ?z 0 (got @ cs))"
    by (intro put_bytes_after) simp_all
  from Cons.IH [OF cs(3), of "got @ cs" "int (length cs)"] Cons.prems(2,3) obtain rcv' where
    "0 \<le> rcv'" "tls_read_loop reads (Suc i) (int (length cs)) (overlay ?z 0 (got @ cs)) (length (got @ cs)) expected =
      ret (rcv', overlay ?z 0 ((got @ cs) @ concat css), unat expected)" by auto
  then show ?case using cs(1,2) wr Cons.prems(2)
    by (subst tls_read_loop.simps) (auto intro!: exI [of _ rcv'])
qed

lemma tls_read_overflow:
  "delivers (\<lambda>i. reads i (length recvbuf)) i css \<Longrightarrow> n \<le> length recvbuf \<Longrightarrow> length recvbuf < n + length (concat css) \<Longrightarrow>
     length recvbuf < unat expected \<Longrightarrow> tls_read_loop reads i rcv recvbuf n expected = fail OutOfBounds"
proof (induction css arbitrary: i rcv recvbuf n)
  case (Cons cs css)
  then have cs: "reads i (length recvbuf) = Some cs" "cs \<noteq> []" "delivers (\<lambda>i. reads i (length recvbuf)) (Suc i) css"
    "n \<noteq> unat expected" by auto
  show ?case
  proof (cases "n + length cs \<le> length recvbuf")
    case True
    then obtain buf where buf: "wr_bytes recvbuf (int n) cs = ret buf" "length buf = length recvbuf"
      using wr_bytes_fits [of recvbuf "int n" cs] by (simp add: fits_def)
    with Cons.IH [of buf "Suc i" "n + length cs" "int (length cs)"] Cons.prems(3,4) True cs show ?thesis
      by (subst tls_read_loop.simps) simp
  next
    case False
    then have "wr_bytes recvbuf (int n) cs = fail OutOfBounds" using cs(2) by (simp add: wr_bytes_def)
    with cs(1,4) show ?thesis by (subst tls_read_loop.simps) simp
  qed
qed simp

text \<open>A peer that closed the connection: every read from \<open>i\<close> on returns 0.\<close>

lemma tls_read_closed:
  assumes "\<forall>j \<ge> i. \<forall>k. reads j k = Some []" and "n \<noteq> unat expected"
  shows "tls_read_loop reads i rcv recvbuf n expected = None"
proof (rule ccontr)
  assume "tls_read_loop reads i rcv recvbuf n expected \<noteq> None"
  then obtain r where r: "tls_read_loop reads i rcv recvbuf n expected = Some r" by auto
  have "\<not> ((\<forall>j \<ge> i. \<forall>k. reads j k = Some []) \<and> n \<noteq> unat expected)"
  proof (rule tls_read_loop.raw_induct [where
      P = "\<lambda>reads i rcv recvbuf n expected r. \<not> ((\<forall>j \<ge> i. \<forall>k. reads j k = Some []) \<and> n \<noteq> unat expected)", OF _ r])
    fix f and reads :: "nat \<Rightarrow> nat \<Rightarrow> byte list option" and i rcv recvbuf n and expected :: u16 and r
    assume IH: "\<And>reads i rcv recvbuf n expected r. f reads i rcv recvbuf n expected = Some r \<Longrightarrow>
        \<not> ((\<forall>j \<ge> i. \<forall>k. reads j k = Some []) \<and> n \<noteq> unat expected)"
      and eq: "(if n = unat expected then ret (rcv, recvbuf, n)
        else case reads i (length recvbuf) of None \<Rightarrow> ret (-1, recvbuf, n)
          | Some bs \<Rightarrow> bind_run (wr_bytes recvbuf (int n) bs) (\<lambda>recvbuf.
              f reads (Suc i) (int (length bs)) recvbuf (n + length bs) expected)) = Some r"
    show "\<not> ((\<forall>j \<ge> i. \<forall>k. reads j k = Some []) \<and> n \<noteq> unat expected)"
    proof
      assume c: "(\<forall>j \<ge> i. \<forall>k. reads j k = Some []) \<and> n \<noteq> unat expected"
      then have "f reads (Suc i) 0 recvbuf n expected = Some r" using eq by (simp add: wr_bytes_def)
      from IH [OF this] c show False by auto
    qed
  qed
  with assms show False by simp
qed

lemma tls_read_partial:
  "delivers (\<lambda>i. reads i (length recvbuf)) i css \<Longrightarrow> \<forall>j \<ge> i + length css. \<forall>k. reads j k = Some [] \<Longrightarrow>
     n + length (concat css) \<le> length recvbuf \<Longrightarrow> n + length (concat css) < unat expected \<Longrightarrow>
     tls_read_loop reads i rcv recvbuf n expected = None"
proof (induction css arbitrary: i rcv recvbuf n)
  case Nil
  then show ?case using tls_read_closed [of i reads n expected rcv recvbuf] by simp
next
  case (Cons cs css)
  from Cons.prems(3) obtain buf where buf: "wr_bytes recvbuf (int n) cs = ret buf" "length buf = length recvbuf"
    using wr_bytes_fits [of recvbuf "int n" cs] by (auto simp: fits_def)
  have "tls_read_loop reads (Suc i) (int (length cs)) buf (n + length cs) expected = None"
    using Cons.prems buf(2) by (intro Cons.IH) (simp_all add: add.assoc)
  with Cons.prems(1,4) buf(1) show ?case by (subst tls_read_loop.simps) simp
qed

lemma tls_frame_ok:
  assumes "length bs + 2 \<le> TLS_BUFFER_SIZE"
  shows "tls_frame (overlay (replicate TLS_BUFFER_SIZE 0) 2 bs) (int (length bs)) =
    ret (be16 (of_nat (length bs)) @ bs)"
proof -
  have "size_t (int (length bs) + 2) = length bs + 2" using assms by (simp add: size_t_def nat_add_distrib)
  moreover have "store16 w \<noteq> []" for w by (simp add: store16_def)
  ultimately show ?thesis using assms
    by (simp add: tls_frame_def wr_bytes_def rd_bytes_def overlay_def be16_def)
qed

lemma be16_read: "ntohs (load16 (be16 w ! 0) (be16 w ! Suc 0)) = w"
  using u8n_to_u16h_be16 [OF holds_at_self, of w] by (simp add: u8n_to_u16h_def rd8_def)

text \<open>A session in which the peer sends the request \<open>bs\<close> with its length in front.\<close>

definition tls_request :: "tls_session \<Rightarrow> byte list \<Rightarrow> bool" where
  "tls_request ssl bs \<longleftrightarrow> 0 < ssl_accept ssl \<and> ssl_size ssl = be16 (of_nat (length bs)) \<and> 0 \<le> ssl_write ssl \<and>
     length bs \<le> TLS_BUFFER_SIZE \<and> (\<exists>css. delivers (\<lambda>i. ssl_reads ssl i TLS_BUFFER_SIZE) 0 css \<and> concat css = bs)"

lemma tls_request_read:
  assumes "tls_request ssl bs"
  shows "\<exists>rcv. 0 \<le> rcv \<and>
    tls_read_loop (ssl_reads ssl) 0 0 (replicate TLS_BUFFER_SIZE 0) 0 (of_nat (length bs)) =
      ret (rcv, overlay (replicate TLS_BUFFER_SIZE 0) 0 bs, length bs)"
proof -
  have "unat (of_nat (length bs) :: u16) = length bs" using assms by (simp add: tls_request_def unat_of_nat)
  with assms tls_read_loop_ok [of "ssl_reads ssl" TLS_BUFFER_SIZE 0 _ "[]" "of_nat (length bs)" 0]
  show ?thesis by (auto simp: tls_request_def)
qed

lemma tls_handles:
  assumes "tls_request ssl bs"
  shows "ssl_resolv_and_respond w db c ssl =
    bind_run (dns_recv_handle (overlay (replicate TLS_BUFFER_SIZE 0) 0 bs) (of_nat (length bs)) zero_message)
      (\<lambda>(r, msgrcv).
      if r < 0 then
        bind_run (deref error_message) (\<lambda>errmsg.
        bind_run (message_to_u8 errmsg (replicate TLS_BUFFER_SIZE 0) 0) (\<lambda>(nsend, sendbuf).
        bind_run (tls_frame sendbuf nsend) (\<lambda>bs.
        bind_run (free_heap_message msgrcv) (\<lambda>_. ret (-1, [bs], c)))))
      else
        bind_run (resolv_handle w db c (replicate TLS_BUFFER_SIZE 0) 2 0 msgrcv) (\<lambda>res.
        if res_code res < 0 then ret (-1, [], res_cache res)
        else
          bind_run (tls_frame (res_buf res) (sint (res_size res))) (\<lambda>bs.
          bind_run (release_query res) (\<lambda>_. ret (1, [bs], res_cache res)))))"
proof -
  from tls_request_read [OF assms] obtain rcv where "0 \<le> rcv"
    "tls_read_loop (ssl_reads ssl) 0 0 (replicate TLS_BUFFER_SIZE 0) 0 (of_nat (length bs)) =
      ret (rcv, overlay (replicate TLS_BUFFER_SIZE 0) 0 bs, length bs)" by blast
  moreover have "unat (of_nat (length bs) :: u16) = length bs" using assms by (simp add: tls_request_def unat_of_nat)
  moreover have "0 < ssl_accept ssl" "ssl_size ssl = be16 (of_nat (length bs))" "\<not> ssl_write ssl < 0"
    using assms by (simp_all add: tls_request_def)
  ultimately show ?thesis
    unfolding ssl_resolv_and_respond_def Let_def by (simp add: be16_read cong: if_cong)
qed

lemma tls_local_ok:
  assumes "fresh_alloc (alloc w)" and "cache_rep c es" and "db_valid db" and "standard_query query q ls"
    and "known_addresses db ls (qtype q)"
    and "length (spec_find (enc_name ls) (qtype q) (qclass q) es) \<le> ANCOUNT_MAX"
    and "local_records db es ls (qtype q) (qclass q) = Some rrs" and "plain_message query"
    and "tls_request ssl (enc_message query)"
    and "length (enc_message (local_response query rrs)) + 2 \<le> TLS_BUFFER_SIZE"
  shows "\<exists>c'. cache_rep c' (cache_after (now w) es ls (qtype q) (qclass q)) \<and>
    ssl_resolv_and_respond w db c ssl =
      ret (1, [be16 (of_nat (length (enc_message (local_response query rrs)))) @
                enc_message (local_response query rrs)], c')"
proof -
  let ?e = "enc_message query" and ?r = "enc_message (local_response query rrs)"
  have "fits (replicate TLS_BUFFER_SIZE 0) 2 (length ?r)" using assms(10) by (simp add: fits_def)
  from resolv_local_ok [OF assms(1-7) this, of 0] obtain c' where
    c': "cache_rep c' (cache_after (now w) es ls (qtype q) (qclass q))"
    "resolv_handle w db c (replicate TLS_BUFFER_SIZE 0) 2 0 query =
      ret (answered (replicate TLS_BUFFER_SIZE 0) 2 ?r query c')" by auto
  have len: "12 \<le> length ?e" "length ?e \<le> TLS_BUFFER_SIZE"
    using assms(9) by (simp_all add: enc_message_def tls_request_def)
  then have "12 \<le> (of_nat (length ?e) :: u32)" by (simp add: word_le_nat_alt unat_of_nat)
  then have "dns_recv_handle (overlay (replicate TLS_BUFFER_SIZE 0) 0 ?e) (of_nat (length ?e)) zero_message = ret (1, query)"
    unfolding dns_recv_handle_def
    using len by (intro message_from_buf_reads assms(8) holds_at_overlay) (simp_all add: fits_def)
  moreover have "sint (of_nat (length ?r) :: u32) = int (length ?r)" using assms(10) by (simp add: sint_u32_of_nat)
  ultimately have "ssl_resolv_and_respond w db c ssl = ret (1, [be16 (of_nat (length ?r)) @ ?r], c')"
    using tls_handles [OF assms(9)] c'(2) tls_frame_ok [OF assms(10)]
      free_heap_message_ok [OF plain_message_wf [OF assms(8)]]
    by (simp add: release_query_def)
  with c'(1) show ?thesis by blast
qed

text \<open>The answer to a request that cannot be parsed: the length overwrites the identifier of the error
  message instead of being put in front of it.\<close>

lemma be16_simps: "be16 0 = [0, 0]" "be16 12 = [0, 12]"
  by (simp_all add: be16_def store16_def ntohs_def load16_def)

lemma error_message_bytes:
  "\<exists>m. error_message = Some m \<and> wf_message m \<and> enc_message m = [0, 0, 0x84, 0x81, 0, 0, 0, 0, 0, 0, 0, 0]"
  by (simp add: error_message_def construct_error_response_def wf_message_def zero_message_def zero_header_def
      wf_section_def enc_message_def enc_header_def enc_section_def section_items_def be16_simps create_misc1_def
      create_misc2_def)

lemma tls_frame_over:
  assumes "2 \<le> length bs" and "length bs + 2 \<le> TLS_BUFFER_SIZE"
  shows "tls_frame (overlay (replicate TLS_BUFFER_SIZE 0) 0 bs) (int (length bs)) =
    ret (be16 (of_nat (length bs)) @ drop 2 bs @ [0, 0])"
proof -
  have "size_t (int (length bs) + 2) = length bs + 2" using assms by (simp add: size_t_def nat_add_distrib)
  moreover have "store16 w \<noteq> []" for w by (simp add: store16_def)
  moreover have "min 2 (TLS_BUFFER_SIZE - length bs) = Suc (Suc 0)" using assms by simp
  ultimately show ?thesis using assms
    by (simp add: tls_frame_def wr_bytes_def rd_bytes_def overlay_def be16_def Suc_diff_le numeral_2_eq_2)
qed

lemma tls_malformed:
  assumes "tls_request ssl bs" and "length bs < 12"
  shows "ssl_resolv_and_respond w db c ssl =
    ret (-1, [[0, 12, 0x84, 0x81, 0, 0, 0, 0, 0, 0, 0, 0, 0, 0]], c)"
proof -
  from error_message_bytes obtain m where m: "error_message = Some m" "wf_message m"
    "enc_message m = [0, 0, 0x84, 0x81, 0, 0, 0, 0, 0, 0, 0, 0]" by blast
  then have len: "length (enc_message m) = 12" by simp
  have "message_to_u8 m (replicate TLS_BUFFER_SIZE 0) 0 = ret (12, overlay (replicate TLS_BUFFER_SIZE 0) 0 (enc_message m))"
    using message_to_u8_writes [OF m(2), of "replicate TLS_BUFFER_SIZE 0" 0] len by (simp add: fits_def)
  moreover have "tls_frame (overlay (replicate TLS_BUFFER_SIZE 0) 0 (enc_message m)) 12 =
      ret [0, 12, 0x84, 0x81, 0, 0, 0, 0, 0, 0, 0, 0, 0, 0]"
    using tls_frame_over [of "enc_message m"] len by (simp add: be16_simps) (simp add: m(3))
  moreover have "dns_recv_handle buf (of_nat (length bs)) zero_message = ret (-1, zero_message)" for buf
    using assms(2) by (simp add: dns_recv_handle_def message_from_buf_def word_less_nat_alt unat_of_nat)
  moreover have "free_heap_message zero_message = ret (1, zero_message)"
    by (simp add: free_heap_message_def free_section_def zero_message_def)
  ultimately show ?thesis by (simp add: tls_handles [OF assms(1)] m(1))
qed

section \<open>The responder loops\<close>

text \<open>A datagram becomes exactly one job at the end of the queue, carrying its bytes and its sender; with 128
  jobs waiting it is dropped without notice.\<close>

lemma udp_responder_ok:
  assumes "queue_inv (pool_queue pool)" and "length bs \<le> UDP_BUFFER_SIZE"
  shows "\<exists>pool'. udp_responder pool (Datagram addr bs) = ret pool' \<and> queue_inv (pool_queue pool') \<and>
    queue_abs (pool_queue pool') = queue_abs (pool_queue pool) @
      (if length (queue_abs (pool_queue pool)) < N_THREADS_MAX
       then [create_job Udp_resolv_and_respond (udp_args addr bs)] else [])"
proof -
  let ?j = "create_job Udp_resolv_and_respond (udp_args addr bs)"
  from jq.push_ok [OF assms(1), of ?j] obtain q where
    q: "queue_push (pool_queue pool) ?j = ret (fst (fifo_push 128 (queue_abs (pool_queue pool)) ?j), q)"
      "queue_abs q = snd (fifo_push 128 (queue_abs (pool_queue pool)) ?j)" "queue_inv q" by blast
  then have "udp_responder pool (Datagram addr bs) = ret (pool\<lparr>pool_queue := q\<rparr>)"
    using assms(2) create_udp_args [OF assms(2)] by (simp add: udp_responder_def threadpool_add_job_def Let_def)
  with q show ?thesis by (auto simp: fifo_push_def)
qed

section \<open>Properties\<close>

definition sample_session :: "byte list \<Rightarrow> byte list \<Rightarrow> tls_session" where
  "sample_session sz bs = \<lparr>ssl_accept = 1, ssl_size = sz,
     ssl_reads = (\<lambda>i k. if i = 0 then Some (take k bs) else Some []), ssl_write = 1\<rparr>"

lemma sample_session_request:
  assumes "bs \<noteq> []" and "length bs \<le> TLS_BUFFER_SIZE"
  shows "tls_request (sample_session (be16 (of_nat (length bs))) bs) bs"
  using assms unfolding tls_request_def sample_session_def
  by (auto intro!: exI [of _ "[bs]"])

lemma plain_sample_query: "plain_message sample_query"
  by (simp add: sample_query_def plain_message_def sample_simps misc_TC_def)

lemma sample_local:
  "spec_find (enc_name [[97]]) 1 1 [(sample_rr, 160)] = [sample_rr]"
  "cache_after 100 [(sample_rr, 160)] [[97]] 1 1 = [(sample_rr, 160)]"
  "local_records sample_db [(sample_rr, 160)] [[97]] 1 1 = Some [sample_rr]"
proof -
  show f: "spec_find (enc_name [[97]]) 1 1 [(sample_rr, 160)] = [sample_rr]"
    by (simp add: spec_find_def matches_def sample_rr_def enc_name_sample)
  show "cache_after 100 [(sample_rr, 160)] [[97]] 1 1 = [(sample_rr, 160)]"
    by (simp add: cache_after_def f spec_put_def same_rr_def)
  show "local_records sample_db [(sample_rr, 160)] [[97]] 1 1 = Some [sample_rr]"
    by (simp add: local_records_def f)
qed

text \<open>A well-formed query that arrives in a datagram and can be answered from the cache or the database is
  answered with exactly one datagram to its sender, the wire form of that response; the job
  releases everything it allocated without a fault.\<close>

lemma udp_answers_locally:
  assumes "fresh_alloc (alloc w)" and "cache_rep c es" and "db_valid db" and "standard_query query q ls"
    and "known_addresses db ls (qtype q)"
    and "length (spec_find (enc_name ls) (qtype q) (qclass q) es) \<le> ANCOUNT_MAX"
    and "local_records db es ls (qtype q) (qclass q) = Some rrs" and "plain_message query"
    and "length (enc_message query) \<le> UDP_BUFFER_SIZE"
    and "length (enc_message (local_response query rrs)) \<le> UDP_BUFFER_SIZE"
  shows "\<exists>c'. cache_rep c' (cache_after (now w) es ls (qtype q) (qclass q)) \<and>
    udp_resolv_and_respond w db c (udp_args addr (enc_message query)) =
      ret (1, [(addr, enc_message (local_response query rrs))], c')"
  using assms by (rule udp_local_ok)

lemma udp_answers_locally_witness:
  "\<exists>c c'. cache_rep c [(sample_rr, 160)] \<and> cache_rep c' [(sample_rr, 160)] \<and>
     udp_resolv_and_respond (sample_world 7) sample_db c (udp_args [9] (enc_message sample_query)) =
       ret (1, [([9], enc_message (local_response sample_query [sample_rr]))], c')"
proof -
  obtain c where c: "cache_rep c [(sample_rr, 160)]" using sample_cache by blast
  show ?thesis
    using c udp_answers_locally [OF fresh_sample c sample_db_ok(1) standard_sample sample_db_ok(3), of "[sample_rr]" 7 "[9]"]
      plain_sample_query
    by (auto simp: sample_local length_local_sample sample_query_ok sample_world_def)
qed



text \<open>C31: a datagram with the truncation flag and a question count is rejected by the parser with -1, which
  the test of the job lets pass; the resolver then follows the null pointer of its question array.\<close>

theorem udp_truncated_crashes:
  assumes "rcvbuffer args = Some buf" and "holds_at buf 0 (enc_header h)" and "12 \<le> nrecv args" and "nrecv args < 2 ^ 31"
    and "misc_TC (misc1 h) \<noteq> 0" and "misc_QR (misc1 h) = QR_REQ" and "misc_OPCODE (misc1 h) = OPCODE_QUERY"
    and "qdcount h \<noteq> 0"
  shows "udp_resolv_and_respond w db c args = fail NullDeref"
  using assms by (rule udp_truncated)

theorem udp_truncated_crashes_witness:
  "udp_resolv_and_respond (sample_world 7) sample_db \<lparr>dummy = None, cache_size = 0, nodes = Map.empty\<rparr>
     (udp_args [9] (enc_header (zero_header\<lparr>misc1 := 2, qdcount := 1\<rparr>))) = fail NullDeref"
  by (rule udp_truncated_crashes [of _ "enc_header (zero_header\<lparr>misc1 := 2, qdcount := 1\<rparr>) @ replicate 4084 0"
        "zero_header\<lparr>misc1 := 2, qdcount := 1\<rparr>"])
    (simp_all add: udp_args_def holds_at_prefix misc_TC_def misc_QR_def misc_OPCODE_def)

text \<open>C33: a query for a name of 255 to 511 bytes, which the parser accepts, is answered with a format error, but
  the failed copy of the question shares its name with the response: it is released twice.\<close>

theorem udp_long_name_double_free:
  assumes "rcvbuffer args = Some buf" and "holds_at buf 0 (enc_header h @ enc_question q)"
    and "12 \<le> nrecv args" and "nrecv args < 2 ^ 31"
    and "misc_TC (misc1 h) = 0" and "misc_QR (misc1 h) = QR_REQ" and "misc_OPCODE (misc1 h) = OPCODE_QUERY"
    and "qdcount h = 1" and "ancount h = 0" and "nscount h = 0" and "arcount h = 0"
    and "qname q = Some (bs @ [0])" and "nul_free bs" and "pointer_free bs" and "255 \<le> length bs" and "length bs < 512"
  shows "udp_resolv_and_respond w db c args = fail DanglingPointer"
  using assms by (rule udp_long_name)

theorem udp_long_name_double_free_witness:
  "udp_resolv_and_respond (sample_world 7) sample_db \<lparr>dummy = None, cache_size = 0, nodes = Map.empty\<rparr>
     (udp_args [9] (enc_header (zero_header\<lparr>qdcount := 1\<rparr>) @
        enc_question \<lparr>qname = Some (replicate 300 97 @ [0]), qtype = 1, qclass = 1\<rparr>)) = fail DanglingPointer"
proof -
  let ?h = "zero_header\<lparr>qdcount := 1\<rparr>" and ?q = "\<lparr>qname = Some (replicate 300 97 @ [0]), qtype = 1, qclass = 1\<rparr>"
  let ?e = "enc_header ?h @ enc_question ?q"
  have "length ?e = 317" by (simp add: enc_question_def)
  then have "rcvbuffer (udp_args [9] ?e) = Some (?e @ replicate 3779 0)" "nrecv (udp_args [9] ?e) = 317"
    unfolding udp_args_def resolv_args.simps by (simp_all only:) simp_all
  moreover have "nul_free (replicate 300 97)" "pointer_free (replicate 300 97)"
    by (simp_all add: nul_free_def pointer_free_def is_pointer_def list_all_iff)
  ultimately show ?thesis
    by (intro udp_long_name_double_free [OF _ holds_at_prefix [of ?e "replicate 3779 0"], of _ "replicate 300 97"])
      (simp_all add: zero_header_def misc_TC_def misc_QR_def misc_OPCODE_def)
qed

text \<open>C36: when the peer closes a TLS session before the announced number of bytes has arrived, at the beginning or after
  any chunks that fit into the buffer, the read loop gets 0 from every further read and never ends: the worker thread is lost.\<close>

theorem tls_closed_session_hangs:
  assumes "0 < ssl_accept ssl" and "ssl_size ssl = be16 n" and "delivers (\<lambda>i. ssl_reads ssl i TLS_BUFFER_SIZE) 0 css"
    and "length (concat css) < unat n" and "length (concat css) \<le> TLS_BUFFER_SIZE"
    and "\<forall>i \<ge> length css. \<forall>k. ssl_reads ssl i k = Some []"
  shows "ssl_resolv_and_respond w db c ssl = None"
proof -
  have "tls_read_loop (ssl_reads ssl) 0 0 (replicate TLS_BUFFER_SIZE 0) 0 n = None"
    using assms(3-6) by (intro tls_read_partial [where css = css]) simp_all
  with assms(1,2) show ?thesis by (simp add: ssl_resolv_and_respond_def Let_def be16_read)
qed

theorem tls_closed_session_hangs_witness:
  "ssl_resolv_and_respond (sample_world 7) sample_db \<lparr>dummy = None, cache_size = 0, nodes = Map.empty\<rparr>
     (sample_session (be16 19) [1, 2, 3]) = None"
  by (rule tls_closed_session_hangs [where n = 19 and css = "[[1, 2, 3]]"]) (simp_all add: sample_session_def)

text \<open>C37: every read is allowed the size of the whole buffer although it writes behind the bytes already received: a request
  announced with more than 5120 bytes overruns the receive buffer as soon as that many bytes arrive, whatever the chunks
  that reads of this length deliver.\<close>

theorem tls_long_request_overflows:
  assumes "0 < ssl_accept ssl" and "ssl_size ssl = be16 n" and "TLS_BUFFER_SIZE < unat n"
    and "delivers (\<lambda>i. ssl_reads ssl i TLS_BUFFER_SIZE) 0 css" and "TLS_BUFFER_SIZE < length (concat css)"
  shows "ssl_resolv_and_respond w db c ssl = fail OutOfBounds"
proof -
  have "tls_read_loop (ssl_reads ssl) 0 0 (replicate TLS_BUFFER_SIZE 0) 0 n = fail OutOfBounds"
    using assms(3-5) by (intro tls_read_overflow [where css = css]) simp_all
  with assms(1,2) show ?thesis by (simp add: ssl_resolv_and_respond_def Let_def be16_read)
qed

text \<open>A session that never returns more than a read asks for: 3000 bytes are there for each.\<close>

definition bounded_reads :: "tls_session \<Rightarrow> bool" where
  "bounded_reads ssl \<longleftrightarrow> (\<forall>i k bs. ssl_reads ssl i k = Some bs \<longrightarrow> length bs \<le> k)"

definition chunked_session :: tls_session where
  "chunked_session = \<lparr>ssl_accept = 1, ssl_size = be16 6000, ssl_reads = (\<lambda>i k. Some (replicate (min k 3000) 1)), ssl_write = 1\<rparr>"

theorem tls_long_request_overflows_witness:
  "bounded_reads chunked_session \<and>
   ssl_resolv_and_respond (sample_world 7) sample_db \<lparr>dummy = None, cache_size = 0, nodes = Map.empty\<rparr> chunked_session =
     fail OutOfBounds"
proof
  show "bounded_reads chunked_session" by (auto simp: bounded_reads_def chunked_session_def)
  have "delivers (\<lambda>i. ssl_reads chunked_session i TLS_BUFFER_SIZE) 0 [replicate 3000 1, replicate 3000 1]"
    unfolding delivers_simps by (simp add: chunked_session_def)
  then show "ssl_resolv_and_respond (sample_world 7) sample_db \<lparr>dummy = None, cache_size = 0, nodes = Map.empty\<rparr> chunked_session =
      fail OutOfBounds"
    by (rule tls_long_request_overflows [rotated 3, where n = 6000]) (simp_all add: chunked_session_def)
qed

text \<open>A TLS request too short to be a message is answered with the error message, but its length overwrites
  the first two bytes instead of standing in front: the client gets a header with identifier
  0x8481 and all flags clear.\<close>

lemma tls_error_response_garbled:
  assumes "tls_request ssl bs" and "length bs < 12"
  shows "ssl_resolv_and_respond w db c ssl =
    ret (-1, [[0, 12, 0x84, 0x81, 0, 0, 0, 0, 0, 0, 0, 0, 0, 0]], c)"
  using assms by (rule tls_malformed)

lemma tls_error_response_garbled_witness:
  "ssl_resolv_and_respond (sample_world 7) sample_db \<lparr>dummy = None, cache_size = 0, nodes = Map.empty\<rparr>
     (sample_session (be16 3) [1, 2, 3]) =
   ret (-1, [[0, 12, 0x84, 0x81, 0, 0, 0, 0, 0, 0, 0, 0, 0, 0]], \<lparr>dummy = None, cache_size = 0, nodes = Map.empty\<rparr>)"
  using sample_session_request [of "[1, 2, 3]"] by (intro tls_error_response_garbled [of _ "[1, 2, 3]"]) simp_all

end
