(* ===== verification/Startup.thy ===== *)
theory Startup
  imports Server_Props
begin

text \<open>
  Configuration and start (\<^verbatim>\<open>utils/conf.c\<close>, \<^verbatim>\<open>main.c\<close>): the options collected by \<^verbatim>\<open>parse_opt\<close>, the defaults, the
  order in which \<^verbatim>\<open>init_storage\<close> sets up the parts of the server, and the servers \<^verbatim>\<open>main\<close> starts. The
  option parser of the C library is an argument: the sequence of keys and values with
  which it calls \<^verbatim>\<open>parse_opt\<close>. So are the relay files, the address of the first cache node, the
  time, the results of \<^verbatim>\<open>pthread_create\<close> and of the calls that set up the sockets.
\<close>

section \<open>Configuration\<close>

record dns_config =
  verbose :: byte
  dot_enable :: byte
  recursion_enabled :: byte
  relay_file_path :: "mem option"
  external_dns :: "mem option"
  external_addr :: "byte list"

definition conf0 :: dns_config where
  "conf0 = \<lparr>verbose = 0, dot_enable = 0, recursion_enabled = 0, relay_file_path = None, external_dns = None,
     external_addr = [0, 0, 0, 0]\<rparr>"

definition default_relay_file :: mem where
  "default_relay_file = [114, 101, 108, 97, 121, 46, 116, 120, 116, 0]"

definition default_external_dns :: mem where
  "default_external_dns = [49, 48, 46, 51, 46, 49, 55, 57, 46, 49, 49, 56, 0]"

abbreviation (input) ARGP_KEY_ARG :: int where "ARGP_KEY_ARG \<equiv> 0"
abbreviation (input) ARGP_ERR_UNKNOWN :: int where "ARGP_ERR_UNKNOWN \<equiv> 7"

definition parse_opt :: "int \<Rightarrow> mem option \<Rightarrow> dns_config \<Rightarrow> int \<times> dns_config" where
  "parse_opt key arg conf =
     (if key = 118 then (0, conf\<lparr>verbose := 1\<rparr>)
      else if key = 116 then (0, conf\<lparr>dot_enable := 1\<rparr>)
      else if key = 114 then (0, conf\<lparr>relay_file_path := arg\<rparr>)
      else if key = ARGP_KEY_ARG then (0, conf\<lparr>external_dns := arg\<rparr>)
      else (ARGP_ERR_UNKNOWN, conf))"

text \<open>The calls of \<^verbatim>\<open>argp_parse\<close>; it ignores the error for the keys it adds on its own.\<close>

definition argp_parse :: "(int \<times> mem option) list \<Rightarrow> dns_config \<Rightarrow> dns_config" where
  "argp_parse calls conf = fold (\<lambda>(key, arg) conf. snd (parse_opt key arg conf)) calls conf"

definition parse_cmd :: "(int \<times> mem option) list \<Rightarrow> dns_config \<Rightarrow> (int \<times> dns_config) run" where
  "parse_cmd calls conf =
     (let conf = argp_parse calls conf;
          conf = (if relay_file_path conf = None then conf\<lparr>relay_file_path := Some default_relay_file\<rparr> else conf);
          conf = (if external_dns conf = None then conf\<lparr>external_dns := Some default_external_dns\<rparr> else conf) in
      bind_run (deref (external_dns conf)) (\<lambda>src.
      bind_run (ipv4_convert src [0, 0, 0, 0]) (\<lambda>(r, ip).
      if r < 0 then ret (-1, conf) else ret (1, conf\<lparr>external_addr := ip\<rparr>))))"

section \<open>Start\<close>

record server =
  srv_conf :: dns_config
  srv_db :: database
  srv_cache :: rr_cache
  srv_pool :: "dns_job threadpool"

record environment =
  files :: "mem \<Rightarrow> byte list list option"
  stack :: relay_buffers
  first_node :: addr
  start_time :: int
  thread_create :: "nat \<Rightarrow> int"
  udp_port :: u16
  tls_port :: u16
  sys :: sys_results

text \<open>\<^term>\<open>None\<close>: the process exits with a failure.\<close>

definition init_storage :: "environment \<Rightarrow> (int \<times> mem option) list \<Rightarrow> server option run" where
  "init_storage env calls =
     bind_run (parse_cmd calls conf0) (\<lambda>(r, conf).
     if r < 0 then ret None
     else
       bind_run (deref (relay_file_path conf)) (\<lambda>path.
       bind_run (init_database (files env path) (stack env)) (\<lambda>(r, db).
       if r < 0 then ret None
       else
         bind_run (init_cache (first_node env) (start_time env)) (\<lambda>c.
         let (r, pool) = init_threadpool (thread_create env) in
         if r < 0 then ret None
         else ret (Some \<lparr>srv_conf = conf, srv_db = db, srv_cache = c, srv_pool = pool\<rparr>)))))"

text \<open>The server with the arguments of the responder threads that \<^verbatim>\<open>main\<close> waits for.\<close>

definition main :: "environment \<Rightarrow> (int \<times> mem option) list \<Rightarrow> (server \<times> responder_args list) option run" where
  "main env calls =
     bind_run (init_storage env calls) (\<lambda>s.
     case s of None \<Rightarrow> ret None
     | Some srv \<Rightarrow>
         (case start_udp_server (sys env) (udp_port env) of
            (r, None) \<Rightarrow> ret None
          | (r, Some udp) \<Rightarrow>
              if r < 0 then ret None
              else if dot_enable (srv_conf srv) \<noteq> 0 then
                (case start_tls_server (sys env) (tls_port env) of
                   None \<Rightarrow> ret None
                 | Some (r, None) \<Rightarrow> ret None
                 | Some (r, Some tls) \<Rightarrow> if r < 0 then ret None else ret (Some (srv, [udp, tls])))
              else ret (Some (srv, [udp]))))"

section \<open>What the options give\<close>

definition last_value :: "int \<Rightarrow> (int \<times> mem option) list \<Rightarrow> mem option" where
  "last_value key calls = (case map_of (rev calls) key of None \<Rightarrow> None | Some arg \<Rightarrow> arg)"

lemma argp_parse_snoc [simp]:
  "argp_parse [] conf = conf"
  "argp_parse (calls @ [(key, arg)]) conf = snd (parse_opt key arg (argp_parse calls conf))"
  by (simp_all add: argp_parse_def)

lemma last_value_snoc [simp]:
  "last_value key [] = None"
  "last_value key (calls @ [(key', arg)]) = (if key = key' then arg else last_value key calls)"
  by (simp_all add: last_value_def)

lemma parse_opt_fields [simp]:
  "relay_file_path (snd (parse_opt key arg conf)) = (if key = 114 then arg else relay_file_path conf)"
  "external_dns (snd (parse_opt key arg conf)) = (if key = ARGP_KEY_ARG then arg else external_dns conf)"
  "dot_enable (snd (parse_opt key arg conf)) = (if key = 116 then 1 else dot_enable conf)"
  "verbose (snd (parse_opt key arg conf)) = (if key = 118 then 1 else verbose conf)"
  "recursion_enabled (snd (parse_opt key arg conf)) = recursion_enabled conf"
  "external_addr (snd (parse_opt key arg conf)) = external_addr conf"
  by (simp_all add: parse_opt_def)

text \<open>The configuration a command line stands for.\<close>

definition given :: "int \<Rightarrow> (int \<times> mem option) list \<Rightarrow> bool" where
  "given key calls \<longleftrightarrow> key \<in> fst ` set calls"

definition chosen_dns :: "(int \<times> mem option) list \<Rightarrow> mem" where
  "chosen_dns calls = (case last_value ARGP_KEY_ARG calls of None \<Rightarrow> default_external_dns | Some src \<Rightarrow> src)"

definition chosen_config :: "(int \<times> mem option) list \<Rightarrow> dns_config" where
  "chosen_config calls = \<lparr>verbose = (if given 118 calls then 1 else 0), dot_enable = (if given 116 calls then 1 else 0),
     recursion_enabled = 0,
     relay_file_path = Some (case last_value 114 calls of None \<Rightarrow> default_relay_file | Some path \<Rightarrow> path),
     external_dns = Some (chosen_dns calls),
     external_addr = (case inet_pton4 (takeWhile (\<lambda>c. c \<noteq> 0) (chosen_dns calls)) of None \<Rightarrow> [0, 0, 0, 0] | Some ip \<Rightarrow> ip)\<rparr>"

lemma argp_parse_config:
  "argp_parse calls conf0 = \<lparr>verbose = (if given 118 calls then 1 else 0), dot_enable = (if given 116 calls then 1 else 0),
     recursion_enabled = 0, relay_file_path = last_value 114 calls, external_dns = last_value ARGP_KEY_ARG calls,
     external_addr = [0, 0, 0, 0]\<rparr>"
proof (induction calls rule: rev_induct)
  case Nil
  then show ?case by (simp add: conf0_def given_def)
next
  case (snoc x calls)
  then show ?case by (cases x) (auto simp: given_def intro!: dns_config.equality)
qed

lemma parse_cmd_ok:
  assumes "0 \<in> set (chosen_dns calls)"
  shows "parse_cmd calls conf0 =
    ret (if inet_pton4 (takeWhile (\<lambda>c. c \<noteq> 0) (chosen_dns calls)) = None then -1 else 1, chosen_config calls)"
proof -
  have "c_string (chosen_dns calls) = ret (takeWhile (\<lambda>c. c \<noteq> 0) (chosen_dns calls))"
    using assms by (simp add: c_string_def)
  then show ?thesis
    by (cases "last_value 114 calls"; cases "last_value ARGP_KEY_ARG calls";
        cases "inet_pton4 (takeWhile (\<lambda>c. c \<noteq> 0) (chosen_dns calls))")
      (simp_all add: parse_cmd_def argp_parse_config Let_def ipv4_convert_def chosen_config_def chosen_dns_def)
qed

lemma init_storage_ok:
  assumes "relay_file es lines" and "buffers_ok (stack env)" and "files env default_relay_file = Some lines"
    and "\<forall>i. thread_create env i = 0"
  shows "\<exists>srv. init_storage env [] = ret (Some srv) \<and> relay_db (srv_db srv) \<and> cache_rep (srv_cache srv) [] \<and>
    external_addr (srv_conf srv) = [10, 3, 179, 118] \<and> dot_enable (srv_conf srv) = 0 \<and>
    (\<forall>ls. \<forall>e \<in> {RR_ARR_A, RR_ARR_AAAA}. db_lookup (srv_db srv) ls e = relay_spec es e ls)"
proof -
  have ip: "inet_pton4 (takeWhile (\<lambda>c. c \<noteq> 0) default_external_dns) = Some [10, 3, 179, 118]"
    by (simp add: default_external_dns_def inet_pton4_def digit_val_def)
  have dns: "chosen_dns [] = default_external_dns" by (simp add: chosen_dns_def)
  then have "0 \<in> set (chosen_dns [])" by (simp add: default_external_dns_def)
  from parse_cmd_ok [OF this] obtain conf where
    conf: "parse_cmd [] conf0 = ret (1, conf)" "relay_file_path conf = Some default_relay_file"
    "external_addr conf = [10, 3, 179, 118]" "dot_enable conf = 0" by (simp add: dns ip chosen_config_def given_def)
  obtain db where db: "init_database (Some lines) (stack env) = ret (1, db)" "relay_db db"
    "\<forall>ls. \<forall>e \<in> {RR_ARR_A, RR_ARR_AAAA}. db_lookup db ls e = relay_spec es e ls" using init_database_ok [OF assms(1,2)] by blast
  obtain c where c: "init_cache (first_node env) (start_time env) = ret c" "cache_rep c []" using init_cache_ok by blast
  have "thread_create env = (\<lambda>_. 0)" using assms(4) by auto
  then have "fst (init_threadpool (thread_create env) :: int \<times> dns_job threadpool) = 1"
    by (simp add: init_threadpool_def create_threads_ok)
  with conf db c assms(3) show ?thesis by (simp add: init_storage_def case_prod_unfold Let_def)
qed

section \<open>Properties\<close>

text \<open>C30: the whole configuration after the command line: verbose output and DNS over TLS are on exactly when \<^verbatim>\<open>-v\<close> and \<^verbatim>\<open>-t\<close>
  were given, the relay file is the last one given with \<^verbatim>\<open>-r\<close> or \<^verbatim>\<open>relay.txt\<close>, the external resolver the last argument
  or 10.3.179.118 (a terminated string); the call succeeds exactly when that is a valid IPv4 address, which is then
  stored, and otherwise the address stays 0.0.0.0.\<close>

theorem parse_cmd_result:
  assumes "0 \<in> set (chosen_dns calls)"
  shows "parse_cmd calls conf0 =
    ret (if inet_pton4 (takeWhile (\<lambda>c. c \<noteq> 0) (chosen_dns calls)) = None then -1 else 1, chosen_config calls)"
  using assms by (rule parse_cmd_ok)

theorem parse_cmd_result_witness:
  "parse_cmd [(116, None), (118, None), (0, Some [49, 46, 49, 46, 49, 46, 49, 0])] conf0 =
     ret (1, \<lparr>verbose = 1, dot_enable = 1, recursion_enabled = 0, relay_file_path = Some default_relay_file,
       external_dns = Some [49, 46, 49, 46, 49, 46, 49, 0], external_addr = [1, 1, 1, 1]\<rparr>)"
proof -
  let ?calls = "[(116, None), (118, None), (0, Some [49, 46, 49, 46, 49, 46, 49, 0])] :: (int \<times> mem option) list"
  have dns: "chosen_dns ?calls = [49, 46, 49, 46, 49, 46, 49, 0]" by (simp add: chosen_dns_def last_value_def)
  moreover have "inet_pton4 [49, 46, 49, 46, 49, 46, 49] = Some [1, 1, 1, 1]" by (simp add: inet_pton4_def digit_val_def)
  moreover have "last_value 114 ?calls = None" by (simp add: last_value_def)
  ultimately show ?thesis using parse_cmd_result [of ?calls] by (simp add: chosen_config_def given_def)
qed

end
