(* ===== verification/Job_Calls.thy ===== *)
theory Job_Calls
  imports Server_Props
begin

text \<open>
  The jobs of the servers with their calls of the shared cache made visible. A job is a tree: it makes a call
  of \<^verbatim>\<open>cache_find_rr\<close>, \<^verbatim>\<open>cache_put_rr\<close> or \<^verbatim>\<open>send_question\<close> and goes on with the result, or it ends. Each of the two
  cache functions holds the lock of the cache from its first to its last access, so other threads can run
  exactly between two calls. Run alone, the trees are the jobs of the theory \<open>Server\<close>.
\<close>

section \<open>Trees of calls\<close>

datatype 'a calls =
    Ended "'a run"
  | Find_rr "resource_record list" mem u16 u16 "int \<times> resource_record list \<Rightarrow> 'a calls"
  | Put_rr resource_record "'a calls"
  | Send_question message message "int \<times> message \<times> message \<Rightarrow> 'a calls"

primrec bind_calls :: "'a calls \<Rightarrow> ('a \<Rightarrow> 'b calls) \<Rightarrow> 'b calls" where
  "bind_calls (Ended r) f = (case r of None \<Rightarrow> Ended None | Some (Inl e) \<Rightarrow> Ended (fail e) | Some (Inr x) \<Rightarrow> f x)"
| "bind_calls (Find_rr dest name t cl k) f = Find_rr dest name t cl (\<lambda>r. bind_calls (k r) f)"
| "bind_calls (Put_rr rr k) f = Put_rr rr (bind_calls k f)"
| "bind_calls (Send_question req resp k) f = Send_question req resp (\<lambda>r. bind_calls (k r) f)"

text \<open>The calls made one after the other without another thread. The clock shows \<open>t\<close>, and later after an exchange.\<close>

primrec run_calls :: "'a calls \<Rightarrow> world \<Rightarrow> int \<Rightarrow> rr_cache \<Rightarrow> ('a \<times> int \<times> rr_cache) run" where
  "run_calls (Ended r) w t c = bind_run r (\<lambda>x. ret (x, t, c))"
| "run_calls (Find_rr dest name ty cl k) w t c =
     bind_run (cache_find_rr c dest name ty cl) (\<lambda>r. run_calls (k r) w t c)"
| "run_calls (Put_rr rr k) w t c = bind_run (cache_put_rr c (alloc w c) t rr) (\<lambda>(_, c). run_calls k w t c)"
| "run_calls (Send_question req resp k) w t c =
     bind_run (send_question (net w) req resp) (\<lambda>r. run_calls (k r) w (later w) c)"

lemma bind_calls_Ended [simp]:
  "bind_calls (Ended (ret x)) f = f x" "bind_calls (Ended (fail e)) f = Ended (fail e)"
  "bind_calls (Ended None) f = Ended None"
  by simp_all

declare bind_calls.simps(1) [simp del]

lemma bind_calls_local: "bind_calls (Ended r) (\<lambda>x. Ended (f x)) = Ended (bind_run r f)"
  by (auto simp: bind_calls.simps(1) bind_run_def split: option.splits sum.splits)

lemma bind_calls_assoc: "bind_calls (bind_calls p f) g = bind_calls p (\<lambda>x. bind_calls (f x) g)"
  by (induction p) (auto simp: bind_calls.simps(1) split: option.splits sum.splits)

lemma run_bind_calls:
  "run_calls (bind_calls p f) w t c = bind_run (run_calls p w t c) (\<lambda>(x, t, c). run_calls (f x) w t c)"
  by (induction p arbitrary: t c)
    (auto simp: bind_calls.simps(1) bind_run_assoc case_prod_unfold bind_run_def split: option.splits sum.splits Option.bind_splits)

section \<open>The resolver\<close>

text \<open>The variables of the question loop and what a call leaves behind, without the shared cache.\<close>

record progress =
  pr_buffer :: "resource_record list"
  pr_cnt :: int
  pr_external :: bool
  pr_failure :: byte

record response =
  rsp_code :: int
  rsp_buf :: mem
  rsp_size :: u32
  rsp_query :: message
  rsp_dangling :: bool

fun put_calls :: "resource_record list \<Rightarrow> unit calls" where
  "put_calls [] = Ended (ret ())"
| "put_calls (rr # rrs) = Put_rr rr (put_calls rrs)"

text \<open>The rest of the body of the question loop, once the cache was searched.\<close>

definition found_calls ::
  "database \<Rightarrow> message_question \<Rightarrow> progress \<Rightarrow> int \<times> resource_record list \<Rightarrow> (bool \<times> progress) calls"
where
  "found_calls db mq s = (\<lambda>(n_rec, buf).
     if n_rec < 0 then Ended (ret (False, s\<lparr>pr_buffer := buf, pr_failure := RCODE_SERVER_FAILURE\<rparr>))
     else if n_rec > 0 then
       bind_calls (Ended (first_entries buf (nat n_rec))) (\<lambda>rrs.
       bind_calls (put_calls rrs) (\<lambda>_.
       Ended (ret (True, s\<lparr>pr_buffer := buf, pr_cnt := pr_cnt s + n_rec\<rparr>))))
     else
       bind_calls (Ended (select_database db mq buf)) (\<lambda>(n_rr_db, buf).
       if n_rr_db \<noteq> 0 then
         bind_calls (Ended (blocked_loop buf 0 (size_t n_rr_db))) (\<lambda>(buf, blocked).
         Ended (ret (True, s\<lparr>pr_buffer := buf, pr_cnt := (if blocked then 0 else n_rr_db)\<rparr>)))
       else Ended (ret (False, s\<lparr>pr_buffer := buf, pr_external := True\<rparr>))))"

definition answer_calls :: "database \<Rightarrow> message_question \<Rightarrow> progress \<Rightarrow> (bool \<times> progress) calls" where
  "answer_calls db mq s =
     bind_calls (Ended (print_question mq)) (\<lambda>_.
     bind_calls (Ended (domain_len (qname mq))) (\<lambda>dlen.
     if dlen < 0 then Ended (ret (False, s\<lparr>pr_failure := RCODE_FORMAT_ERROR\<rparr>))
     else
       bind_calls (Ended (deref (qname mq))) (\<lambda>name.
       Find_rr (pr_buffer s) name (qtype mq) (qclass mq) (found_calls db mq s))))"

fun loop_calls :: "database \<Rightarrow> message \<Rightarrow> nat \<Rightarrow> nat \<Rightarrow> progress \<Rightarrow> progress calls" where
  "loop_calls db query i 0 s = Ended (ret s)"
| "loop_calls db query i (Suc k) s =
     bind_calls (Ended (deref (question query))) (\<lambda>qs.
     if length qs \<le> i then Ended (fail OutOfBounds)
     else case qs ! i of
       None \<Rightarrow> Ended (ret (s\<lparr>pr_failure := RCODE_FORMAT_ERROR\<rparr>))
     | Some mq \<Rightarrow>
         bind_calls (answer_calls db mq s) (\<lambda>(go, s).
         if go then loop_calls db query (Suc i) k s else Ended (ret s)))"

definition ask_calls :: "message \<Rightarrow> message \<Rightarrow> (bool \<times> message \<times> message) calls" where
  "ask_calls query ans =
     bind_calls (Ended (free_heap_message ans)) (\<lambda>(_, ans).
     Send_question query ans (\<lambda>(r, query, ans).
     if r < 0 then Ended (ret (False, query, clear_counts ans))
     else
       bind_calls (Ended (entries (answer ans) 0 (unat (ancount (header ans))))) (\<lambda>rrs.
       bind_calls (put_calls rrs) (\<lambda>_.
       Ended (ret (True, query, ans))))))"

text \<open>What follows the last call: the answer section, the questions, writing and releasing the answer.\<close>

definition conclude :: "mem \<Rightarrow> ptr \<Rightarrow> u32 \<Rightarrow> message \<Rightarrow> message \<Rightarrow> bool \<Rightarrow> progress \<Rightarrow> response run" where
  "conclude sendbuf p asize query ans external s =
     bind_run
       (if \<not> external \<and> pr_failure s = 0 then fill_answer (pr_buffer s) (pr_cnt s) ans
        else ret ans) (\<lambda>ans.
     bind_run
       (if pr_failure s \<noteq> 0 then
          bind_run (free_heap_message ans) (\<lambda>(_, ans).
          ret (clear_counts (ans\<lparr>header := (header ans)\<lparr>
            misc2 := create_misc2 RA_FALSE Z_FLAG (pr_failure s)\<rparr>\<rparr>)))
        else ret ans) (\<lambda>ans.
     bind_run
       (if \<not> external \<or> pr_failure s \<noteq> 0 then paste_questions query ans else ret (ans, False))
       (\<lambda>(ans, shared).
     bind_run (message_to_u8 ans sendbuf p) (\<lambda>(msgsize, sendbuf).
     if msgsize < 0 then
       ret \<lparr>rsp_code = -1, rsp_buf = sendbuf, rsp_size = asize, rsp_query = query, rsp_dangling = False\<rparr>
     else
       bind_run (free_heap_message ans) (\<lambda>_.
       ret \<lparr>rsp_code = 1, rsp_buf = sendbuf, rsp_size = word_of_int msgsize, rsp_query = query,
            rsp_dangling = shared\<rparr>)))))"

definition finish_calls :: "mem \<Rightarrow> ptr \<Rightarrow> u32 \<Rightarrow> message \<Rightarrow> message \<Rightarrow> progress \<Rightarrow> response calls" where
  "finish_calls sendbuf p asize query ans s =
     bind_calls
       (if pr_external s \<and> pr_failure s = 0 then ask_calls query ans
        else Ended (ret (pr_external s, query, ans))) (\<lambda>(external, query, ans).
     Ended (conclude sendbuf p asize query ans external s))"

definition resolv_calls :: "database \<Rightarrow> mem \<Rightarrow> ptr \<Rightarrow> u32 \<Rightarrow> message \<Rightarrow> response calls" where
  "resolv_calls db sendbuf p asize query =
     (if misc_QR (misc1 (header query)) \<noteq> QR_REQ then
        Ended (ret \<lparr>rsp_code = -1, rsp_buf = sendbuf, rsp_size = asize, rsp_query = query, rsp_dangling = False\<rparr>)
      else
        let external = misc_OPCODE (misc1 (header query)) \<noteq> OPCODE_QUERY;
            s = \<lparr>pr_buffer = replicate ANCOUNT_MAX zero_rr, pr_cnt = 0, pr_external = external,
                 pr_failure = RCODE_NO_ERROR\<rparr> in
        bind_calls
          (if external then Ended (ret s) else loop_calls db query 0 (unat (qdcount (header query))) s) (\<lambda>s.
        finish_calls sendbuf p asize query (initial_answer query) s))"

section \<open>The jobs\<close>

text \<open>The release of the request, as in \<open>release_query\<close>.\<close>

definition release_request :: "response \<Rightarrow> unit run" where
  "release_request rsp =
     (if rsp_dangling rsp then fail DanglingPointer
      else bind_run (free_heap_message (rsp_query rsp)) (\<lambda>_. ret ()))"

definition udp_reply :: "resolv_args \<Rightarrow> response \<Rightarrow> (int \<times> (byte list \<times> byte list) list) run" where
  "udp_reply args rsp =
     (if rsp_code rsp < 0 then bind_run (release_request rsp) (\<lambda>_. ret (-1, []))
      else
        bind_run (rd_bytes (rsp_buf rsp) 0 (unat (rsp_size rsp))) (\<lambda>bs.
        bind_run (release_request rsp) (\<lambda>_.
        ret (1, [(cliaddr args, bs)]))))"

definition udp_calls :: "database \<Rightarrow> resolv_args \<Rightarrow> (int \<times> (byte list \<times> byte list) list) calls" where
  "udp_calls db args =
     (let sendbuf = replicate UDP_BUFFER_SIZE 0 in
      bind_calls (Ended (case rcvbuffer args of None \<Rightarrow> fail Uninitialised | Some b \<Rightarrow> ret b)) (\<lambda>buf.
      bind_calls (Ended (dns_recv_handle buf (word_of_int (nrecv args)) zero_message)) (\<lambda>(r, msgrcv).
      if r < -1 then
        Ended (bind_run (deref error_message) (\<lambda>errmsg.
          bind_run (message_to_u8 errmsg sendbuf 0) (\<lambda>(n, sendbuf).
          bind_run (rd_bytes sendbuf 0 (unat (word_of_int n :: u32))) (\<lambda>bs.
          bind_run (free_heap_message msgrcv) (\<lambda>_.
          ret (-1, [(cliaddr args, bs)]))))))
      else
        bind_calls (resolv_calls db sendbuf 0 0 msgrcv) (\<lambda>rsp. Ended (udp_reply args rsp)))))"

definition tls_reply :: "tls_session \<Rightarrow> response \<Rightarrow> (int \<times> byte list list) run" where
  "tls_reply ssl rsp =
     (if rsp_code rsp < 0 then ret (-1, [])
      else
        bind_run (tls_frame (rsp_buf rsp) (sint (rsp_size rsp))) (\<lambda>bs.
        if ssl_write ssl < 0 then ret (-1, [])
        else
          bind_run (release_request rsp) (\<lambda>_.
          ret (1, [bs]))))"

definition tls_calls :: "database \<Rightarrow> tls_session \<Rightarrow> (int \<times> byte list list) calls" where
  "tls_calls db ssl =
     (let sendbuf = replicate TLS_BUFFER_SIZE 0 in
      if ssl_accept ssl \<le> 0 then Ended (ret (-1, []))
      else if length (ssl_size ssl) \<noteq> 2 then Ended (ret (-1, []))
      else
        let expected = ntohs (load16 (ssl_size ssl ! 0) (ssl_size ssl ! 1)) in
        bind_calls (Ended (tls_read_loop (ssl_reads ssl) 0 0 (replicate TLS_BUFFER_SIZE 0) 0 expected)) (\<lambda>(rcv, recvbuf, n).
        if rcv < 0 \<or> n \<noteq> unat expected then Ended (ret (-1, []))
        else
          bind_calls (Ended (dns_recv_handle recvbuf (of_nat n) zero_message)) (\<lambda>(r, msgrcv).
          if r < 0 then
            Ended (bind_run (deref error_message) (\<lambda>errmsg.
              bind_run (message_to_u8 errmsg sendbuf 0) (\<lambda>(nsend, sendbuf).
              bind_run (tls_frame sendbuf nsend) (\<lambda>bs.
              bind_run (free_heap_message msgrcv) (\<lambda>_.
              ret (-1, [bs]))))))
          else
            bind_calls (resolv_calls db sendbuf 2 0 msgrcv) (\<lambda>rsp. Ended (tls_reply ssl rsp)))))"

section \<open>A job alone\<close>

definition run_alone :: "'a calls \<Rightarrow> world \<Rightarrow> rr_cache \<Rightarrow> ('a \<times> rr_cache) run" where
  "run_alone p w c = bind_run (run_calls p w (now w) c) (\<lambda>(x, _, c). ret (x, c))"

definition progress_of :: "answering \<Rightarrow> progress" where
  "progress_of s = \<lparr>pr_buffer = ans_buffer s, pr_cnt = ans_cnt s, pr_external = external_dns_flag s,
     pr_failure = failure_flag s\<rparr>"

definition response_of :: "resolved \<Rightarrow> response" where
  "response_of res = \<lparr>rsp_code = res_code res, rsp_buf = res_buf res, rsp_size = res_size res,
     rsp_query = res_query res, rsp_dangling = res_dangling res\<rparr>"

lemma run_alone_Ended [simp]: "run_alone (Ended r) w c = bind_run r (\<lambda>x. ret (x, c))"
  by (simp add: run_alone_def bind_run_assoc)

lemma run_alone_finally:
  "run_alone (bind_calls p (\<lambda>x. Ended (f x))) w c =
     bind_run (run_alone p w c) (\<lambda>(x, c). bind_run (f x) (\<lambda>y. ret (y, c)))"
  by (simp add: run_alone_def run_bind_calls bind_run_assoc case_prod_unfold)

lemma run_alone_local: "run_alone (bind_calls (Ended r) f) w c = bind_run r (\<lambda>x. run_alone (f x) w c)"
  by (simp add: run_alone_def run_bind_calls bind_run_assoc case_prod_unfold)

lemma run_put_calls:
  "run_calls (put_calls rrs) w t c = bind_run (put_records (alloc w) t rrs c) (\<lambda>c. ret ((), t, c))"
  by (induction rrs arbitrary: c) (simp_all add: bind_run_assoc case_prod_unfold)

text \<open>Rules that bring the two forms of a function together.\<close>

lemmas alone_simps = run_bind_calls run_put_calls bind_run_assoc case_prod_unfold
  if_distrib [where f = "\<lambda>p. run_calls p w t c" for w t c] if_distrib [where f = "\<lambda>r. bind_run r f" for f]

lemma run_answer_calls:
  "run_calls (answer_calls db mq (progress_of s)) w (now w) (ans_cache s) =
     bind_run (answer_question w db mq s) (\<lambda>(go, s'). ret ((go, progress_of s'), now w, ans_cache s'))"
  by (simp add: answer_calls_def found_calls_def answer_question_def alone_simps progress_of_def cong: if_cong)

lemma run_loop_calls:
  "run_calls (loop_calls db query i k (progress_of s)) w (now w) (ans_cache s) =
     bind_run (question_loop w db query i k s) (\<lambda>s'. ret (progress_of s', now w, ans_cache s'))"
proof (induction k arbitrary: i s)
  case (Suc k)
  have fmt: "(progress_of s)\<lparr>pr_failure := f\<rparr> = progress_of (s\<lparr>failure_flag := f\<rparr>)" for f
    by (simp add: progress_of_def)
  show ?case
  proof (cases "question query")
    case (Some qs)
    then show ?thesis
      by (cases "qs ! i") (simp_all add: alone_simps run_answer_calls Suc.IH fmt cong: if_cong)
  qed simp
qed simp

lemma run_ask_calls:
  "run_calls (ask_calls query ans) w (now w) c =
     bind_run (ask_external w query ans c) (\<lambda>(external, query, ans, c'). ret ((external, query, ans), later w, c'))"
  by (simp add: ask_calls_def ask_external_def alone_simps cong: if_cong)

lemma run_finish_calls:
  "bind_run (run_calls (finish_calls sendbuf p asize query ans (progress_of s)) w (now w) (ans_cache s)) (\<lambda>(x, _, c). ret (x, c)) =
     bind_run (finish_answer w sendbuf p asize query ans s) (\<lambda>res. ret (response_of res, res_cache res))"
  by (cases "external_dns_flag s \<and> failure_flag s = 0")
    (simp_all add: finish_calls_def finish_answer_def conclude_def alone_simps run_ask_calls progress_of_def
      response_of_def cong: if_cong)

lemma run_resolv_calls:
  "run_alone (resolv_calls db sendbuf p asize query) w c =
     bind_run (resolv_handle w db c sendbuf p asize query) (\<lambda>res. ret (response_of res, res_cache res))"
proof (cases "misc_QR (misc1 (header query)) = QR_REQ")
  case True
  let ?s = "\<lambda>external. \<lparr>ans_cache = c, ans_buffer = replicate ANCOUNT_MAX zero_rr, ans_cnt = 0,
    external_dns_flag = external, failure_flag = RCODE_NO_ERROR\<rparr>"
  have s: "\<lparr>pr_buffer = replicate ANCOUNT_MAX zero_rr, pr_cnt = 0, pr_external = external,
    pr_failure = RCODE_NO_ERROR\<rparr> = progress_of (?s external)" for external by (simp add: progress_of_def)
  note run = resolv_calls_def resolv_handle_def run_alone_def run_bind_calls bind_run_assoc case_prod_unfold
    run_finish_calls [simplified case_prod_unfold]
  show ?thesis
  proof (cases "misc_OPCODE (misc1 (header query)) = OPCODE_QUERY")
    case query: True
    show ?thesis
      using True query run_loop_calls [of db query 0 "unat (qdcount (header query))" "?s False" w]
      by (simp add: run s)
  next
    case False
    show ?thesis
      using True False run_finish_calls [of sendbuf p asize query "initial_answer query" "?s True" w]
      by (simp add: run s)
  qed
qed (simp add: resolv_calls_def resolv_handle_def response_of_def)

lemmas job_simps = run_alone_local run_alone_finally run_resolv_calls udp_reply_def tls_reply_def
  release_request_def release_query_def response_of_def Let_def bind_run_assoc case_prod_unfold
  if_distrib [where f = "\<lambda>p. run_alone p w c" for w c] if_distrib [where f = "\<lambda>r. bind_run r f" for f]

section \<open>The trees are the jobs\<close>

text \<open>The trees of calls that the interleavings are built from are the jobs of the servers: a tree
  whose calls are made one after the other, without another thread, gives on every input, every cache and
  every outside world the result of the job, its output and the cache it leaves, its faults and its hangs included.\<close>

lemma calls_are_the_jobs:
  "run_alone (udp_calls db args) w c =
     bind_run (udp_resolv_and_respond w db c args) (\<lambda>(r, out, c). ret ((r, out), c)) \<and>
   run_alone (tls_calls db ssl) w c =
     bind_run (ssl_resolv_and_respond w db c ssl) (\<lambda>(r, out, c). ret ((r, out), c))"
  by (simp add: udp_calls_def udp_resolv_and_respond_def tls_calls_def ssl_resolv_and_respond_def job_simps cong: if_cong)

end
