(* ===== verification/Service.thy ===== *)
theory Service
  imports Server_Props
begin

text \<open>
  The service as a whole: a worker that executes the jobs of UDP queries one after the other, with the
  refresh of the cache in between, refines an abstract server whose state is the list of cached
  records. The locale \<open>simulation\<close> lifts a simulation of single steps to sequences; it is interpreted
  on the job of \<^verbatim>\<open>socket/server.c\<close> and the refresh of \<^verbatim>\<open>storage/cache.c\<close>.
\<close>

section \<open>Simulation of sequences\<close>

fun run_steps :: "('c \<Rightarrow> 'e \<Rightarrow> ('o list \<times> 'c) run) \<Rightarrow> 'c \<Rightarrow> 'e list \<Rightarrow> ('o list \<times> 'c) run" where
  "run_steps step c [] = ret ([], c)"
| "run_steps step c (e # evs) =
     bind_run (step c e) (\<lambda>(out, c1). bind_run (run_steps step c1 evs) (\<lambda>(outs, c2). ret (out @ outs, c2)))"

fun spec_steps :: "('a \<Rightarrow> 'e \<Rightarrow> 'o list \<times> 'a) \<Rightarrow> 'a \<Rightarrow> 'e list \<Rightarrow> 'o list \<times> 'a" where
  "spec_steps spec a [] = ([], a)"
| "spec_steps spec a (e # evs) =
     (fst (spec a e) @ fst (spec_steps spec (snd (spec a e)) evs), snd (spec_steps spec (snd (spec a e)) evs))"

fun all_ok :: "('a \<Rightarrow> 'e \<Rightarrow> 'o list \<times> 'a) \<Rightarrow> ('a \<Rightarrow> 'e \<Rightarrow> bool) \<Rightarrow> 'a \<Rightarrow> 'e list \<Rightarrow> bool" where
  "all_ok spec ok a [] \<longleftrightarrow> True"
| "all_ok spec ok a (e # evs) \<longleftrightarrow> ok a e \<and> all_ok spec ok (snd (spec a e)) evs"

locale simulation =
  fixes step :: "'c \<Rightarrow> 'e \<Rightarrow> ('o list \<times> 'c) run"
    and spec :: "'a \<Rightarrow> 'e \<Rightarrow> 'o list \<times> 'a"
    and rep :: "'c \<Rightarrow> 'a \<Rightarrow> bool"
    and ok :: "'a \<Rightarrow> 'e \<Rightarrow> bool"
  assumes step_law: "rep c a \<Longrightarrow> ok a e \<Longrightarrow> \<exists>c'. step c e = ret (fst (spec a e), c') \<and> rep c' (snd (spec a e))"
begin

lemma run_refines:
  "rep c a \<Longrightarrow> all_ok spec ok a evs \<Longrightarrow>
     \<exists>c'. run_steps step c evs = ret (fst (spec_steps spec a evs), c') \<and> rep c' (snd (spec_steps spec a evs))"
proof (induction evs arbitrary: c a)
  case (Cons e evs)
  from step_law [OF Cons.prems(1), of e] Cons.prems(2) obtain c1 where
    c1: "step c e = ret (fst (spec a e), c1)" "rep c1 (snd (spec a e))" by auto
  from Cons.IH [OF c1(2)] Cons.prems(2) c1(1) show ?case by auto
qed simp

end

section \<open>The abstract server\<close>

text \<open>A query with its sender, its question and labels, and what the external resolver would reply to it.\<close>

record request =
  rq_world :: world
  rq_from :: "byte list"
  rq_query :: message
  rq_question :: message_question
  rq_labels :: "label list"
  rq_reply :: "message option"

datatype service_event = Query request | Tick int

text \<open>
  What the reply of the external resolver turns into: it is relayed and its answers are cached, but an absent
  reply or one with a foreign identifier gives an empty response.
\<close>

definition upstream_answer :: "net \<Rightarrow> message \<Rightarrow> message option \<Rightarrow> message \<times> resource_record list" where
  "upstream_answer nt query reply =
     (case reply of
        None \<Rightarrow> (local_response query [], [])
      | Some m \<Rightarrow>
          if msg_id (header m) = new_id nt then (set_id (msg_id (header query)) m, section_items (answer m))
          else (empty_response (header m) query, []))"

text \<open>Answer from the cache or the database, else with what the external resolver says.\<close>

definition serve_one :: "database \<Rightarrow> request \<Rightarrow> entry list \<Rightarrow> message \<times> entry list" where
  "serve_one db r es =
     (let w = rq_world r; query = rq_query r; q = rq_question r; ls = rq_labels r in
      case local_records db es ls (qtype q) (qclass q) of
        Some rrs \<Rightarrow> (local_response query rrs, cache_after (now w) es ls (qtype q) (qclass q))
      | None \<Rightarrow>
          let (m, rrs) = upstream_answer (net w) query (rq_reply r) in (m, fold (spec_put (later w)) rrs es))"

definition spec_event ::
  "database \<times> entry list \<Rightarrow> service_event \<Rightarrow> (byte list \<times> byte list) list \<times> database \<times> entry list"
where
  "spec_event s e = (case e of
       Query r \<Rightarrow> ([(rq_from r, enc_message (fst (serve_one (fst s) r (snd s))))],
                   fst s, snd (serve_one (fst s) r (snd s)))
     | Tick t \<Rightarrow> ([], fst s, spec_refresh t (snd s)))"

text \<open>The reply is what the network delivers for the request on the wire.\<close>

definition reply_ok :: "net \<Rightarrow> message \<Rightarrow> message option \<Rightarrow> bool" where
  "reply_ok nt query reply \<longleftrightarrow>
     (\<forall>sent. edns_version (set_id (new_id nt) query) sent \<longrightarrow>
        exchange nt (enc_message sent) = map_option enc_message reply) \<and>
     (case reply of None \<Rightarrow> True
      | Some m \<Rightarrow> plain_message m \<and> length (enc_message m) \<le> CLIENT_BUFFER_SIZE)"

definition event_ok :: "database \<times> entry list \<Rightarrow> service_event \<Rightarrow> bool" where
  "event_ok s e = (case e of Tick t \<Rightarrow> True
     | Query r \<Rightarrow> fresh_alloc (alloc (rq_world r)) \<and>
         standard_query (rq_query r) (rq_question r) (rq_labels r) \<and>
         known_addresses (fst s) (rq_labels r) (qtype (rq_question r)) \<and>
         plain_message (rq_query r) \<and> forwardable (rq_world r) (rq_query r) \<and>
         reply_ok (net (rq_world r)) (rq_query r) (rq_reply r) \<and>
         length (spec_find (enc_name (rq_labels r)) (qtype (rq_question r)) (qclass (rq_question r)) (snd s)) \<le> ANCOUNT_MAX \<and>
         length (enc_message (fst (serve_one (fst s) r (snd s)))) \<le> UDP_BUFFER_SIZE)"

section \<open>The steps of the code\<close>

definition service_step ::
  "database \<times> rr_cache \<Rightarrow> service_event \<Rightarrow> ((byte list \<times> byte list) list \<times> database \<times> rr_cache) run"
where
  "service_step s e = (case e of
       Query r \<Rightarrow>
         bind_run (udp_resolv_and_respond (rq_world r) (fst s) (snd s)
           (udp_args (rq_from r) (enc_message (rq_query r)))) (\<lambda>(_, out, c). ret (out, fst s, c))
     | Tick t \<Rightarrow> bind_run (refresh_cache (snd s) t) (\<lambda>c. ret ([], fst s, c)))"

definition service_rep :: "database \<times> rr_cache \<Rightarrow> database \<times> entry list \<Rightarrow> bool" where
  "service_rep s a \<longleftrightarrow> fst s = fst a \<and> db_valid (fst s) \<and> cache_rep (snd s) (snd a)"

lemma empty_response_initial:
  "empty_response (header (initial_answer query)) query = local_response query []"
  by (simp add: empty_response_def local_response_def initial_answer_def zero_message_def zero_header_def)

text \<open>A query for which the external resolver is asked.\<close>

lemma udp_external_ok:
  assumes "event_ok (db, es) (Query r)" and "cache_rep c es" and "db_valid db"
    and "local_records db es (rq_labels r) (qtype (rq_question r)) (qclass (rq_question r)) = None"
  shows "\<exists>c'. cache_rep c' (snd (serve_one db r es)) \<and>
    udp_resolv_and_respond (rq_world r) db c (udp_args (rq_from r) (enc_message (rq_query r))) =
      ret (1, [(rq_from r, enc_message (fst (serve_one db r es)))], c')"
proof -
  let ?w = "rq_world r" and ?q = "rq_question r" and ?ls = "rq_labels r" and ?query = "rq_query r"
  let ?z = "replicate UDP_BUFFER_SIZE 0 :: mem" and ?old = "msg_id (header (rq_query r))"
  from assms(1) have ok: "fresh_alloc (alloc ?w)" "standard_query ?query ?q ?ls" "known_addresses db ?ls (qtype ?q)"
    "plain_message ?query" "forwardable ?w ?query" "reply_ok (net ?w) ?query (rq_reply r)"
    "length (enc_message (fst (serve_one db r es))) \<le> UDP_BUFFER_SIZE"
    by (simp_all add: event_ok_def)
  have len: "length (enc_message ?query) \<le> UDP_BUFFER_SIZE" "length ?z < 2 ^ 31"
    using ok(5) by (simp_all add: forwardable_def)
  note handle = ok(1) assms(2,3) ok(2,3) assms(4) ok(5) len(2)
  have "\<exists>sent c'. edns_version (set_id (new_id (net ?w)) ?query) sent \<and> cache_rep c' (snd (serve_one db r es)) \<and>
      resolv_handle ?w db c ?z 0 0 ?query =
        ret (answered ?z 0 (enc_message (fst (serve_one db r es))) (set_id ?old sent) c')"
  proof (cases "\<exists>m. rq_reply r = Some m \<and> msg_id (header m) = new_id (net ?w)")
    case True
    then obtain m where m: "rq_reply r = Some m" "msg_id (header m) = new_id (net ?w)" by blast
    then have one: "serve_one db r es = (set_id ?old m, fold (spec_put (later ?w)) (section_items (answer m)) es)"
      using assms(4) by (simp add: serve_one_def upstream_answer_def Let_def)
    have plain: "plain_message m" "length (enc_message m) \<le> CLIENT_BUFFER_SIZE" using ok(6) m(1) by (simp_all add: reply_ok_def)
    then have "fits ?z 0 (length (enc_message m))" by (simp add: fits_def)
    with resolv_reply [OF handle, of 0 0] ok(6) m plain one show ?thesis
      by (fastforce simp: reply_ok_def)
  next
    case False
    then have one: "serve_one db r es =
        (case rq_reply r of None \<Rightarrow> local_response ?query [] | Some m \<Rightarrow> empty_response (header m) ?query, es)"
      using assms(4) by (auto simp: serve_one_def upstream_answer_def Let_def split: option.splits)
    then have "length (enc_message (local_response ?query [])) \<le> UDP_BUFFER_SIZE"
      using ok(7) by (auto simp: enc_empty_response split: option.splits)
    then have fit: "fits ?z 0 (length (enc_message (local_response ?query [])))" by (simp add: fits_def)
    from resolv_failed [OF handle this, of 0] obtain sent where
      sent: "edns_version (set_id (new_id (net ?w)) ?query) sent" and
      none: "exchange (net ?w) (enc_message sent) = None \<Longrightarrow> resolv_handle ?w db c ?z 0 0 ?query =
        ret (answered ?z 0 (enc_message (local_response ?query [])) (set_id ?old sent) c)" and
      some: "\<And>m. plain_message m \<and> msg_id (header m) \<noteq> new_id (net ?w) \<and> length (enc_message m) \<le> CLIENT_BUFFER_SIZE \<and>
         exchange (net ?w) (enc_message sent) = Some (enc_message m) \<Longrightarrow> resolv_handle ?w db c ?z 0 0 ?query =
        ret (answered ?z 0 (enc_message (empty_response (header m) ?query)) (set_id ?old sent) c)"
      unfolding empty_response_initial by metis
    have "exchange (net ?w) (enc_message sent) = map_option enc_message (rq_reply r)"
      using ok(6) sent by (simp add: reply_ok_def)
    then have "resolv_handle ?w db c ?z 0 0 ?query =
        ret (answered ?z 0 (enc_message (fst (serve_one db r es))) (set_id ?old sent) c)"
      using none some False ok(6) one by (cases "rq_reply r") (simp_all add: reply_ok_def)
    with sent assms(2) one show ?thesis by auto
  qed
  then obtain sent c' where s: "edns_version (set_id (new_id (net ?w)) ?query) sent" "cache_rep c' (snd (serve_one db r es))"
    "resolv_handle ?w db c ?z 0 0 ?query =
       ret (answered ?z 0 (enc_message (fst (serve_one db r es))) (set_id ?old sent) c')" by blast
  have "wf_message (set_id ?old sent)" using s(1) by (simp add: wf_message_set_id edns_version_def)
  from udp_sends [OF ok(4) len(1) s(3) ok(7) this] s(2) show ?thesis by blast
qed

lemma udp_query_ok:
  assumes "event_ok (db, es) (Query r)" and "cache_rep c es" and "db_valid db"
  shows "\<exists>c'. cache_rep c' (snd (serve_one db r es)) \<and>
    udp_resolv_and_respond (rq_world r) db c (udp_args (rq_from r) (enc_message (rq_query r))) =
      ret (1, [(rq_from r, enc_message (fst (serve_one db r es)))], c')"
proof (cases "local_records db es (rq_labels r) (qtype (rq_question r)) (qclass (rq_question r))")
  case None
  with assms show ?thesis by (rule udp_external_ok)
next
  case (Some rrs)
  then have one: "serve_one db r es = (local_response (rq_query r) rrs,
      cache_after (now (rq_world r)) es (rq_labels r) (qtype (rq_question r)) (qclass (rq_question r)))"
    by (simp add: serve_one_def Let_def)
  have "length (enc_message (rq_query r)) \<le> UDP_BUFFER_SIZE"
    using assms(1) by (simp add: event_ok_def forwardable_def)
  with one udp_local_ok [OF _ assms(2,3) _ _ _ Some] assms(1) show ?thesis by (simp add: event_ok_def)
qed

interpretation service: simulation service_step spec_event service_rep event_ok
proof
  fix s a e assume rep: "service_rep s a" and ok: "event_ok a e"
  obtain db c where s: "s = (db, c)" by (cases s)
  obtain es where a: "a = (db, es)" using rep s by (cases a) (simp add: service_rep_def)
  have c: "cache_rep c es" "db_valid db" using rep s a by (simp_all add: service_rep_def)
  show "\<exists>s'. service_step s e = ret (fst (spec_event a e), s') \<and> service_rep s' (snd (spec_event a e))"
  proof (cases e)
    case (Query r)
    with udp_query_ok [of db es r c] ok a c s show ?thesis
      by (auto simp: service_step_def spec_event_def service_rep_def)
  next
    case (Tick t)
    with rc.refresh_law [OF c(1), of t] s a c(2) show ?thesis
      by (auto simp: service_step_def spec_event_def service_rep_def)
  qed
qed

section \<open>Properties\<close>

text \<open>C4: the service refines its specification. For every sequence of well-formed UDP queries and cache
  refreshes, executed one after the other, the datagrams sent are exactly those of the abstract server,
  in order and to the right senders, no job faults or hangs, and the cache ends up holding the abstract list.\<close>

theorem service_refines:
  assumes "db_valid db" and "cache_rep c es" and "all_ok spec_event event_ok (db, es) evs"
  shows "\<exists>c'. run_steps service_step (db, c) evs = ret (fst (spec_steps spec_event (db, es) evs), db, c') \<and>
    cache_rep c' (snd (snd (spec_steps spec_event (db, es) evs)))"
proof -
  have "service_rep (db, c) (db, es)" using assms(1,2) by (simp add: service_rep_def)
  from service.run_refines [OF this assms(3)] obtain s where
    s: "run_steps service_step (db, c) evs = ret (fst (spec_steps spec_event (db, es) evs), s)"
    "service_rep s (snd (spec_steps spec_event (db, es) evs))" by blast
  have "fst (snd (spec_steps spec_event a es)) = fst a" for a es
    by (induction spec_event a es rule: spec_steps.induct) (simp_all add: spec_event_def split: service_event.splits)
  with s show ?thesis by (cases s) (auto simp: service_rep_def)
qed

definition sample_request :: request where
  "sample_request = \<lparr>rq_world = sample_world 7, rq_from = [9], rq_query = sample_query, rq_question = sample_q,
     rq_labels = [[97]], rq_reply = Some sample_message\<rparr>"

lemma sample_events:
  "serve_one sample_db sample_request [] = (set_id 5 sample_message, [(sample_rr, 161)])"
  "spec_refresh 110 [(sample_rr, 161)] = [(sample_rr\<lparr>ttl := 51\<rparr>, 161)]"
  "fst (serve_one sample_db sample_request [(sample_rr\<lparr>ttl := 51\<rparr>, 161)]) = local_response sample_query [sample_rr\<lparr>ttl := 51\<rparr>]"
proof -
  show "serve_one sample_db sample_request [] = (set_id 5 sample_message, [(sample_rr, 161)])"
    by (simp add: serve_one_def upstream_answer_def sample_request_def local_none_sample sample_world_def sample_net_def sample_query_ok)
      (simp add: sample_message_def section_items_def map_filter_simps spec_put_def sample_rr_def)
  show "spec_refresh 110 [(sample_rr, 161)] = [(sample_rr\<lparr>ttl := 51\<rparr>, 161)]"
    by (simp add: spec_refresh_def age_entry_def)
  show "fst (serve_one sample_db sample_request [(sample_rr\<lparr>ttl := 51\<rparr>, 161)]) = local_response sample_query [sample_rr\<lparr>ttl := 51\<rparr>]"
    by (simp add: serve_one_def sample_request_def local_records_def spec_find_def matches_def sample_rr_def enc_name_sample)
qed

lemma sample_request_ok:
  assumes "length (spec_find [1, 97, 0] 1 1 es) \<le> ANCOUNT_MAX"
    and "length (enc_message (fst (serve_one sample_db sample_request es))) \<le> UDP_BUFFER_SIZE"
  shows "event_ok (sample_db, es) (Query sample_request)"
proof -
  have "reply_ok (net (sample_world 7)) sample_query (Some sample_message)"
    using plain_sample_message length_sample
    by (simp add: reply_ok_def sample_world_def sample_net_def)
  then show ?thesis
    using assms fresh_sample [of 7] standard_sample sample_db_ok(3) plain_sample_query forwardable_sample [of 7]
    by (simp add: event_ok_def) (simp add: sample_request_def enc_name_sample)
qed

theorem service_refines_witness:
  "\<exists>c c'. cache_rep c [] \<and>
     run_steps service_step (sample_db, c) [Query sample_request, Tick 110, Query sample_request] =
       ret ([([9], enc_message (set_id 5 sample_message)),
             ([9], enc_message (local_response sample_query [sample_rr\<lparr>ttl := 51\<rparr>]))], sample_db, c')"
proof -
  let ?evs = "[Query sample_request, Tick 110, Query sample_request]"
  obtain c where c: "cache_rep c []" using init_cache_ok [of 0 100] by blast
  have adr: "rq_from sample_request = [9]" by (simp add: sample_request_def)
  have len: "length (enc_message (local_response sample_query [sample_rr\<lparr>ttl := 51\<rparr>])) = 36"
    by (simp add: local_response_def enc_message_def enc_section_def section_items_def map_filter_simps
        enc_question_def enc_rr_def sample_query_def sample_rr_def)
  have "event_ok (sample_db, []) (Query sample_request)"
    by (rule sample_request_ok) (simp_all add: sample_events spec_find_def length_enc_set_id length_sample)
  moreover have "event_ok (sample_db, [(sample_rr\<lparr>ttl := 51\<rparr>, 161)]) (Query sample_request)"
    by (rule sample_request_ok) (simp_all add: sample_events spec_find_def len)
  ultimately have "all_ok spec_event event_ok (sample_db, []) ?evs"
    by (simp add: spec_event_def sample_events) (simp add: event_ok_def)
  from service_refines [OF sample_db_ok(1) c this] c show ?thesis
    by (auto simp: spec_event_def sample_events adr)
qed

end
