(* ===== verification/Interleaving.thy ===== *)
theory Interleaving
  imports Job_Calls Service
begin

text \<open>
  Any number of UDP and TLS jobs and the refresh thread on the shared cache, in every interleaving of their
  calls. The jobs are the trees of the theory \<open>Job_Calls\<close>, a schedule says whose turn it is, and an abstract
  machine of tasks that look, ask and reply gives the same responses. The theory interprets the locale
  \<open>simulation\<close> a second time.
\<close>

section \<open>The calls of a standard query\<close>

definition begin_progress :: progress where
  "begin_progress = \<lparr>pr_buffer = replicate ANCOUNT_MAX zero_rr, pr_cnt = 0, pr_external = False,
     pr_failure = RCODE_NO_ERROR\<rparr>"

definition written :: "mem \<Rightarrow> ptr \<Rightarrow> byte list \<Rightarrow> message \<Rightarrow> response" where
  "written sendbuf p bs query = \<lparr>rsp_code = 1, rsp_buf = overlay sendbuf p bs, rsp_size = of_nat (length bs),
     rsp_query = query, rsp_dangling = False\<rparr>"

lemma progress_start: "progress_of (start c) = begin_progress"
  by (simp add: progress_of_def begin_progress_def)

text \<open>A standard query first searches the cache for its name.\<close>

lemma resolv_calls_find:
  assumes "standard_query query q ls"
  shows "resolv_calls db sendbuf p asize query =
    Find_rr (replicate ANCOUNT_MAX zero_rr) (enc_name ls) (qtype q) (qclass q) (\<lambda>r.
      bind_calls (found_calls db q begin_progress r) (\<lambda>(_, s).
        finish_calls sendbuf p asize query (initial_answer query) s))"
proof -
  have q: "db_name ls" "qname q = Some (enc_name ls)" using assms by (simp_all add: standard_query_def)
  then have "answer_calls db q begin_progress =
      Find_rr (replicate ANCOUNT_MAX zero_rr) (enc_name ls) (qtype q) (qclass q) (found_calls db q begin_progress)"
    using domain_len_c_name [OF db_name_c_name [OF q(1)]] print_question_ok [OF q]
    by (simp add: answer_calls_def begin_progress_def)
  then have "loop_calls db query 0 (Suc 0) begin_progress =
      Find_rr (replicate ANCOUNT_MAX zero_rr) (enc_name ls) (qtype q) (qclass q) (\<lambda>r.
        bind_calls (found_calls db q begin_progress r) (\<lambda>(_, s). Ended (ret s)))"
    using assms by (simp add: standard_query_def case_prod_unfold cong: if_cong)
  then show ?thesis using assms
    by (simp add: resolv_calls_def standard_query_def Let_def bind_calls_assoc case_prod_unfold begin_progress_def)
qed

text \<open>Records found in the cache are put back one by one.\<close>

lemma found_calls_hits:
  assumes "hits \<noteq> []"
  shows "found_calls db q s (int (length hits), hits @ rest) =
    bind_calls (put_calls hits) (\<lambda>_. Ended (ret (True, s\<lparr>pr_buffer := hits @ rest, pr_cnt := pr_cnt s + int (length hits)\<rparr>)))"
  using assms by (simp add: found_calls_def first_entries_def)

text \<open>Otherwise no further call is made before the database was searched.\<close>

lemma found_calls_none:
  assumes "cache_rep c es" and "db_valid db" and "standard_query query q ls" and "known_addresses db ls (qtype q)"
    and "spec_find (enc_name ls) (qtype q) (qclass q) es = []"
  shows "case local_records db es ls (qtype q) (qclass q) of
      None \<Rightarrow> found_calls db q begin_progress (0, pr_buffer begin_progress) =
        Ended (ret (False, begin_progress\<lparr>pr_external := True\<rparr>))
    | Some rrs \<Rightarrow> \<exists>rest. found_calls db q begin_progress (0, pr_buffer begin_progress) =
        Ended (ret (True, begin_progress\<lparr>pr_buffer := rrs @ rest, pr_cnt := int (length rrs)\<rparr>))"
proof -
  have q: "db_name ls" "qname q = Some (enc_name ls)" using assms(3) by (simp_all add: standard_query_def)
  let ?w = "undefined :: world"
  define x where "x = bind_run (select_database db q (pr_buffer begin_progress)) (\<lambda>(n_rr_db, buf).
       if n_rr_db \<noteq> 0 then
         bind_run (blocked_loop buf 0 (size_t n_rr_db)) (\<lambda>(buf, blocked).
         ret (True, begin_progress\<lparr>pr_buffer := buf, pr_cnt := (if blocked then 0 else n_rr_db)\<rparr>))
       else ret (False, begin_progress\<lparr>pr_buffer := buf, pr_external := True\<rparr>))"
  have tree: "found_calls db q begin_progress (0, pr_buffer begin_progress) = Ended x"
    by (simp add: found_calls_def x_def bind_calls_local [symmetric] case_prod_unfold if_distrib [where f = Ended] cong: if_cong)
  have "cache_find_rr c (pr_buffer begin_progress) (enc_name ls) (qtype q) (qclass q) = ret (0, pr_buffer begin_progress)"
    using cache_find_ok [OF assms(1) db_name_c_name [OF q(1)], of "qtype q" "qclass q"] assms(5) by simp
  then have "bind_run x (\<lambda>y. ret (y, now ?w, c)) =
      bind_run (answer_question ?w db q (start c)) (\<lambda>(go, s'). ret ((go, progress_of s'), now ?w, ans_cache s'))"
    using run_answer_calls [of db q "start c" ?w] domain_len_c_name [OF db_name_c_name [OF q(1)]]
      print_question_ok [OF q] q(2)
    by (simp add: progress_start answer_calls_def tree)
  with answer_from_database [of "start c" es db ls q ?w] assms q show ?thesis
    unfolding tree by (auto simp: progress_of_def begin_progress_def bind_run_eq_ret split: option.splits)
qed

text \<open>Ending the call with local records, with a reply, or with an empty response.\<close>

lemma finish_calls_local:
  assumes "standard_query query q ls" and "\<forall>x \<in> set rrs. wf_rr x" and "length rrs \<le> ANCOUNT_MAX"
    and "fits sendbuf p (length (enc_message (local_response query rrs)))" and "length sendbuf < 2 ^ 31"
  shows "finish_calls sendbuf p asize query (initial_answer query)
      (begin_progress\<lparr>pr_buffer := rrs @ rest, pr_cnt := int (length rrs)\<rparr>) =
    Ended (ret (written sendbuf p (enc_message (local_response query rrs)) query))"
proof -
  define c where "c = (undefined :: rr_cache)"
  define w where "w = (undefined :: world)"
  define s where "s = (start c)\<lparr>ans_buffer := rrs @ rest, ans_cnt := int (length rrs)\<rparr>"
  have s: "begin_progress\<lparr>pr_buffer := rrs @ rest, pr_cnt := int (length rrs)\<rparr> = progress_of s"
    by (simp add: s_def progress_of_def begin_progress_def)
  obtain x where tree: "finish_calls sendbuf p asize query (initial_answer query) (progress_of s) = Ended x"
    by (simp add: finish_calls_def progress_of_def s_def)
  have "length (enc_message (local_response query rrs)) < 2 ^ 31" using assms(4,5) by (simp add: fits_def)
  then have "finish_answer w sendbuf p asize query (initial_answer query) s =
      ret (answered sendbuf p (enc_message (local_response query rrs)) query c)"
    using finish_local [OF standard_query_questions [OF assms(1)] _ assms(2,3) _ _ _ _ assms(4), of s rest w asize] assms(1)
    by (simp add: standard_query_def s_def)
  with run_finish_calls [of sendbuf p asize query "initial_answer query" s w] show ?thesis
    by (simp add: s tree bind_run_assoc bind_run_eq_ret response_of_def written_def)
qed

lemma conclude_reply:
  assumes "wf_message m" and "fits sendbuf p (length (enc_message m))" and "length sendbuf < 2 ^ 31" and "pr_failure s = 0"
  shows "conclude sendbuf p asize query m True s = ret (written sendbuf p (enc_message m) query)"
proof -
  have "length (enc_message m) < 2 ^ 31" using assms(2,3) by (simp add: fits_def)
  with message_to_u8_writes [OF assms(1,2)] free_heap_message_ok [OF assms(1)] assms(4) show ?thesis
    by (simp add: conclude_def written_def)
qed

lemma conclude_empty:
  assumes "wf_section wf_question (question query) (qdcount (header query))" and "qdcount (header query) \<noteq> 0"
    and "fits sendbuf p (length (enc_message (empty_response h query)))" and "length sendbuf < 2 ^ 31"
    and "pr_failure s = 0" and "pr_cnt s = 0"
  shows "conclude sendbuf p asize query (clear_counts (zero_message\<lparr>header := h\<rparr>)) False s =
    ret (written sendbuf p (enc_message (empty_response h query)) query)"
proof -
  let ?m = "empty_response h query"
  have wf: "wf_message ?m"
    using assms(1) by (simp add: wf_message_def empty_response_def zero_message_def wf_section_def)
  have "length (enc_message ?m) < 2 ^ 31" using assms(3,4) by (simp add: fits_def)
  moreover have "paste_questions query (clear_counts (zero_message\<lparr>header := h\<rparr>)) = ret (?m, False)"
    using paste_questions_ok [OF assms(1,2)] by (simp add: clear_counts_def empty_response_def)
  moreover have "fill_answer (pr_buffer s) 0 (clear_counts (zero_message\<lparr>header := h\<rparr>)) =
      ret (clear_counts (zero_message\<lparr>header := h\<rparr>))"
    by (simp add: fill_answer_def clear_counts_def)
  ultimately show ?thesis
    using message_to_u8_writes [OF wf assms(3)] free_heap_message_ok [OF wf] assms(5,6)
    by (simp add: conclude_def written_def)
qed

text \<open>The exchange with the external resolver, from the call of \<^verbatim>\<open>send_question\<close> on.\<close>

abbreviation asking :: "mem \<Rightarrow> ptr \<Rightarrow> message \<Rightarrow> response calls" where
  "asking sendbuf p query \<equiv>
     finish_calls sendbuf p 0 query (initial_answer query) (begin_progress\<lparr>pr_external := True\<rparr>)"

definition asked :: "mem \<Rightarrow> ptr \<Rightarrow> int \<times> message \<times> message \<Rightarrow> response calls" where
  "asked sendbuf p = (\<lambda>(r, query, ans).
     bind_calls
       (if r < 0 then Ended (ret (False, query, clear_counts ans))
        else
          bind_calls (Ended (entries (answer ans) 0 (unat (ancount (header ans))))) (\<lambda>rrs.
          bind_calls (put_calls rrs) (\<lambda>_. Ended (ret (True, query, ans))))) (\<lambda>(external, query, ans).
     Ended (conclude sendbuf p 0 query ans external (begin_progress\<lparr>pr_external := True\<rparr>))))"

lemma asking_sends: "asking sendbuf p query = Send_question query (initial_answer query) (asked sendbuf p)"
  using initial_answer_empty(2) [of query]
  by (simp add: finish_calls_def ask_calls_def asked_def case_prod_unfold begin_progress_def)

lemma asked_failed:
  assumes "standard_query query q ls" and "edns_version (set_id i query) sent"
    and "fits sendbuf p (length (enc_message (empty_response h query)))" and "length sendbuf < 2 ^ 31"
  shows "asked sendbuf p (-1, set_id k sent, zero_message\<lparr>header := h\<rparr>) =
    Ended (ret (written sendbuf p (enc_message (empty_response h query)) (set_id k sent)))"
proof -
  note same = edns_version_questions [OF assms(2), of k]
  have eq: "empty_response h (set_id k sent) = empty_response h query" by (simp add: empty_response_def same)
  show ?thesis
    using assms standard_query_questions [OF assms(1)] conclude_empty [of "set_id k sent" sendbuf p h]
    by (simp add: asked_def same eq begin_progress_def standard_query_def)
qed

lemma asked_reply:
  assumes "plain_message m" and "fits sendbuf p (length (enc_message m))" and "length sendbuf < 2 ^ 31"
  shows "asked sendbuf p (1, query, set_id k m) =
    bind_calls (put_calls (section_items (answer m))) (\<lambda>_. Ended (ret (written sendbuf p (enc_message (set_id k m)) query)))"
proof -
  have "wf_section plain_rr (answer m) (ancount (header m))" using assms(1) by (simp add: plain_message_def)
  from section_entries [OF this]
  have "entries (answer (set_id k m)) 0 (unat (ancount (header (set_id k m)))) = ret (section_items (answer m))"
    by (simp add: set_id_def)
  moreover have "conclude sendbuf p 0 query (set_id k m) True (begin_progress\<lparr>pr_external := True\<rparr>) =
      ret (written sendbuf p (enc_message (set_id k m)) query)"
    using assms by (intro conclude_reply) (simp_all add: wf_message_set_id plain_message_wf length_enc_set_id begin_progress_def)
  ultimately show ?thesis by (simp add: asked_def bind_calls_assoc)
qed

lemma asking_ok:
  assumes "standard_query query q ls" and "forwardable w query" and "reply_ok (net w) query reply"
    and "upstream_answer (net w) query reply = (m, rrs)"
    and "fits sendbuf p (length (enc_message m))" and "length sendbuf < 2 ^ 31"
  shows "\<exists>r query'. send_question (net w) query (initial_answer query) = ret r \<and> wf_message query' \<and>
    (\<forall>rr \<in> set rrs. wf_rr rr) \<and>
    asked sendbuf p r = bind_calls (put_calls rrs) (\<lambda>_. Ended (ret (written sendbuf p (enc_message m) query')))"
proof -
  let ?old = "msg_id (header query)"
  obtain h where h: "initial_answer query = zero_message\<lparr>header := h\<rparr>" using initial_answer_empty(1) by blast
  from assms(2) have pre: "wf_message query" "arcount (header query) + 1 \<noteq> 0" "socket_ok (net w)"
    "option_ok (net w)" "length (enc_message query) + 11 \<le> CLIENT_BUFFER_SIZE"
    by (simp_all add: forwardable_def)
  from send_question_ok [OF pre, of "initial_answer query" h] obtain sent
    where sent: "edns_version (set_id (new_id (net w)) query) sent"
      and none: "exchange (net w) (enc_message sent) = None \<longrightarrow>
        send_question (net w) query (initial_answer query) = ret (-1, set_id ?old sent, initial_answer query)"
      and some: "\<forall>m. plain_message m \<and> length (enc_message m) \<le> CLIENT_BUFFER_SIZE \<and>
        exchange (net w) (enc_message sent) = Some (enc_message m) \<longrightarrow>
        send_question (net w) query (initial_answer query) =
         (if msg_id (header m) = new_id (net w) then ret (1, set_id ?old sent, set_id ?old m)
          else ret (-1, set_id ?old sent,
                    m\<lparr>question := None, answer := None, authority := None, addition := None\<rparr>))"
    unfolding h by (elim exE conjE)
  have wf: "wf_message (set_id ?old sent)" using sent by (simp add: wf_message_set_id edns_version_def)
  have ex: "exchange (net w) (enc_message sent) = map_option enc_message reply" using assms(3) sent by (simp add: reply_ok_def)
  show ?thesis
  proof (cases reply)
    case None
    then have m: "m = empty_response h query" "rrs = []"
      using assms(4) empty_response_initial [of query] by (simp_all add: upstream_answer_def h)
    have "send_question (net w) query (initial_answer query) = ret (-1, set_id ?old sent, zero_message\<lparr>header := h\<rparr>)"
      using none ex None h by simp
    with asked_failed [OF assms(1) sent _ assms(6)] assms(5) wf m show ?thesis by auto
  next
    case (Some m')
    then have m': "plain_message m'" "send_question (net w) query (initial_answer query) =
        (if msg_id (header m') = new_id (net w) then ret (1, set_id ?old sent, set_id ?old m')
         else ret (-1, set_id ?old sent,
                   m'\<lparr>question := None, answer := None, authority := None, addition := None\<rparr>))"
      using some ex assms(3) by (simp_all add: reply_ok_def)
    have "wf_section plain_rr (answer m') (ancount (header m'))" using m'(1) by (simp add: plain_message_def)
    then have wfs: "\<forall>rr \<in> set (section_items (answer m')). wf_rr rr" using section_entries by (fastforce simp: plain_rr_def)
    have z: "m'\<lparr>question := None, answer := None, authority := None, addition := None\<rparr> = zero_message\<lparr>header := header m'\<rparr>"
      by (simp add: zero_message_def)
    show ?thesis
      using assms(4,5) Some m'(2) wf wfs asked_reply [OF m'(1) _ assms(6), of p] asked_failed [OF assms(1) sent _ assms(6), of p]
      by (auto simp: upstream_answer_def z length_enc_set_id split: if_splits)
  qed
qed

section \<open>Sending the response\<close>

text \<open>A request as it reaches a job: the arguments for a datagram, or a connection and its session.\<close>

datatype dns_request = Udp_request resolv_args | Tls_request int tls_session

datatype delivery = Sent_to "byte list" "byte list" | Written_on int "byte list"

fun send_buffer :: "dns_request \<Rightarrow> mem \<times> ptr" where
  "send_buffer (Udp_request args) = (replicate UDP_BUFFER_SIZE 0, 0)"
| "send_buffer (Tls_request fd ssl) = (replicate TLS_BUFFER_SIZE 0, 2)"

fun send_response :: "dns_request \<Rightarrow> response \<Rightarrow> delivery list run" where
  "send_response (Udp_request args) rsp =
     bind_run (udp_reply args rsp) (\<lambda>(_, out). ret (map (\<lambda>(addr, bs). Sent_to addr bs) out))"
| "send_response (Tls_request fd ssl) rsp =
     bind_run (tls_reply ssl rsp) (\<lambda>(_, out). ret (map (Written_on fd) out))"

fun job_calls :: "database \<Rightarrow> dns_request \<Rightarrow> delivery list calls" where
  "job_calls db (Udp_request args) =
     bind_calls (udp_calls db args) (\<lambda>(_, out). Ended (ret (map (\<lambda>(addr, bs). Sent_to addr bs) out)))"
| "job_calls db (Tls_request fd ssl) =
     bind_calls (tls_calls db ssl) (\<lambda>(_, out). Ended (ret (map (Written_on fd) out)))"

text \<open>What goes out for a message, and whether it fits into the buffer it is written to.\<close>

fun deliver :: "dns_request \<Rightarrow> message \<Rightarrow> delivery" where
  "deliver (Udp_request args) m = Sent_to (cliaddr args) (enc_message m)"
| "deliver (Tls_request fd ssl) m = Written_on fd (be16 (of_nat (length (enc_message m))) @ enc_message m)"

fun has_room :: "dns_request \<Rightarrow> message \<Rightarrow> bool" where
  "has_room (Udp_request args) m \<longleftrightarrow> length (enc_message m) \<le> UDP_BUFFER_SIZE"
| "has_room (Tls_request fd ssl) m \<longleftrightarrow> length (enc_message m) + 2 \<le> TLS_BUFFER_SIZE"

text \<open>The request carries the query.\<close>

fun carries :: "dns_request \<Rightarrow> message \<Rightarrow> bool" where
  "carries (Udp_request args) query \<longleftrightarrow>
     args = udp_args (cliaddr args) (enc_message query) \<and> length (enc_message query) \<le> UDP_BUFFER_SIZE"
| "carries (Tls_request fd ssl) query \<longleftrightarrow> tls_request ssl (enc_message query)"

lemma has_room_fits:
  assumes "has_room req m" and "send_buffer req = (sendbuf, p)"
  shows "fits sendbuf p (length (enc_message m))" "length sendbuf < 2 ^ 31"
  using assms by (cases req; auto simp: fits_def)+

lemma send_response_ok:
  assumes "has_room req m" and "send_buffer req = (sendbuf, p)" and "wf_message query'" and "carries req query"
  shows "send_response req (written sendbuf p (enc_message m) query') = ret [deliver req m]"
proof (cases req)
  case (Udp_request args)
  let ?bs = "enc_message m"
  have len: "length ?bs \<le> UDP_BUFFER_SIZE" using assms(1) Udp_request by simp
  then have "unat (of_nat (length ?bs) :: u32) = length ?bs" by (simp add: unat_of_nat)
  moreover have "fits (replicate UDP_BUFFER_SIZE 0) 0 (length ?bs)" using len by (simp add: fits_def)
  then have "rd_bytes (overlay (replicate UDP_BUFFER_SIZE 0) 0 ?bs) 0 (length ?bs) = ret ?bs"
    using take_overlay_all [OF len] len by (simp add: rd_bytes_take)
  ultimately show ?thesis
    using assms(2) Udp_request free_heap_message_ok [OF assms(3)]
    by (simp add: udp_reply_def written_def release_request_def)
next
  case (Tls_request fd ssl)
  let ?bs = "enc_message m"
  have len: "length ?bs + 2 \<le> TLS_BUFFER_SIZE" using assms(1) Tls_request by simp
  then have "sint (of_nat (length ?bs) :: u32) = int (length ?bs)" by (simp add: sint_u32_of_nat)
  moreover have "\<not> ssl_write ssl < 0" using assms(4) Tls_request by (simp add: tls_request_def)
  ultimately show ?thesis
    using assms(2) Tls_request free_heap_message_ok [OF assms(3)] tls_frame_ok [OF len]
    by (auto simp: tls_reply_def written_def release_request_def)
qed

text \<open>Reading and parsing the request makes no call.\<close>

lemma job_calls_parsed:
  assumes "carries req query" and "plain_message query" and "send_buffer req = (sendbuf, p)"
  shows "job_calls db req =
    bind_calls (resolv_calls db sendbuf p 0 query) (\<lambda>rsp. Ended (send_response req rsp))"
proof (cases req)
  case (Udp_request args)
  let ?e = "enc_message query"
  have args: "rcvbuffer args = Some (?e @ replicate (UDP_BUFFER_SIZE - length ?e) 0)" "nrecv args = int (length ?e)"
    using assms(1) Udp_request by (metis carries.simps(1) udp_args_def resolv_args.select_convs)+
  have "length ?e \<le> UDP_BUFFER_SIZE" using assms(1) Udp_request by simp
  from udp_parsed [OF assms(2) this] show ?thesis
    using assms(3) Udp_request
    by (simp add: udp_calls_def args bind_calls_assoc bind_calls_local case_prod_unfold)
next
  case (Tls_request fd ssl)
  let ?e = "enc_message query"
  have req: "tls_request ssl ?e" using assms(1) Tls_request by simp
  from tls_request_read [OF req] obtain rcv where rcv: "0 \<le> rcv"
    "tls_read_loop (ssl_reads ssl) 0 0 (replicate TLS_BUFFER_SIZE 0) 0 (of_nat (length ?e)) =
      ret (rcv, overlay (replicate TLS_BUFFER_SIZE 0) 0 ?e, length ?e)" by blast
  have len: "12 \<le> length ?e" "length ?e \<le> TLS_BUFFER_SIZE" "0 < ssl_accept ssl" "ssl_size ssl = be16 (of_nat (length ?e))"
    using req by (simp_all add: enc_message_def tls_request_def)
  then have "12 \<le> (of_nat (length ?e) :: u32)" by (simp add: word_le_nat_alt unat_of_nat)
  then have "dns_recv_handle (overlay (replicate TLS_BUFFER_SIZE 0) 0 ?e) (of_nat (length ?e)) zero_message = ret (1, query)"
    unfolding dns_recv_handle_def
    using len by (intro message_from_buf_reads assms(2) holds_at_overlay) (simp_all add: fits_def)
  moreover have "unat (of_nat (length ?e) :: u16) = length ?e" using len by (simp add: unat_of_nat)
  ultimately show ?thesis
    using assms(3) Tls_request rcv len
    by (simp add: tls_calls_def be16_read bind_calls_assoc bind_calls_local case_prod_unfold)
qed

section \<open>The machine\<close>

text \<open>
  A job that arrives, with the query it carries and the question and labels of that query; the turn of a job,
  with the allocator, clock and network it meets and the message the network replies; a refresh. A finished
  job leaves an empty slot.
\<close>

record arrival =
  ar_request :: dns_request
  ar_query :: message
  ar_question :: message_question
  ar_labels :: "label list"

datatype machine_event = Arrive arrival | Turn nat world "message option" | Refresh_at int

type_synonym machine = "rr_cache \<times> delivery list calls option list"

fun next_call :: "world \<Rightarrow> rr_cache \<Rightarrow> delivery list calls \<Rightarrow> (delivery list \<times> rr_cache \<times> delivery list calls option) run" where
  "next_call w c (Ended r) = bind_run r (\<lambda>out. ret (out, c, None))"
| "next_call w c (Find_rr dest name t cl k) = bind_run (cache_find_rr c dest name t cl) (\<lambda>r. ret ([], c, Some (k r)))"
| "next_call w c (Put_rr rr k) = bind_run (cache_put_rr c (alloc w c) (now w) rr) (\<lambda>(_, c). ret ([], c, Some k))"
| "next_call w c (Send_question req resp k) = bind_run (send_question (net w) req resp) (\<lambda>r. ret ([], c, Some (k r)))"

text \<open>A turn of an empty or unknown slot changes nothing.\<close>

definition slot :: "'a option list \<Rightarrow> nat \<Rightarrow> 'a option" where
  "slot xs i = (if i < length xs then xs ! i else None)"

fun machine_step :: "database \<Rightarrow> machine \<Rightarrow> machine_event \<Rightarrow> (delivery list \<times> machine) run" where
  "machine_step db (c, jobs) (Arrive ar) = ret ([], c, jobs @ [Some (job_calls db (ar_request ar))])"
| "machine_step db (c, jobs) (Turn i w reply) =
     (case slot jobs i of
        None \<Rightarrow> ret ([], c, jobs)
      | Some job \<Rightarrow> bind_run (next_call w c job) (\<lambda>(out, c, job'). ret (out, c, jobs[i := job'])))"
| "machine_step db (c, jobs) (Refresh_at t) = bind_run (refresh_cache c t) (\<lambda>c. ret ([], c, jobs))"

section \<open>The abstract machine\<close>

text \<open>
  A task looks once at the cache and the database, asks the external resolver if they know nothing, and replies
  with a message that is fixed from then on, after putting the remaining records into the cache.
\<close>

datatype task = Looking arrival | Asking arrival | Replying arrival message "resource_record list"

type_synonym abstract_machine = "entry list \<times> task option list"

definition known_records :: "database \<Rightarrow> entry list \<Rightarrow> arrival \<Rightarrow> resource_record list option" where
  "known_records db es ar = local_records db es (ar_labels ar) (qtype (ar_question ar)) (qclass (ar_question ar))"

definition cached_records :: "entry list \<Rightarrow> arrival \<Rightarrow> resource_record list" where
  "cached_records es ar = spec_find (enc_name (ar_labels ar)) (qtype (ar_question ar)) (qclass (ar_question ar)) es"

fun next_task :: "database \<Rightarrow> world \<Rightarrow> message option \<Rightarrow> entry list \<Rightarrow> task \<Rightarrow> delivery list \<times> entry list \<times> task option" where
  "next_task db w reply es (Looking ar) =
     (case known_records db es ar of
        None \<Rightarrow> ([], es, Some (Asking ar))
      | Some rrs \<Rightarrow> ([], es, Some (Replying ar (local_response (ar_query ar) rrs) (cached_records es ar))))"
| "next_task db w reply es (Asking ar) =
     (let (m, rrs) = upstream_answer (net w) (ar_query ar) reply in ([], es, Some (Replying ar m rrs)))"
| "next_task db w reply es (Replying ar m (rr # rrs)) = ([], spec_put (now w) rr es, Some (Replying ar m rrs))"
| "next_task db w reply es (Replying ar m []) = ([deliver (ar_request ar) m], es, None)"

fun abstract_step :: "database \<Rightarrow> abstract_machine \<Rightarrow> machine_event \<Rightarrow> delivery list \<times> abstract_machine" where
  "abstract_step db (es, tasks) (Arrive ar) = ([], es, tasks @ [Some (Looking ar)])"
| "abstract_step db (es, tasks) (Turn i w reply) =
     (case slot tasks i of
        None \<Rightarrow> ([], es, tasks)
      | Some tsk \<Rightarrow> (let (out, es', tsk') = next_task db w reply es tsk in (out, es', tasks[i := tsk'])))"
| "abstract_step db (es, tasks) (Refresh_at t) = ([], spec_refresh t es, tasks)"

text \<open>What the events are expected to be.\<close>

definition arrival_ok :: "database \<Rightarrow> arrival \<Rightarrow> bool" where
  "arrival_ok db ar \<longleftrightarrow> carries (ar_request ar) (ar_query ar) \<and> plain_message (ar_query ar) \<and>
     standard_query (ar_query ar) (ar_question ar) (ar_labels ar) \<and>
     known_addresses db (ar_labels ar) (qtype (ar_question ar))"

fun turn_ok :: "database \<Rightarrow> world \<Rightarrow> message option \<Rightarrow> entry list \<Rightarrow> task \<Rightarrow> bool" where
  "turn_ok db w reply es (Looking ar) \<longleftrightarrow> length (cached_records es ar) \<le> ANCOUNT_MAX \<and>
     (case known_records db es ar of None \<Rightarrow> True
      | Some rrs \<Rightarrow> has_room (ar_request ar) (local_response (ar_query ar) rrs))"
| "turn_ok db w reply es (Asking ar) \<longleftrightarrow> forwardable w (ar_query ar) \<and> reply_ok (net w) (ar_query ar) reply \<and>
     has_room (ar_request ar) (fst (upstream_answer (net w) (ar_query ar) reply))"
| "turn_ok db w reply es (Replying ar m rrs) \<longleftrightarrow> True"

fun machine_event_ok :: "database \<Rightarrow> abstract_machine \<Rightarrow> machine_event \<Rightarrow> bool" where
  "machine_event_ok db (es, tasks) (Arrive ar) \<longleftrightarrow> arrival_ok db ar"
| "machine_event_ok db (es, tasks) (Turn i w reply) \<longleftrightarrow> fresh_alloc (alloc w) \<and>
     (case slot tasks i of None \<Rightarrow> True | Some tsk \<Rightarrow> turn_ok db w reply es tsk)"
| "machine_event_ok db (es, tasks) (Refresh_at t) \<longleftrightarrow> True"

section \<open>The simulation\<close>

text \<open>What is left of a job for each state of its task.\<close>

fun job_rep :: "database \<Rightarrow> delivery list calls \<Rightarrow> task \<Rightarrow> bool" where
  "job_rep db job (Looking ar) \<longleftrightarrow> arrival_ok db ar \<and> job = job_calls db (ar_request ar)"
| "job_rep db job (Asking ar) \<longleftrightarrow> arrival_ok db ar \<and>
     job = (let (sendbuf, p) = send_buffer (ar_request ar) in
       bind_calls (asking sendbuf p (ar_query ar)) (\<lambda>rsp. Ended (send_response (ar_request ar) rsp)))"
| "job_rep db job (Replying ar m rrs) \<longleftrightarrow> (\<forall>rr \<in> set rrs. wf_rr rr) \<and>
     job = bind_calls (put_calls rrs) (\<lambda>_. Ended (ret [deliver (ar_request ar) m]))"

definition machine_rep :: "database \<Rightarrow> machine \<Rightarrow> abstract_machine \<Rightarrow> bool" where
  "machine_rep db s a \<longleftrightarrow> db_valid db \<and> cache_rep (fst s) (fst a) \<and> list_all2 (rel_option (job_rep db)) (snd s) (snd a)"

text \<open>The end of a job that has its records.\<close>

lemma finish_sends:
  assumes "cache_rep c es" and "db_valid db" and "arrival_ok db ar" and "turn_ok db w reply es (Looking ar)"
    and "send_buffer (ar_request ar) = (sendbuf, p)" and "known_records db es ar = Some rrs"
  shows "bind_calls (finish_calls sendbuf p 0 (ar_query ar) (initial_answer (ar_query ar))
        (begin_progress\<lparr>pr_buffer := rrs @ rest, pr_cnt := int (length rrs)\<rparr>)) (\<lambda>rsp. Ended (send_response (ar_request ar) rsp)) =
      Ended (ret [deliver (ar_request ar) (local_response (ar_query ar) rrs)])"
proof -
  from assms(3) have ar: "carries (ar_request ar) (ar_query ar)" "plain_message (ar_query ar)"
    "standard_query (ar_query ar) (ar_question ar) (ar_labels ar)" by (simp_all add: arrival_ok_def)
  have room: "has_room (ar_request ar) (local_response (ar_query ar) rrs)" using assms(4,6) by simp
  have "\<forall>x \<in> set rrs. wf_rr x" "length rrs \<le> ANCOUNT_MAX"
    using local_records_wf [OF assms(1,2) assms(6) [unfolded known_records_def]] assms(4)
    by (auto simp: cached_records_def le_max_iff_disj)
  with finish_calls_local [OF ar(3) _ _ has_room_fits [OF room assms(5)]] show ?thesis
    by (simp add: send_response_ok [OF room assms(5) plain_message_wf [OF ar(2)] ar(1)])
qed

text \<open>What a job does after it searched the cache.\<close>

definition after_find :: "database \<Rightarrow> arrival \<Rightarrow> int \<times> resource_record list \<Rightarrow> delivery list calls" where
  "after_find db ar r = (let (sendbuf, p) = send_buffer (ar_request ar) in
     bind_calls (bind_calls (found_calls db (ar_question ar) begin_progress r) (\<lambda>(_, s).
       finish_calls sendbuf p 0 (ar_query ar) (initial_answer (ar_query ar)) s))
       (\<lambda>rsp. Ended (send_response (ar_request ar) rsp)))"

lemma after_find_ok:
  assumes "cache_rep c es" and "db_valid db" and "arrival_ok db ar" and "turn_ok db w reply es (Looking ar)"
  shows "\<exists>tsk. next_task db w reply es (Looking ar) = ([], es, Some tsk) \<and>
    job_rep db (after_find db ar (int (length (cached_records es ar)),
      cached_records es ar @ drop (length (cached_records es ar)) (pr_buffer begin_progress))) tsk"
proof (cases "known_records db es ar")
  case None
  obtain sendbuf p where sb: "send_buffer (ar_request ar) = (sendbuf, p)" by (cases "send_buffer (ar_request ar)")
  have no: "cached_records es ar = []"
    using None by (auto simp: known_records_def cached_records_def local_records_def split: if_splits)
  with found_calls_none [OF assms(1,2), of "ar_query ar" "ar_question ar" "ar_labels ar"] None assms(3)
  show ?thesis by (simp add: after_find_def sb cached_records_def known_records_def arrival_ok_def)
next
  case (Some rrs)
  let ?hits = "cached_records es ar"
  obtain sendbuf p where sb: "send_buffer (ar_request ar) = (sendbuf, p)" by (cases "send_buffer (ar_request ar)")
  note fin = finish_sends [OF assms sb Some]
  have "after_find db ar (int (length ?hits), ?hits @ drop (length ?hits) (pr_buffer begin_progress)) =
      bind_calls (put_calls ?hits) (\<lambda>_. Ended (ret [deliver (ar_request ar) (local_response (ar_query ar) rrs)]))"
  proof (cases "?hits = []")
    case True
    from found_calls_none [OF assms(1,2), of "ar_query ar" "ar_question ar" "ar_labels ar"] True Some assms(3)
    obtain rest where "found_calls db (ar_question ar) begin_progress (0, pr_buffer begin_progress) =
        Ended (ret (True, begin_progress\<lparr>pr_buffer := rrs @ rest, pr_cnt := int (length rrs)\<rparr>))"
      by (auto simp: known_records_def cached_records_def arrival_ok_def)
    with True fin show ?thesis by (simp add: after_find_def sb)
  next
    case False
    then have "rrs = ?hits" using Some by (simp add: known_records_def cached_records_def local_records_def)
    with False fin show ?thesis
      by (simp add: after_find_def sb found_calls_hits bind_calls_assoc) (simp add: begin_progress_def)
  qed
  with Some spec_find_wf [OF assms(1)] show ?thesis by (simp add: cached_records_def)
qed

lemma looking_ok:
  assumes "cache_rep c es" and "db_valid db" and "arrival_ok db ar" and "turn_ok db w reply es (Looking ar)"
  shows "\<exists>job tsk. next_call w c (job_calls db (ar_request ar)) = ret ([], c, Some job) \<and>
    next_task db w reply es (Looking ar) = ([], es, Some tsk) \<and> job_rep db job tsk"
proof -
  let ?q = "ar_question ar" and ?ls = "ar_labels ar" and ?hits = "cached_records es ar"
  obtain sendbuf p where sb: "send_buffer (ar_request ar) = (sendbuf, p)" by (cases "send_buffer (ar_request ar)")
  from assms(3) have ar: "carries (ar_request ar) (ar_query ar)" "plain_message (ar_query ar)"
    "standard_query (ar_query ar) ?q ?ls" by (simp_all add: arrival_ok_def)
  have job: "job_calls db (ar_request ar) =
      Find_rr (pr_buffer begin_progress) (enc_name ?ls) (qtype ?q) (qclass ?q) (after_find db ar)"
    by (simp add: job_calls_parsed [OF ar(1,2) sb] resolv_calls_find [OF ar(3)] after_find_def [abs_def] sb begin_progress_def)
  have "cache_find_rr c (pr_buffer begin_progress) (enc_name ?ls) (qtype ?q) (qclass ?q) =
      ret (int (length ?hits), ?hits @ drop (length ?hits) (pr_buffer begin_progress))"
    using cache_find_ok [OF assms(1), of "enc_name ?ls" "qtype ?q" "qclass ?q" "pr_buffer begin_progress"] ar(3) assms(4)
    by (simp add: cached_records_def standard_query_def db_name_c_name begin_progress_def)
  with after_find_ok [OF assms] show ?thesis by (auto simp: job)
qed

lemma asking_turn_ok:
  assumes "arrival_ok db ar" and "turn_ok db w reply es (Asking ar)" and "job_rep db job (Asking ar)"
  shows "\<exists>job' tsk. next_call w c job = ret ([], c, Some job') \<and>
    next_task db w reply es (Asking ar) = ([], es, Some tsk) \<and> job_rep db job' tsk"
proof -
  let ?req = "ar_request ar" and ?query = "ar_query ar"
  obtain sendbuf p where sb: "send_buffer ?req = (sendbuf, p)" by (cases "send_buffer ?req")
  obtain m rrs where m: "upstream_answer (net w) ?query reply = (m, rrs)" by (cases "upstream_answer (net w) ?query reply")
  from assms(1) have ar: "carries ?req ?query" "standard_query ?query (ar_question ar) (ar_labels ar)"
    by (simp_all add: arrival_ok_def)
  have ok: "forwardable w ?query" "reply_ok (net w) ?query reply" "has_room ?req m" using assms(2) m by simp_all
  from asking_ok [OF ar(2) ok(1,2) m has_room_fits [OF ok(3) sb]] obtain r query' where
    r: "send_question (net w) ?query (initial_answer ?query) = ret r" "wf_message query'" "\<forall>rr \<in> set rrs. wf_rr rr"
      "asked sendbuf p r = bind_calls (put_calls rrs) (\<lambda>_. Ended (ret (written sendbuf p (enc_message m) query')))"
    by blast
  show ?thesis
    using assms(3) r m
    by (simp add: sb asking_sends bind_calls_assoc send_response_ok [OF ok(3) sb r(2) ar(1)])
qed

lemma replying_ok:
  assumes "cache_rep c es" and "fresh_alloc (alloc w)" and "job_rep db job (Replying ar m rrs)"
  shows "\<exists>c' job'. next_call w c job = ret (fst (next_task db w reply es (Replying ar m rrs)), c', job') \<and>
    cache_rep c' (fst (snd (next_task db w reply es (Replying ar m rrs)))) \<and>
    rel_option (job_rep db) job' (snd (snd (next_task db w reply es (Replying ar m rrs))))"
proof (cases rrs)
  case Nil
  with assms show ?thesis by simp
next
  case (Cons rr rrs')
  with assms cache_put_ok [OF assms(1) _ fresh_allocD [OF assms(2,1)], of rr "now w"] show ?thesis by fastforce
qed

lemma next_call_ok:
  assumes "cache_rep c es" and "db_valid db" and "fresh_alloc (alloc w)" and "job_rep db job tsk" and "turn_ok db w reply es tsk"
  shows "\<exists>c' job'. next_call w c job = ret (fst (next_task db w reply es tsk), c', job') \<and>
    cache_rep c' (fst (snd (next_task db w reply es tsk))) \<and>
    rel_option (job_rep db) job' (snd (snd (next_task db w reply es tsk)))"
proof (cases tsk)
  case (Looking ar)
  with looking_ok [OF assms(1,2), of ar w reply] assms(1,4,5) show ?thesis by fastforce
next
  case (Asking ar)
  with asking_turn_ok [of db ar w reply es job c] assms(1,4,5) show ?thesis by fastforce
next
  case (Replying ar m rrs)
  with replying_ok [OF assms(1,3)] assms(4) show ?thesis by blast
qed

interpretation jobs: simulation "machine_step db" "abstract_step db" "machine_rep db" "machine_event_ok db" for db
proof
  fix s a e assume rep: "machine_rep db s a" and ok: "machine_event_ok db a e"
  obtain c js where s: "s = (c, js)" by (cases s)
  obtain es ts where a: "a = (es, ts)" by (cases a)
  from rep have r: "db_valid db" "cache_rep c es" "list_all2 (rel_option (job_rep db)) js ts"
    by (simp_all add: machine_rep_def s a)
  show "\<exists>s'. machine_step db s e = ret (fst (abstract_step db a e), s') \<and> machine_rep db s' (snd (abstract_step db a e))"
  proof (cases e)
    case (Arrive ar)
    with ok r show ?thesis by (simp add: s a machine_rep_def list_all2_appendI)
  next
    case (Turn i w reply)
    have slots: "rel_option (job_rep db) (slot js i) (slot ts i)"
      using r(3) by (simp add: slot_def list_all2_conv_all_nth)
    show ?thesis
    proof (cases "slot ts i")
      case None
      with slots Turn r show ?thesis by (simp add: s a machine_rep_def)
    next
      case (Some tsk)
      with slots obtain job where job: "slot js i = Some job" "job_rep db job tsk" by (auto simp: option_rel_Some2)
      have "fresh_alloc (alloc w)" "turn_ok db w reply es tsk" using ok Turn Some a by simp_all
      from next_call_ok [OF r(2,1) this(1) job(2) this(2)] obtain c' job' where
        "next_call w c job = ret (fst (next_task db w reply es tsk), c', job')"
        "cache_rep c' (fst (snd (next_task db w reply es tsk)))"
        "rel_option (job_rep db) job' (snd (snd (next_task db w reply es tsk)))" by blast
      with Turn Some job(1) r show ?thesis
        by (simp add: s a machine_rep_def case_prod_unfold Let_def list_all2_update_cong)
    qed
  next
    case (Refresh_at t)
    with rc.refresh_law [OF r(2), of t] r show ?thesis by (auto simp: s a machine_rep_def)
  qed
qed

section \<open>Every response has a moment\<close>

lemma spec_steps_append:
  "spec_steps spec a (xs @ ys) =
     (fst (spec_steps spec a xs) @ fst (spec_steps spec (snd (spec_steps spec a xs)) ys),
      snd (spec_steps spec (snd (spec_steps spec a xs)) ys))"
  by (induction xs arbitrary: a) simp_all

lemma all_ok_append:
  "all_ok spec ok a (xs @ ys) \<longleftrightarrow> all_ok spec ok a xs \<and> all_ok spec ok (snd (spec_steps spec a xs)) ys"
  by (induction xs arbitrary: a) simp_all

lemma slot_update: "slot (xs[i := x]) j = (if i = j \<and> i < length xs then x else slot xs j)"
  by (simp add: slot_def)

lemma slot_bound: "slot xs k = Some x \<Longrightarrow> k < length xs"
  by (simp add: slot_def split: if_splits)

lemma slot_append: "k < length xs \<Longrightarrow> slot (xs @ ys) k = slot xs k" "slot (xs @ [y]) (length xs) = y"
  by (simp_all add: slot_def nth_append)

text \<open>
  The history of one activation: the arrivals in their order, which number the activations, and the calls of activation \<open>k\<close>,
  each with the events before it and the environment it met.
\<close>

fun arrivals :: "machine_event list \<Rightarrow> arrival list" where
  "arrivals [] = []"
| "arrivals (Arrive ar # evs) = ar # arrivals evs"
| "arrivals (Turn i w reply # evs) = arrivals evs"
| "arrivals (Refresh_at t # evs) = arrivals evs"

type_synonym call = "machine_event list \<times> world \<times> message option"

fun own_call :: "nat \<Rightarrow> machine_event list \<Rightarrow> machine_event \<Rightarrow> call list" where
  "own_call k before (Turn i w reply) = (if i = k \<and> k < length (arrivals before) then [(before, w, reply)] else [])"
| "own_call k before (Arrive ar) = []"
| "own_call k before (Refresh_at t) = []"

fun calls_from :: "nat \<Rightarrow> machine_event list \<Rightarrow> machine_event list \<Rightarrow> call list" where
  "calls_from k before [] = []"
| "calls_from k before (e # evs) = own_call k before e @ calls_from k (before @ [e]) evs"

definition calls_of :: "nat \<Rightarrow> machine_event list \<Rightarrow> call list" where
  "calls_of k evs = calls_from k [] evs"

text \<open>The cached records at a call, from the events before it.\<close>

definition cache_before :: "database \<Rightarrow> entry list \<Rightarrow> machine_event list \<Rightarrow> entry list" where
  "cache_before db es evs = fst (snd (spec_steps (abstract_step db) (es, []) evs))"

text \<open>
  The answer of activation \<open>k\<close>, from its own calls alone: what the cache and the database hold for its question at its first
  call, which searches the cache; if they hold nothing, what its own second call, which asks the external resolver, got as a reply.
\<close>

definition own_answer :: "database \<Rightarrow> entry list \<Rightarrow> machine_event list \<Rightarrow> nat \<Rightarrow> message option" where
  "own_answer db es evs k = (let ar = arrivals evs ! k in
     case calls_of k evs of
       [] \<Rightarrow> None
     | (before, w, reply) # later_calls \<Rightarrow>
         (case known_records db (cache_before db es before) ar of
            Some rrs \<Rightarrow> Some (local_response (ar_query ar) rrs)
          | None \<Rightarrow>
              (case later_calls of
                 [] \<Rightarrow> None
               | (before', w', reply') # _ \<Rightarrow> Some (fst (upstream_answer (net w') (ar_query ar) reply')))))"

lemma arrivals_append [simp]: "arrivals (xs @ ys) = arrivals xs @ arrivals ys"
  by (induction xs rule: arrivals.induct) simp_all

lemma calls_from_append: "calls_from k before (xs @ ys) = calls_from k before xs @ calls_from k (before @ xs) ys"
  by (induction xs arbitrary: before) simp_all

lemma calls_of_snoc: "calls_of k (evs @ [e]) = calls_of k evs @ own_call k evs e"
  by (simp add: calls_of_def calls_from_append)

lemma own_answer_snoc:
  assumes "own_answer db es evs k = Some m" and "k < length (arrivals evs)"
  shows "own_answer db es (evs @ [e]) k = Some m"
  using assms by (auto simp: own_answer_def calls_of_snoc nth_append Let_def split: list.splits option.splits)

lemma own_answer_append:
  assumes "own_answer db es evs k = Some m" and "k < length (arrivals evs)"
  shows "own_answer db es (evs @ evs') k = Some m"
  using assms
proof (induction evs' arbitrary: evs)
  case (Cons e evs')
  from Cons.IH [of "evs @ [e]"] own_answer_snoc [OF Cons.prems] Cons.prems(2) show ?case by simp
qed simp

text \<open>What is known of the task of activation \<open>k\<close>.\<close>

fun task_history :: "database \<Rightarrow> entry list \<Rightarrow> machine_event list \<Rightarrow> nat \<Rightarrow> task \<Rightarrow> bool" where
  "task_history db es evs k (Looking ar) \<longleftrightarrow> arrivals evs ! k = ar \<and> calls_of k evs = []"
| "task_history db es evs k (Asking ar) \<longleftrightarrow> arrivals evs ! k = ar \<and>
     (\<exists>before w reply. calls_of k evs = [(before, w, reply)] \<and> known_records db (cache_before db es before) ar = None)"
| "task_history db es evs k (Replying ar m rrs) \<longleftrightarrow> arrivals evs ! k = ar \<and> own_answer db es evs k = Some m"

definition histories :: "database \<Rightarrow> entry list \<Rightarrow> machine_event list \<Rightarrow> task option list \<Rightarrow> bool" where
  "histories db es evs tasks \<longleftrightarrow> length tasks = length (arrivals evs) \<and>
     (\<forall>k tsk. slot tasks k = Some tsk \<longrightarrow> task_history db es evs k tsk)"

lemma no_calls: "length (arrivals evs) \<le> k \<Longrightarrow> calls_of k evs = []"
proof (induction evs rule: rev_induct)
  case (snoc e evs)
  then have "own_call k evs e = []" by (cases e) auto
  with snoc show ?case by (simp add: calls_of_snoc)
qed (simp add: calls_of_def)

text \<open>An event that is no call of activation \<open>k\<close> leaves its history as it is; a call carries it on.\<close>

lemma task_history_other:
  assumes "task_history db es evs k tsk" and "k < length (arrivals evs)" and "own_call k evs e = []"
  shows "task_history db es (evs @ [e]) k tsk"
  using assms own_answer_snoc [of db es evs k _ e] by (cases tsk) (auto simp: calls_of_snoc nth_append)

lemma task_history_turn:
  assumes "task_history db es evs k tsk" and "k < length (arrivals evs)"
    and "next_task db w reply (cache_before db es evs) tsk = (out, es', Some tsk')"
  shows "task_history db es (evs @ [Turn k w reply]) k tsk'"
proof (cases tsk)
  case (Looking ar)
  with assms show ?thesis
    by (auto simp: calls_of_snoc nth_append own_answer_def split: option.splits)
next
  case (Asking ar)
  with assms show ?thesis
    by (auto simp: calls_of_snoc nth_append own_answer_def case_prod_unfold Let_def)
next
  case (Replying ar m rrs)
  with assms own_answer_snoc [OF _ assms(2), of db es m "Turn k w reply"] show ?thesis
    by (cases rrs) (auto simp: nth_append)
qed

lemma histories_turn:
  assumes "histories db es evs tasks" and "slot tasks k = Some tsk"
    and "next_task db w reply (cache_before db es evs) tsk = (out, es', tsk')"
  shows "histories db es (evs @ [Turn k w reply]) (tasks[k := tsk'])"
proof -
  have k: "k < length (arrivals evs)" using slot_bound [OF assms(2)] assms(1) by (simp add: histories_def)
  have "task_history db es (evs @ [Turn k w reply]) i t" if "slot (tasks[k := tsk']) i = Some t" for i t
  proof (cases "i = k")
    case True
    with that slot_bound [OF assms(2)] have "tsk' = Some t" by (simp add: slot_update)
    with assms(3) have n: "next_task db w reply (cache_before db es evs) tsk = (out, es', Some t)" by simp
    have "task_history db es evs k tsk" using assms(1,2) by (simp add: histories_def)
    from task_history_turn [OF this k n] True show ?thesis by simp
  next
    case False
    then have t: "slot tasks i = Some t" using that by (simp add: slot_update)
    with task_history_other [of db es evs i t "Turn k w reply"] slot_bound [OF t] False assms(1) show ?thesis
      by (auto simp: histories_def)
  qed
  with assms(1) show ?thesis by (simp add: histories_def)
qed

lemma histories_arrive:
  assumes "histories db es evs tasks"
  shows "histories db es (evs @ [Arrive ar]) (tasks @ [Some (Looking ar)])"
proof -
  have len: "length tasks = length (arrivals evs)" using assms by (simp add: histories_def)
  have "task_history db es (evs @ [Arrive ar]) i t" if "slot (tasks @ [Some (Looking ar)]) i = Some t" for i t
  proof (cases "i < length tasks")
    case True
    with that assms task_history_other [of db es evs i t "Arrive ar"] show ?thesis
      by (simp add: histories_def slot_append)
  next
    case False
    with that slot_bound [OF that] have "i = length (arrivals evs)" "t = Looking ar"
      by (simp_all add: slot_append len [symmetric] less_Suc_eq)
    with no_calls [of "evs @ [Arrive ar]" i] no_calls [of evs i] show ?thesis by (simp add: calls_of_snoc)
  qed
  with len show ?thesis by (simp add: histories_def)
qed

lemma spec_steps_histories:
  "histories db es evs (snd (snd (spec_steps (abstract_step db) (es, []) evs)))"
proof (induction evs rule: rev_induct)
  case (snoc e evs)
  let ?a = "snd (spec_steps (abstract_step db) (es, []) evs)"
  have a: "?a = (cache_before db es evs, snd ?a)" by (simp add: cache_before_def)
  have st: "snd (spec_steps (abstract_step db) (es, []) (evs @ [e])) = snd (abstract_step db (cache_before db es evs, snd ?a) e)"
    using a by (simp add: spec_steps_append)
  have other: "histories db es (evs @ [e]) (snd ?a)" if "\<forall>k. slot (snd ?a) k \<noteq> None \<longrightarrow> own_call k evs e = []" "\<not> (\<exists>ar. e = Arrive ar)"
  proof -
    have "arrivals (evs @ [e]) = arrivals evs" using that(2) by (cases e) simp_all
    moreover have "task_history db es (evs @ [e]) k tsk" if "slot (snd ?a) k = Some tsk" for k tsk
    proof (rule task_history_other)
      show "task_history db es evs k tsk" using snoc that by (simp add: histories_def)
      show "k < length (arrivals evs)" using snoc slot_bound [OF that] by (simp add: histories_def)
      show "own_call k evs e = []" using \<open>\<forall>k. slot (snd ?a) k \<noteq> None \<longrightarrow> own_call k evs e = []\<close> that by simp
    qed
    ultimately show ?thesis using snoc by (simp add: histories_def)
  qed
  show ?case
  proof (cases e)
    case (Arrive ar)
    with st histories_arrive [OF snoc] show ?thesis by simp
  next
    case (Refresh_at t)
    with st other show ?thesis by simp
  next
    case (Turn k w reply)
    show ?thesis
    proof (cases "slot (snd ?a) k")
      case None
      then have "\<forall>i. slot (snd ?a) i \<noteq> None \<longrightarrow> own_call i evs e = []" using Turn by auto
      with other None Turn st show ?thesis by simp
    next
      case (Some tsk)
      obtain out es' tsk' where n: "next_task db w reply (cache_before db es evs) tsk = (out, es', tsk')"
        by (cases "next_task db w reply (cache_before db es evs) tsk")
      from histories_turn [OF snoc Some n] st Some n Turn show ?thesis by simp
    qed
  qed
qed (simp add: histories_def slot_def)

text \<open>The arrivals of an expected schedule are expected ones.\<close>

lemma all_ok_arrivals:
  "all_ok (abstract_step db) (machine_event_ok db) a evs \<Longrightarrow> \<forall>ar \<in> set (arrivals evs). arrival_ok db ar"
proof (induction evs arbitrary: a)
  case (Cons e evs)
  have "\<forall>ar \<in> set (arrivals evs). arrival_ok db ar" using Cons.prems Cons.IH [of "snd (abstract_step db a e)"] by simp
  with Cons.prems show ?case by (cases a; cases e) simp_all
qed simp

section \<open>Jobs come to an end\<close>

text \<open>An upper bound for the turns a task still needs; a reply has at most 65535 records.\<close>

fun work :: "task option \<Rightarrow> nat" where
  "work None = 0"
| "work (Some (Replying ar m rrs)) = Suc (length rrs)"
| "work (Some (Asking ar)) = 65537"
| "work (Some (Looking ar)) = 65538"

fun turn_of :: "nat \<Rightarrow> machine_event \<Rightarrow> bool" where
  "turn_of i (Turn j w reply) \<longleftrightarrow> i = j"
| "turn_of i (Arrive ar) \<longleftrightarrow> False"
| "turn_of i (Refresh_at t) \<longleftrightarrow> False"

fun arrives :: "machine_event \<Rightarrow> bool" where
  "arrives (Arrive ar) \<longleftrightarrow> True"
| "arrives (Turn i w reply) \<longleftrightarrow> False"
| "arrives (Refresh_at t) \<longleftrightarrow> False"

lemma section_items_length:
  assumes "wf_section ok arr cnt"
  shows "length (section_items arr) \<le> unat cnt"
proof (cases arr)
  case (Some xs)
  then have "length xs = unat cnt" using assms by (simp add: wf_section_def)
  moreover have "length (section_items (Some ys)) \<le> length ys" for ys :: "'a option list"
    by (induction ys) (auto simp: section_items_def map_filter_simps split: option.splits)
  ultimately show ?thesis using Some by metis
qed (simp add: section_items_def)

lemma upstream_records:
  assumes "reply_ok nt query reply"
  shows "length (snd (upstream_answer nt query reply)) < 65536"
proof (cases reply)
  case (Some m)
  then have "wf_section plain_rr (answer m) (ancount (header m))"
    using assms by (simp add: reply_ok_def plain_message_def)
  moreover have "unat (ancount (header m)) < 2 ^ LENGTH(16)" by (rule unsigned_less)
  ultimately have "length (section_items (answer m)) < 65536" using section_items_length by fastforce
  with Some show ?thesis by (simp add: upstream_answer_def)
qed (simp add: upstream_answer_def)

lemma next_task_work:
  assumes "turn_ok db w reply es tsk"
  shows "work (snd (snd (next_task db w reply es tsk))) < work (Some tsk)"
proof (cases "(db, w, reply, es, tsk)" rule: next_task.cases)
  case (2 _ _ _ _ ar)
  with assms upstream_records [of "net w" "ar_query ar" reply] show ?thesis by (simp add: case_prod_unfold Let_def)
qed (use assms in \<open>auto split: option.splits\<close>)

lemma abstract_step_work:
  assumes "machine_event_ok db (es, tasks) e" and "i < length tasks" and "abstract_step db (es, tasks) e = (out, es', tasks')"
  shows "i < length tasks' \<and>
    work (slot tasks' i) + (if turn_of i e then 1 else 0) \<le> max (work (slot tasks i)) (if turn_of i e then 1 else 0)"
proof (cases e)
  case (Turn j w reply)
  show ?thesis
  proof (cases "slot tasks j")
    case (Some tsk)
    then have j: "j < length tasks" by (auto simp: slot_def split: if_splits)
    from next_task_work [of db w reply es tsk] assms Turn Some j show ?thesis
      by (auto simp: slot_update case_prod_unfold Let_def)
  qed (use assms Turn in auto)
qed (use assms in \<open>auto simp: slot_def nth_append\<close>)

lemma spec_steps_work:
  assumes "all_ok (abstract_step db) (machine_event_ok db) a evs" and "i < length (snd a)"
  shows "work (slot (snd (snd (spec_steps (abstract_step db) a evs))) i) \<le>
    work (slot (snd a) i) - length (filter (turn_of i) evs)"
  using assms
proof (induction evs arbitrary: a)
  case (Cons e evs)
  obtain es tasks where a: "a = (es, tasks)" by (cases a)
  obtain out es' tasks' where st: "abstract_step db (es, tasks) e = (out, es', tasks')"
    by (cases "abstract_step db (es, tasks) e")
  have ok: "machine_event_ok db (es, tasks) e" using Cons.prems(1) a by simp
  from abstract_step_work [OF ok _ st, of i] Cons.prems(2) have
    len: "i < length tasks'" and le: "work (slot tasks' i) \<le> work (slot tasks i) - (if turn_of i e then 1 else 0)"
    by (auto simp: a max_def split: if_splits)
  from Cons.IH [of "(es', tasks')"] Cons.prems(1) len have
    "work (slot (snd (snd (spec_steps (abstract_step db) (es', tasks') evs))) i) \<le>
      work (slot tasks' i) - length (filter (turn_of i) evs)" by (simp add: a st)
  with le show ?case by (cases "turn_of i e") (simp_all add: a st)
qed simp

lemma spec_steps_length:
  "length (snd (snd (spec_steps (abstract_step db) a evs))) = length (snd a) + length (filter arrives evs)"
proof (induction evs arbitrary: a)
  case (Cons e evs)
  have "length (snd (snd (abstract_step db a e))) = length (snd a) + (if arrives e then 1 else 0)"
    by (cases "(db, a, e)" rule: abstract_step.cases) (auto simp: case_prod_unfold Let_def split: option.splits)
  with Cons show ?case by (cases "arrives e") simp_all
qed simp

lemma work_bound: "work t \<le> 65538 \<or> (\<exists>ar m rrs. t = Some (Replying ar m rrs))"
  by (cases t rule: work.cases) simp_all

lemma work_zero: "work t = 0 \<longleftrightarrow> t = None"
  by (cases t rule: work.cases) simp_all

text \<open>No job is answered twice and none is lost.\<close>

definition unfinished :: "'a option list \<Rightarrow> nat" where
  "unfinished xs = length (filter (\<lambda>x. x \<noteq> None) xs)"

lemma unfinished_update:
  assumes "slot xs i = Some x"
  shows "unfinished (xs[i := y]) + (if y = None then 1 else 0) = unfinished xs"
proof -
  have "i < length xs" "xs ! i = Some x" using assms by (auto simp: slot_def split: if_splits)
  then obtain pre post where xs: "xs = pre @ Some x # post" "length pre = i" by (metis id_take_nth_drop length_take min.absorb4)
  then show ?thesis by (auto simp: unfinished_def list_update_append)
qed

lemma abstract_step_unfinished:
  assumes "abstract_step db (es, tasks) e = (out, es', tasks')"
  shows "length out + unfinished tasks' = unfinished tasks + (if arrives e then 1 else 0)"
proof (cases e)
  case (Turn i w reply)
  show ?thesis
  proof (cases "slot tasks i")
    case (Some tsk)
    have "length (fst (next_task db w reply es tsk)) = (if snd (snd (next_task db w reply es tsk)) = None then 1 else 0)"
      by (cases "(db, w, reply, es, tsk)" rule: next_task.cases) (auto simp: case_prod_unfold Let_def split: option.splits)
    with assms Turn Some unfinished_update [OF Some, of "snd (snd (next_task db w reply es tsk))"] show ?thesis
      by (auto simp: case_prod_unfold Let_def)
  qed (use assms Turn in auto)
qed (use assms in \<open>auto simp: unfinished_def\<close>)

lemma spec_steps_unfinished:
  "length (fst (spec_steps (abstract_step db) a evs)) + unfinished (snd (snd (spec_steps (abstract_step db) a evs))) =
     unfinished (snd a) + length (filter arrives evs)"
proof (induction evs arbitrary: a)
  case (Cons e evs)
  obtain out es' tasks' where st: "abstract_step db a e = (out, es', tasks')" by (cases "abstract_step db a e")
  with abstract_step_unfinished [of db "fst a" "snd a" e out es' tasks'] Cons.IH [of "(es', tasks')"] show ?case
    by (cases "arrives e") simp_all
qed simp

lemma unfinished_rep: "list_all2 (rel_option R) xs ys \<Longrightarrow> unfinished xs = unfinished ys"
proof (induction rule: list_all2_induct)
  case (Cons x xs y ys)
  then show ?case by (cases x; cases y) (simp_all add: unfinished_def)
qed (simp add: unfinished_def)

section \<open>Properties\<close>

lemma machine_rep_start: "db_valid db \<Longrightarrow> cache_rep c es \<Longrightarrow> machine_rep db (c, []) (es, [])"
  by (simp add: machine_rep_def)

text \<open>C3: any number of UDP and TLS jobs and the refresh thread, in every interleaving of their calls of the
  shared cache, of the external resolver and of the sockets, give exactly the responses of the abstract machine, in its order.
  For plain queries with one question, at most 100 cached records for it, responses that fit their buffers and plain replies
  (\<open>machine_event_ok\<close>), no interleaving faults or blocks, the cache always holds the abstract list, and every request is
  answered once or still being worked on.\<close>

theorem jobs_interleave_refine:
  assumes "db_valid db" and "cache_rep c es" and "all_ok (abstract_step db) (machine_event_ok db) (es, []) evs"
  shows "\<exists>out c' jobs. run_steps (machine_step db) (c, []) evs = ret (out, c', jobs) \<and>
    out = fst (spec_steps (abstract_step db) (es, []) evs) \<and>
    cache_rep c' (fst (snd (spec_steps (abstract_step db) (es, []) evs))) \<and>
    length out + unfinished jobs = length (filter arrives evs)"
proof -
  from jobs.run_refines [OF machine_rep_start [OF assms(1,2)] assms(3)] obtain s where
    s: "run_steps (machine_step db) (c, []) evs = ret (fst (spec_steps (abstract_step db) (es, []) evs), s)"
    "machine_rep db s (snd (spec_steps (abstract_step db) (es, []) evs))" by blast
  moreover have "unfinished (snd s) = unfinished (snd (snd (spec_steps (abstract_step db) (es, []) evs)))"
    using s(2) by (auto simp: machine_rep_def intro: unfinished_rep)
  ultimately show ?thesis
    using spec_steps_unfinished [of db "(es, [])" evs] by (cases s) (auto simp: machine_rep_def unfinished_def)
qed

definition sample_arrival :: "byte list \<Rightarrow> arrival" where
  "sample_arrival addr = \<lparr>ar_request = Udp_request (udp_args addr (enc_message sample_query)), ar_query = sample_query,
     ar_question = sample_q, ar_labels = [[97]]\<rparr>"

text \<open>Two clients ask the same question; both find nothing, both ask outside, one reply is older than a refresh.\<close>

definition sample_schedule :: "machine_event list" where
  "sample_schedule = (let step = \<lambda>i. Turn i (sample_world 7) (Some sample_message) in
     [Arrive (sample_arrival [8]), Arrive (sample_arrival [9]), step 0, step 1, step 0, step 1, step 1, step 0, step 1,
      Refresh_at 110, step 0])"

lemma sample_arrival_ok: "arrival_ok sample_db (sample_arrival addr)"
  using plain_sample_query standard_sample sample_db_ok(3) sample_query_ok
  by (simp add: arrival_ok_def sample_arrival_def udp_args_def)

lemma sample_arrival_simps [simp]:
  "ar_query (sample_arrival addr) = sample_query"
  "deliver (ar_request (sample_arrival addr)) m = Sent_to addr (enc_message m)"
  "has_room (ar_request (sample_arrival addr)) m \<longleftrightarrow> length (enc_message m) \<le> UDP_BUFFER_SIZE"
  "known_records sample_db [] (sample_arrival addr) = None" "cached_records [] (sample_arrival addr) = []"
  by (simp_all add: sample_arrival_def udp_args_def known_records_def cached_records_def local_none_sample spec_find_def)

lemma sample_upstream: "upstream_answer (net (sample_world 7)) sample_query (Some sample_message) = (set_id 5 sample_message, [sample_rr])"
  by (simp add: upstream_answer_def sample_world_def sample_net_def sample_query_ok)
    (simp add: sample_message_def section_items_def map_filter_simps)

lemma sample_puts:
  "spec_put (now (sample_world 7)) sample_rr [] = [(sample_rr, 160)]"
  "spec_put (now (sample_world 7)) sample_rr [(sample_rr, 160)] = [(sample_rr, 160)]"
  "spec_refresh 110 [(sample_rr, 160)] = [(sample_rr\<lparr>ttl := 50\<rparr>, 160)]"
  by (simp_all add: spec_put_def sample_world_def same_rr_def spec_refresh_def age_entry_def) (simp add: sample_rr_def)

lemma sample_reply_ok: "reply_ok (net (sample_world 7)) sample_query (Some sample_message)"
  using plain_sample_message length_sample by (simp add: reply_ok_def sample_world_def sample_net_def)

lemmas sample_run = sample_schedule_def slot_def sample_upstream sample_puts

lemma sample_schedule_ok:
  "all_ok (abstract_step sample_db) (machine_event_ok sample_db) ([], []) sample_schedule"
  by (simp add: sample_run sample_arrival_ok length_enc_set_id length_sample fresh_sample forwardable_sample sample_reply_ok)

lemma sample_schedule_run:
  "spec_steps (abstract_step sample_db) ([], []) sample_schedule =
     ([Sent_to [9] (enc_message (set_id 5 sample_message)), Sent_to [8] (enc_message (set_id 5 sample_message))],
      [(sample_rr\<lparr>ttl := 50\<rparr>, 160)], [None, None])"
  by (simp add: sample_run)

theorem jobs_interleave_refine_witness:
  "\<exists>c c' jobs. cache_rep c [] \<and> run_steps (machine_step sample_db) (c, []) sample_schedule =
     ret ([Sent_to [9] (enc_message (set_id 5 sample_message)), Sent_to [8] (enc_message (set_id 5 sample_message))], c', jobs) \<and>
     cache_rep c' [(sample_rr\<lparr>ttl := 50\<rparr>, 160)] \<and> unfinished jobs = 0"
proof -
  obtain c where c: "cache_rep c []" using init_cache_ok [of 0 100] by blast
  have "length (filter arrives sample_schedule) = 2" by (simp add: sample_schedule_def)
  with jobs_interleave_refine [OF sample_db_ok(1) c sample_schedule_ok] c show ?thesis
    by (auto simp: sample_schedule_run)
qed

text \<open>C23: no job for a query with one question can be kept from its end: one that got 65538 turns has finished, however
  the turns of the others and the refreshes lie between them. The queries are plain ones with a single question, the only
  kind \<open>arrival_ok\<close> admits, with at most 100 cached records for it; responses fit their buffers and replies are plain
  messages. (A query with many questions makes more calls, one search and as many puts as there are hits for each.)\<close>

theorem scheduled_job_finishes:
  assumes "db_valid db" and "cache_rep c es"
    and "all_ok (abstract_step db) (machine_event_ok db) (es, []) (evs @ Arrive ar # evs')"
    and "i = length (filter arrives evs)" and "65538 \<le> length (filter (turn_of i) evs')"
  shows "\<exists>out c' jobs. run_steps (machine_step db) (c, []) (evs @ Arrive ar # evs') = ret (out, c', jobs) \<and>
    i < length jobs \<and> jobs ! i = None"
proof -
  let ?a = "snd (spec_steps (abstract_step db) (es, []) (evs @ [Arrive ar]))"
  have run: "spec_steps (abstract_step db) (es, []) (evs @ Arrive ar # evs') =
      (fst (spec_steps (abstract_step db) (es, []) (evs @ [Arrive ar])) @ fst (spec_steps (abstract_step db) ?a evs'),
       snd (spec_steps (abstract_step db) ?a evs'))"
    using spec_steps_append [of "abstract_step db" "(es, [])" "evs @ [Arrive ar]" evs'] by simp
  have ok: "all_ok (abstract_step db) (machine_event_ok db) ?a evs'"
    using assms(3) all_ok_append [of "abstract_step db" "machine_event_ok db" "(es, [])" "evs @ [Arrive ar]" evs'] by simp
  have i: "i < length (snd ?a)" using assms(4) by (simp add: spec_steps_length)
  have "slot (snd ?a) i = Some (Looking ar)"
    using assms(4) spec_steps_length [of db "(es, [])" evs]
    by (cases "snd (spec_steps (abstract_step db) (es, []) evs)") (simp add: spec_steps_append slot_def nth_append)
  with spec_steps_work [OF ok i] assms(5) have
    "work (slot (snd (snd (spec_steps (abstract_step db) ?a evs'))) i) = 0" by simp
  then have none: "slot (snd (snd (spec_steps (abstract_step db) ?a evs'))) i = None" by (simp only: work_zero)
  have len: "i < length (snd (snd (spec_steps (abstract_step db) ?a evs')))" using i by (simp add: spec_steps_length)
  from jobs.run_refines [OF machine_rep_start [OF assms(1,2)] assms(3)] obtain s where
    s: "run_steps (machine_step db) (c, []) (evs @ Arrive ar # evs') =
        ret (fst (spec_steps (abstract_step db) (es, []) (evs @ Arrive ar # evs')), s)"
    "machine_rep db s (snd (spec_steps (abstract_step db) (es, []) (evs @ Arrive ar # evs')))" by blast
  have "list_all2 (rel_option (job_rep db)) (snd s) (snd (snd (spec_steps (abstract_step db) ?a evs')))"
    using s(2) by (simp add: machine_rep_def run)
  then have "i < length (snd s) \<and> snd s ! i = None"
    using len none by (auto simp: list_all2_conv_all_nth slot_def)
  with s(1) show ?thesis by (cases s) auto
qed

lemma idle_turns_ok:
  assumes "slot tasks i = None" and "fresh_alloc (alloc w)"
  shows "all_ok (abstract_step db) (machine_event_ok db) (es, tasks) (replicate n (Turn i w reply))"
  using assms by (induction n) simp_all

lemma sample_turns_ok:
  "all_ok (abstract_step sample_db) (machine_event_ok sample_db) ([], [])
     ([] @ Arrive (sample_arrival [9]) # replicate (n + 4) (Turn 0 (sample_world 7) (Some sample_message)))"
  using fresh_sample [of 7] forwardable_sample [of 7] sample_reply_ok
  by (simp add: numeral_eq_Suc sample_run sample_arrival_ok length_enc_set_id length_sample idle_turns_ok)

theorem scheduled_job_finishes_witness:
  "\<exists>c out c' jobs. cache_rep c [] \<and> run_steps (machine_step sample_db) (c, [])
     ([] @ Arrive (sample_arrival [9]) # replicate (65534 + 4) (Turn 0 (sample_world 7) (Some sample_message))) =
       ret (out, c', jobs) \<and> jobs ! 0 = None"
proof -
  let ?t = "Turn 0 (sample_world 7) (Some sample_message)"
  obtain c where c: "cache_rep c []" using init_cache_ok [of 0 100] by blast
  have "length (filter (turn_of 0) (replicate n ?t)) = n" for n by (induction n) simp_all
  then have "65538 \<le> length (filter (turn_of 0) (replicate (65534 + 4) ?t))" by (simp only:)
  moreover have "0 = length (filter arrives [])" by simp
  ultimately show ?thesis using c scheduled_job_finishes [OF sample_db_ok(1) c sample_turns_ok] by blast
qed

end
