(* ===== verification/Relay.thy ===== *)
theory Relay
  imports Interleaving
begin

text \<open>
  The running server: the threads that receive requests, the workers of the pool and the refresh thread, on the
  queue and the cache they share. A worker that has fetched a job starts it, makes its calls one by one in turn
  with all other threads, and returns to its loop. Every step is one of the pool (theory \<open>Threadpool\<close>), one of the
  interleaved jobs (theory \<open>Interleaving\<close>), or both at once.
\<close>

section \<open>State and steps\<close>

text \<open>
  The pool, the cache with the activations of job functions so far (empty once they have returned), and the
  activation each worker is in.
\<close>

record relay =
  rl_pool :: "dns_job threadpool"
  rl_machine :: machine
  rl_slot :: "nat \<Rightarrow> nat option"

definition relay_start :: "rr_cache \<Rightarrow> relay" where
  "relay_start c = \<lparr>rl_pool = pool_init, rl_machine = (c, []), rl_slot = (\<lambda>_. None)\<rparr>"

text \<open>The jobs made from what the receiving threads get.\<close>

fun udp_job :: "udp_event \<Rightarrow> dns_job option" where
  "udp_job Not_ready = None"
| "udp_job Recv_error = create_job Udp_resolv_and_respond
     \<lparr>cliaddr = replicate 16 0, rcvbuffer = Some (replicate UDP_BUFFER_SIZE 0), nrecv = -1, clientfd = 0\<rparr>"
| "udp_job (Datagram addr bs) = create_job Udp_resolv_and_respond (udp_args addr (take UDP_BUFFER_SIZE bs))"

definition tls_job :: "byte list \<Rightarrow> int \<Rightarrow> dns_job option" where
  "tls_job addr fd = create_job Ssl_resolv_and_respond \<lparr>cliaddr = addr, rcvbuffer = None, nrecv = 0, clientfd = fd\<rparr>"

text \<open>What a job gets to work on: its datagram, or whatever session comes up on its connection.\<close>

fun works_on :: "dns_job \<Rightarrow> dns_request \<Rightarrow> bool" where
  "works_on j (Udp_request args) \<longleftrightarrow> job_fun j = Udp_resolv_and_respond \<and> args = job_arg j"
| "works_on j (Tls_request fd ssl) \<longleftrightarrow> job_fun j = Ssl_resolv_and_respond \<and> fd = clientfd (job_arg j)"

text \<open>
  The events. Receiving a request carries the return value of \<^verbatim>\<open>threadpool_add_job\<close>, which the receiving thread ignores.
  \<open>Called\<close> and \<open>Returned\<close> name the worker and its activation.
\<close>

datatype relay_event =
    Received udp_event int
  | Connected "byte list" int int
  | Worker "dns_job event"
  | Started nat arrival
  | Called nat nat world "message option"
  | Returned nat nat world "message option" dns_job
  | Refreshed int

inductive relay_step :: "database \<Rightarrow> relay \<Rightarrow> relay_event \<Rightarrow> delivery list \<Rightarrow> relay \<Rightarrow> bool" for db where
  received: "udp_responder (rl_pool s) ev = ret p1 \<Longrightarrow> ev \<noteq> Not_ready \<Longrightarrow>
    threadpool_add_job (rl_pool s) (udp_job ev) = ret (r, p1) \<Longrightarrow> signal p1 p \<Longrightarrow>
    relay_step db s (Received ev r) [] (s\<lparr>rl_pool := p\<rparr>)"
| connected: "tls_responder (rl_pool s) addr fd = ret p1 \<Longrightarrow> 0 \<le> fd \<Longrightarrow>
    threadpool_add_job (rl_pool s) (tls_job addr fd) = ret (r, p1) \<Longrightarrow> signal p1 p \<Longrightarrow>
    relay_step db s (Connected addr fd r) [] (s\<lparr>rl_pool := p\<rparr>)"
| worker: "pool_step (rl_pool s) e p \<Longrightarrow> e = Silent \<or> e = Pulled j \<Longrightarrow>
    relay_step db s (Worker e) [] (s\<lparr>rl_pool := p\<rparr>)"
| started: "i < length (threads (rl_pool s)) \<Longrightarrow> threads (rl_pool s) ! i = Working (Some j) \<Longrightarrow> rl_slot s i = None \<Longrightarrow>
    works_on j (ar_request ar) \<Longrightarrow> machine_step db (rl_machine s) (Arrive ar) = ret (out, m) \<Longrightarrow>
    relay_step db s (Started i ar) out
      (s\<lparr>rl_machine := m, rl_slot := (rl_slot s)(i \<mapsto> length (snd (rl_machine s)))\<rparr>)"
| called: "i < length (threads (rl_pool s)) \<Longrightarrow> threads (rl_pool s) ! i = Working (Some j) \<Longrightarrow> rl_slot s i = Some k \<Longrightarrow>
    machine_step db (rl_machine s) (Turn k w reply) = ret (out, m) \<Longrightarrow> slot (snd m) k \<noteq> None \<Longrightarrow>
    relay_step db s (Called i k w reply) out (s\<lparr>rl_machine := m\<rparr>)"
| returned: "i < length (threads (rl_pool s)) \<Longrightarrow> threads (rl_pool s) ! i = Working (Some j) \<Longrightarrow> rl_slot s i = Some k \<Longrightarrow>
    machine_step db (rl_machine s) (Turn k w reply) = ret (out, m) \<Longrightarrow> slot (snd m) k = None \<Longrightarrow>
    relay_step db s (Returned i k w reply j) out
      \<lparr>rl_pool = goto i Finishing (rl_pool s), rl_machine = m, rl_slot = (rl_slot s)(i := None)\<rparr>"
| refreshed: "machine_step db (rl_machine s) (Refresh_at t) = ret (out, m) \<Longrightarrow>
    relay_step db s (Refreshed t) out (s\<lparr>rl_machine := m\<rparr>)"

inductive relay_run :: "database \<Rightarrow> relay \<Rightarrow> relay_event list \<Rightarrow> delivery list \<Rightarrow> relay \<Rightarrow> bool" for db s0 where
  relay_nil: "relay_run db s0 [] [] s0"
| relay_snoc: "relay_run db s0 evs outs s \<Longrightarrow> relay_step db s e out s' \<Longrightarrow>
    relay_run db s0 (evs @ [e]) (outs @ out) s'"

text \<open>What the pool and the interleaved jobs see of an event.\<close>

fun pool_event :: "relay_event \<Rightarrow> dns_job event list" where
  "pool_event (Received ev r) = [Added (udp_job ev) r]"
| "pool_event (Connected addr fd r) = [Added (tls_job addr fd) r]"
| "pool_event (Worker e) = [e]"
| "pool_event (Returned i k w reply j) = [Ran (Some j)]"
| "pool_event _ = []"

fun job_event :: "relay_event \<Rightarrow> machine_event list" where
  "job_event (Started i ar) = [Arrive ar]"
| "job_event (Called i k w reply) = [Turn k w reply]"
| "job_event (Returned i k w reply j) = [Turn k w reply]"
| "job_event (Refreshed t) = [Refresh_at t]"
| "job_event _ = []"

definition pool_events :: "relay_event list \<Rightarrow> dns_job event list" where
  "pool_events evs = concat (map pool_event evs)"

definition job_events :: "relay_event list \<Rightarrow> machine_event list" where
  "job_events evs = concat (map job_event evs)"

text \<open>The receiving threads do nothing but add these jobs.\<close>

lemma responders_add:
  "ev \<noteq> Not_ready \<Longrightarrow> udp_responder p ev = bind_run (threadpool_add_job p (udp_job ev)) (\<lambda>(_, p). ret p)"
  "0 \<le> fd \<Longrightarrow> tls_responder p addr fd = bind_run (threadpool_add_job p (tls_job addr fd)) (\<lambda>(_, p). ret p)"
proof -
  show "udp_responder p ev = bind_run (threadpool_add_job p (udp_job ev)) (\<lambda>(_, p). ret p)" if "ev \<noteq> Not_ready"
  proof (cases ev)
    case Recv_error
    then show ?thesis by (simp add: udp_responder_def create_resolv_args_def rd_bytes_take)
  next
    case (Datagram addr bs)
    then show ?thesis using create_udp_args [of "take UDP_BUFFER_SIZE bs" addr] by (simp add: udp_responder_def Let_def)
  qed (use that in simp)
  show "tls_responder p addr fd = bind_run (threadpool_add_job p (tls_job addr fd)) (\<lambda>(_, p). ret p)" if "0 \<le> fd"
    using that by (simp add: tls_responder_def create_resolv_args_def tls_job_def)
qed

section \<open>The two projections\<close>

lemma bind_run_ret: "bind_run m (\<lambda>x. ret x) = m"
  by (auto simp: bind_run_def split: option.splits sum.splits Option.bind_splits)

lemma run_steps_append:
  "run_steps step c (xs @ ys) =
     bind_run (run_steps step c xs) (\<lambda>(out, c1). bind_run (run_steps step c1 ys) (\<lambda>(outs, c2). ret (out @ outs, c2)))"
proof (induction xs arbitrary: c)
  case (Cons x xs)
  then show ?case by (simp add: bind_run_assoc case_prod_unfold)
qed (simp add: case_prod_unfold bind_run_ret)

lemma relay_step_pool:
  assumes "relay_step db s e out s'"
  shows "pool_run (rl_pool s) (pool_event e) (rl_pool s')"
proof -
  have one: "pool_run p [x] p'" if "pool_step p x p'" for p p' :: "dns_job threadpool" and x
    using pool_run.run_snoc [OF pool_run.run_nil that] by simp
  from assms show ?thesis
    by cases (auto intro: one pool_run.run_nil pool_step.add pool_step.run_job)
qed

lemma relay_step_jobs:
  assumes "relay_step db s e out s'"
  shows "run_steps (machine_step db) (rl_machine s) (job_event e) = ret (out, rl_machine s')"
  using assms by cases auto

lemma pool_run_trans: "pool_run s1 evs' s2 \<Longrightarrow> pool_run s evs s1 \<Longrightarrow> pool_run s (evs @ evs') s2"
proof (induction rule: pool_run.induct)
  case (run_snoc evs' s2 e s3)
  then show ?case using pool_run.run_snoc [of s "evs @ evs'"] by simp
qed simp

lemma relay_run_pool: "relay_run db s0 evs out s \<Longrightarrow> pool_run (rl_pool s0) (pool_events evs) (rl_pool s)"
proof (induction rule: relay_run.induct)
  case (relay_snoc evs outs s e out s')
  from pool_run_trans [OF relay_step_pool [OF relay_snoc.hyps(2)] relay_snoc.IH] show ?case by (simp add: pool_events_def)
qed (simp add: pool_events_def pool_run.run_nil)

lemma relay_run_jobs:
  "relay_run db s0 evs out s \<Longrightarrow> run_steps (machine_step db) (rl_machine s0) (job_events evs) = ret (out, rl_machine s)"
proof (induction rule: relay_run.induct)
  case (relay_snoc evs outs s e out s')
  with relay_step_jobs [OF relay_snoc.hyps(2)] show ?case by (simp add: job_events_def run_steps_append)
qed (simp add: job_events_def)

section \<open>Workers and tasks\<close>

primrec task_arrival :: "task \<Rightarrow> arrival" where
  "task_arrival (Looking ar) = ar"
| "task_arrival (Asking ar) = ar"
| "task_arrival (Replying ar m rrs) = ar"

text \<open>A worker in an activation is working on the job whose request the task has; no two are in the same.\<close>

definition attends :: "relay \<Rightarrow> task option list \<Rightarrow> nat \<Rightarrow> nat \<Rightarrow> bool" where
  "attends s tasks i k \<longleftrightarrow> i < length (threads (rl_pool s)) \<and>
     (\<exists>j tsk. threads (rl_pool s) ! i = Working (Some j) \<and> slot tasks k = Some tsk \<and>
        works_on j (ar_request (task_arrival tsk)))"

definition relay_inv :: "database \<Rightarrow> relay \<Rightarrow> abstract_machine \<Rightarrow> bool" where
  "relay_inv db s a \<longleftrightarrow> machine_rep db (rl_machine s) a \<and>
     (\<forall>i k. rl_slot s i = Some k \<longrightarrow> attends s (snd a) i k) \<and>
     (\<forall>i i' k. rl_slot s i = Some k \<and> rl_slot s i' = Some k \<longrightarrow> i = i')"

lemma pool_step_working:
  assumes "pool_step s e s'" and "\<forall>j. e \<noteq> Ran j" and "i < length (threads s)" and "threads s ! i = Working j"
  shows "i < length (threads s') \<and> threads s' ! i = Working j"
  using assms(1)
proof cases
  case (add j' r s1)
  then have "threads s1 = threads s" by (auto simp: threadpool_add_job_def)
  with assms add signal_keeps(1) [OF add(3)] signal_other [OF add(3), of i] show ?thesis by simp
next
  case (end_job i')
  moreover have "i' \<noteq> i" using end_job assms(4) by auto
  then have "threads (thread_end i' s) ! i = Working j" "i < length (threads (thread_end i' s))"
    using assms(3,4) by (simp_all add: thread_end_def)
  ultimately show ?thesis
    using signal_keeps(1) [of "thread_end i' s" s'] signal_other [of "thread_end i' s" s' i] by (auto split: if_splits)
qed (use assms in \<open>auto simp: thread_begin_def nth_list_update\<close>)

lemma next_task_arrival:
  assumes "next_task db w reply es tsk = (out, es', tsk')"
  shows "case tsk' of Some t \<Rightarrow> task_arrival t = task_arrival tsk \<and> out = []
    | None \<Rightarrow> \<exists>m. tsk = Replying (task_arrival tsk) m [] \<and> out = [deliver (ar_request (task_arrival tsk)) m]"
  using assms by (cases "(db, w, reply, es, tsk)" rule: next_task.cases)
    (auto simp: case_prod_unfold Let_def split: option.splits)

section \<open>The invariant\<close>

lemma relay_inv_pool:
  assumes "relay_inv db s a" and "pool_step (rl_pool s) e p" and "\<forall>j. e \<noteq> Ran j"
  shows "relay_inv db (s\<lparr>rl_pool := p\<rparr>) a"
proof -
  have "attends (s\<lparr>rl_pool := p\<rparr>) tasks i k" if "attends s tasks i k" for tasks i k
    using that pool_step_working [OF assms(2,3), of i] by (auto simp: attends_def)
  with assms(1) show ?thesis by (auto simp: relay_inv_def)
qed

lemma slot_rep: "list_all2 (rel_option R) xs ys \<Longrightarrow> rel_option R (slot xs k) (slot ys k)"
  by (simp add: slot_def list_all2_conv_all_nth)

text \<open>A step of a job does what the abstract machine does.\<close>

lemma relay_step_machine:
  assumes "relay_step db s e out s'" and "relay_inv db s a"
    and "all_ok (abstract_step db) (machine_event_ok db) a (job_event e)"
  shows "out = fst (spec_steps (abstract_step db) a (job_event e)) \<and>
    machine_rep db (rl_machine s') (snd (spec_steps (abstract_step db) a (job_event e)))"
proof -
  have "machine_rep db (rl_machine s) a" using assms(2) by (simp add: relay_inv_def)
  from jobs.run_refines [OF this assms(3)] relay_step_jobs [OF assms(1)] show ?thesis by auto
qed

lemma relay_inv_started:
  assumes "relay_inv db s a" and "i < length (threads (rl_pool s))" and "threads (rl_pool s) ! i = Working (Some j)"
    and "works_on j (ar_request ar)" and "machine_rep db m (snd (abstract_step db a (Arrive ar)))"
  shows "relay_inv db (s\<lparr>rl_machine := m, rl_slot := (rl_slot s)(i \<mapsto> length (snd (rl_machine s)))\<rparr>)
    (snd (abstract_step db a (Arrive ar)))"
proof -
  obtain es tasks where a: "a = (es, tasks)" by (cases a)
  have len: "length (snd (rl_machine s)) = length tasks"
    using assms(1) by (auto simp: relay_inv_def machine_rep_def a list_all2_lengthD)
  have old: "attends s tasks i' k \<and> k < length tasks" if "rl_slot s i' = Some k" for i' k
    using assms(1) that slot_bound by (fastforce simp: relay_inv_def a attends_def)
  have inj: "i1 = i2" if "rl_slot s i1 = Some k" "rl_slot s i2 = Some k" for i1 k i2
    using assms(1) that unfolding relay_inv_def by blast
  let ?s = "s\<lparr>rl_machine := m, rl_slot := (rl_slot s)(i \<mapsto> length tasks)\<rparr>"
  have "attends ?s (tasks @ [Some (Looking ar)]) i' k" if "rl_slot ?s i' = Some k" for i' k
    using that old [of i' k] assms(2-4) by (auto simp: attends_def slot_append split: if_splits)
  moreover have "i1 = i2" if "rl_slot ?s i1 = Some k" "rl_slot ?s i2 = Some k" for i1 i2 k
    using that old inj by (simp split: if_splits) (metis less_irrefl)+
  moreover have "machine_rep db (rl_machine ?s) (es, tasks @ [Some (Looking ar)])" using assms(5) by (simp add: a)
  ultimately have "relay_inv db ?s (es, tasks @ [Some (Looking ar)])" unfolding relay_inv_def snd_conv by blast
  then show ?thesis by (simp add: a len)
qed

text \<open>The turn of an activation, in the abstract machine.\<close>

lemma attended_turn:
  assumes "attends s tasks i k" and "abstract_step db (es, tasks) (Turn k w reply) = (out, es', tasks')"
  shows "\<exists>tsk tsk' es1. slot tasks k = Some tsk \<and> next_task db w reply es tsk = (out, es1, tsk') \<and>
    tasks' = tasks[k := tsk'] \<and> slot tasks' k = tsk'"
proof -
  from assms(1) obtain tsk where tsk: "slot tasks k = Some tsk" by (auto simp: attends_def)
  obtain out' es1 tsk' where "next_task db w reply es tsk = (out', es1, tsk')" by (cases "next_task db w reply es tsk")
  with tsk slot_bound [OF tsk] assms(2) show ?thesis by (auto simp: slot_update)
qed

lemma relay_inv_turn:
  assumes "relay_inv db s a" and "i < length (threads (rl_pool s))" and "threads (rl_pool s) ! i = Working (Some j)"
    and "rl_slot s i = Some k" and "machine_rep db m (snd (abstract_step db a (Turn k w reply)))"
  shows "slot (snd m) k \<noteq> None \<Longrightarrow> relay_inv db (s\<lparr>rl_machine := m\<rparr>) (snd (abstract_step db a (Turn k w reply)))"
    and "slot (snd m) k = None \<Longrightarrow>
      relay_inv db \<lparr>rl_pool = goto i Finishing (rl_pool s), rl_machine = m, rl_slot = (rl_slot s)(i := None)\<rparr>
        (snd (abstract_step db a (Turn k w reply)))"
proof -
  obtain es tasks where a: "a = (es, tasks)" by (cases a)
  obtain out es' tasks' where st: "abstract_step db a (Turn k w reply) = (out, es', tasks')"
    by (cases "abstract_step db a (Turn k w reply)")
  have att: "attends s tasks i' k'" if "rl_slot s i' = Some k'" for i' k'
    using assms(1) that by (simp add: relay_inv_def a)
  have inj: "i' = i" if "rl_slot s i' = Some k" for i' using assms(1,4) that unfolding relay_inv_def by blast
  from attended_turn [OF att [OF assms(4)] st [unfolded a]] obtain tsk tsk' es1 where
    t: "slot tasks k = Some tsk" "next_task db w reply es tsk = (out, es1, tsk')" "tasks' = tasks[k := tsk']"
      "slot tasks' k = tsk'" by blast
  have rep: "machine_rep db m (es', tasks')" using assms(5) st by simp
  then have same: "slot (snd m) k = None \<longleftrightarrow> tsk' = None"
    using slot_rep [of _ "snd m" tasks' k] t(4) by (auto simp: machine_rep_def)
  have other: "attends s tasks' i' k'" if "rl_slot s i' = Some k'" "k' \<noteq> k" for i' k'
    using att [OF that(1)] that(2) by (auto simp: attends_def t(3) slot_update)
  show "relay_inv db (s\<lparr>rl_machine := m\<rparr>) (snd (abstract_step db a (Turn k w reply)))" if "slot (snd m) k \<noteq> None"
  proof -
    from that same obtain t' where t': "tsk' = Some t'" by auto
    then have "task_arrival t' = task_arrival tsk" using next_task_arrival [OF t(2)] by simp
    then have "attends s tasks' i k" using att [OF assms(4)] t t' by (auto simp: attends_def)
    then have "attends s tasks' i' k'" if "rl_slot s i' = Some k'" for i' k'
      using other [OF that] inj that by (cases "k' = k") auto
    with rep assms(1) show ?thesis by (auto simp: relay_inv_def st attends_def)
  qed
  show "relay_inv db \<lparr>rl_pool = goto i Finishing (rl_pool s), rl_machine = m, rl_slot = (rl_slot s)(i := None)\<rparr>
      (snd (abstract_step db a (Turn k w reply)))"
  proof -
    have "attends \<lparr>rl_pool = goto i Finishing (rl_pool s), rl_machine = m, rl_slot = (rl_slot s)(i := None)\<rparr> tasks' i' k'"
      if "i' \<noteq> i" "rl_slot s i' = Some k'" for i' k'
      using other [OF that(2)] that inj by (fastforce simp: attends_def)
    with rep assms(1) show ?thesis by (auto simp: relay_inv_def st)
  qed
qed

lemma relay_inv_step:
  assumes "relay_step db s e out s'" and "relay_inv db s a"
    and "all_ok (abstract_step db) (machine_event_ok db) a (job_event e)"
  shows "relay_inv db s' (snd (spec_steps (abstract_step db) a (job_event e)))"
proof -
  note m = relay_step_machine [OF assms, THEN conjunct2]
  from assms(1) show ?thesis
  proof cases
    case (received ev p1 r p)
    then show ?thesis using relay_inv_pool [OF assms(2) pool_step.add] by simp
  next
    case (connected addr fd p1 r p)
    then show ?thesis using relay_inv_pool [OF assms(2) pool_step.add] by simp
  next
    case (worker x p j)
    then show ?thesis using relay_inv_pool [OF assms(2), of x p] by auto
  next
    case (started i j ar m')
    then show ?thesis using relay_inv_started [OF assms(2), of i j ar m'] m by simp
  next
    case (called i j k w reply m')
    then show ?thesis using relay_inv_turn(1) [OF assms(2), of i j k m' w reply] m by simp
  next
    case (returned i j k w reply m')
    then show ?thesis using relay_inv_turn(2) [OF assms(2), of i j k m' w reply] m by simp
  next
    case (refreshed t m')
    with m assms(2) show ?thesis by (cases a) (simp add: relay_inv_def attends_def)
  qed
qed

section \<open>One response for each finished job\<close>

text \<open>The jobs that have returned, each with the number of its activation.\<close>

fun finish :: "relay_event \<Rightarrow> (nat \<times> dns_job) list" where
  "finish (Returned i k w reply j) = [(k, j)]"
| "finish _ = []"

definition finished :: "relay_event list \<Rightarrow> (nat \<times> dns_job) list" where
  "finished evs = concat (map finish evs)"

text \<open>
  The response of activation \<open>k\<close> of job \<open>j\<close>: the arrival of that activation is a plain query for which the job works, the message
  is the answer made from the activation's own calls, and it goes out to where the request came from.
\<close>

definition answers :: "database \<Rightarrow> entry list \<Rightarrow> machine_event list \<Rightarrow> nat \<times> dns_job \<Rightarrow> delivery \<Rightarrow> bool" where
  "answers db es evs = (\<lambda>(k, j) d. k < length (arrivals evs) \<and> works_on j (ar_request (arrivals evs ! k)) \<and>
     arrival_ok db (arrivals evs ! k) \<and>
     (\<exists>m. own_answer db es evs k = Some m \<and> d = deliver (ar_request (arrivals evs ! k)) m))"

lemma answers_append: "answers db es evs kj d \<Longrightarrow> answers db es (evs @ evs') kj d"
  using own_answer_append by (fastforce simp: answers_def nth_append split: prod.splits)

lemma ran_finished: "ran (pool_event e) = map (\<lambda>(k, j). Some j) (finish e)" if "relay_step db s e out s'"
  using that by cases (auto simp: ran_def)

lemma relay_step_answers:
  assumes "relay_step db s e out s'" and "relay_inv db s (snd (spec_steps (abstract_step db) (es, []) evs))"
    and "all_ok (abstract_step db) (machine_event_ok db) (es, []) (evs @ job_event e)"
  shows "list_all2 (answers db es (evs @ job_event e)) (finish e) out"
proof -
  let ?a = "snd (spec_steps (abstract_step db) (es, []) evs)"
  obtain cached tasks where a: "?a = (cached, tasks)" by (cases ?a)
  have ok: "all_ok (abstract_step db) (machine_event_ok db) ?a (job_event e)" using assms(3) by (simp add: all_ok_append)
  note out = relay_step_machine [OF assms(1,2) ok, THEN conjunct1]
  note rep = relay_step_machine [OF assms(1,2) ok, THEN conjunct2]
  have turn: "\<exists>j tsk es' tsk'. threads (rl_pool s) ! i = Working (Some j) \<and> works_on j (ar_request (task_arrival tsk)) \<and>
      slot tasks k = Some tsk \<and> next_task db w reply cached tsk = (out, es', tsk') \<and>
      rel_option (job_rep db) (slot (snd (rl_machine s')) k) tsk'"
    if "rl_slot s i = Some k" "job_event e = [Turn k w reply]" for i k w reply
  proof -
    have att: "attends s tasks i k" using assms(2) that(1) by (simp add: relay_inv_def a)
    obtain out' es' tasks' where st: "abstract_step db (cached, tasks) (Turn k w reply) = (out', es', tasks')"
      by (cases "abstract_step db (cached, tasks) (Turn k w reply)")
    then have "out' = out" "rel_option (job_rep db) (slot (snd (rl_machine s')) k) (slot tasks' k)"
      using out rep that(2) slot_rep [of "job_rep db"] by (auto simp: a machine_rep_def)
    moreover from attended_turn [OF att st] obtain tsk tsk' es1 where t: "slot tasks k = Some tsk"
      "next_task db w reply cached tsk = (out', es1, tsk')" "slot tasks' k = tsk'" by blast
    ultimately show ?thesis using att unfolding attends_def t(1) option.inject by blast
  qed
  from assms(1) show ?thesis
  proof cases
    case (called i j k w reply m)
    from turn [of i k w reply] called obtain tsk es' t' where "next_task db w reply cached tsk = (out, es', Some t')"
      by (auto simp: option_rel_Some1)
    with called show ?thesis using next_task_arrival by fastforce
  next
    case (returned i j k w reply m)
    from turn [of i k w reply] returned obtain tsk es' where tsk: "works_on j (ar_request (task_arrival tsk))"
      "slot tasks k = Some tsk" "next_task db w reply cached tsk = (out, es', None)" by (auto simp: option_rel_Some1)
    from next_task_arrival [OF tsk(3)] obtain m where m: "tsk = Replying (task_arrival tsk) m []"
      "out = [deliver (ar_request (task_arrival tsk)) m]" by auto
    note hist = spec_steps_histories [of db es evs, unfolded a snd_conv]
    then have k: "k < length (arrivals evs)" using slot_bound [OF tsk(2)] by (simp add: histories_def)
    have "task_history db es evs k tsk" using hist tsk(2) by (simp add: histories_def)
    then have own: "arrivals evs ! k = task_arrival tsk" "own_answer db es evs k = Some m"
      using m(1) task_history.simps(3) by metis+
    moreover have "arrival_ok db (arrivals evs ! k)" using all_ok_arrivals [OF assms(3)] k by (simp add: nth_append)
    ultimately have "answers db es evs (k, j) (deliver (ar_request (task_arrival tsk)) m)"
      using k tsk(1) by (simp add: answers_def)
    then have "answers db es (evs @ job_event e) (k, j) (deliver (ar_request (task_arrival tsk)) m)"
      by (rule answers_append)
    with returned m show ?thesis by simp
  qed (use out in \<open>auto simp: a\<close>)
qed

text \<open>No activation returns twice: once it has, its slot stays empty.\<close>

definition gone :: "task option list \<Rightarrow> nat \<Rightarrow> bool" where
  "gone tasks k \<longleftrightarrow> k < length tasks \<and> slot tasks k = None"

lemma spec_steps_gone:
  "gone (snd a) k \<Longrightarrow> gone (snd (snd (spec_steps (abstract_step db) a evs))) k"
proof (induction evs arbitrary: a)
  case (Cons e evs)
  obtain es tasks where a: "a = (es, tasks)" by (cases a)
  have "gone (snd (snd (abstract_step db (es, tasks) e))) k"
    using Cons.prems a
    by (cases e) (auto simp: gone_def slot_append slot_update case_prod_unfold Let_def split: option.splits)
  with Cons.IH [of "snd (abstract_step db a e)"] show ?case by (simp add: a)
qed simp

lemma relay_step_finish:
  assumes "relay_step db s e out s'" and "relay_inv db s a"
    and "all_ok (abstract_step db) (machine_event_ok db) a (job_event e)" and "(k, j) \<in> set (finish e)"
  shows "\<not> gone (snd a) k \<and> gone (snd (snd (spec_steps (abstract_step db) a (job_event e)))) k \<and> finish e = [(k, j)]"
proof -
  note rep = relay_step_machine [OF assms(1-3), THEN conjunct2]
  obtain es tasks where a: "a = (es, tasks)" by (cases a)
  from assms(1) show ?thesis
  proof cases
    case (returned i j' k' w reply m)
    then have eq: "k' = k" "j' = j" using assms(4) by simp_all
    obtain out' es' tasks' where st: "abstract_step db (es, tasks) (Turn k w reply) = (out', es', tasks')"
      by (cases "abstract_step db (es, tasks) (Turn k w reply)")
    have "attends s tasks i k" using assms(2) returned eq by (simp add: relay_inv_def a)
    from attended_turn [OF this st] obtain tsk where t: "slot tasks k = Some tsk" "length tasks' = length tasks"
      by (metis length_list_update)
    have "rel_option (job_rep db) (slot (snd m) k) (slot tasks' k)"
      using rep returned eq slot_rep [of "job_rep db" "snd m" tasks' k] st by (simp add: a machine_rep_def)
    then have "slot tasks' k = None" using returned eq by simp
    with returned eq t st slot_bound [OF t(1)] show ?thesis by (simp add: gone_def a)
  qed (use assms(4) in auto)
qed

lemma ran_append [simp]: "ran (xs @ ys) = ran xs @ ran ys"
  by (simp add: ran_def)

lemma relay_start_inv:
  assumes "db_valid db" and "cache_rep c es"
  shows "relay_inv db (relay_start c) (es, [])"
  using machine_rep_start [OF assms] by (simp add: relay_inv_def relay_start_def)

lemma relay_run_inv:
  assumes "relay_run db (relay_start c) evs out s" and "db_valid db" and "cache_rep c es"
    and "all_ok (abstract_step db) (machine_event_ok db) (es, []) (job_events evs)"
  shows "relay_inv db s (snd (spec_steps (abstract_step db) (es, []) (job_events evs))) \<and>
    list_all2 (answers db es (job_events evs)) (finished evs) out \<and> distinct (map fst (finished evs)) \<and>
    (\<forall>kj \<in> set (finished evs). gone (snd (snd (spec_steps (abstract_step db) (es, []) (job_events evs)))) (fst kj))"
  using assms(1,4)
proof (induction rule: relay_run.induct)
  case relay_nil
  show ?case using relay_start_inv [OF assms(2,3)] by (simp add: job_events_def finished_def)
next
  case (relay_snoc evs outs s e out s')
  let ?evs = "job_events evs"
  have all: "job_events (evs @ [e]) = ?evs @ job_event e" "finished (evs @ [e]) = finished evs @ finish e"
    by (simp_all add: job_events_def finished_def)
  with relay_snoc.prems have ok: "all_ok (abstract_step db) (machine_event_ok db) (es, []) (?evs @ job_event e)" by simp
  then have "all_ok (abstract_step db) (machine_event_ok db) (es, []) ?evs" by (simp add: all_ok_append)
  note IH = relay_snoc.IH [OF this]
  let ?a = "snd (spec_steps (abstract_step db) (es, []) ?evs)"
  have ok1: "all_ok (abstract_step db) (machine_event_ok db) ?a (job_event e)" using ok by (simp add: all_ok_append)
  have st: "snd (spec_steps (abstract_step db) (es, []) (?evs @ job_event e)) = snd (spec_steps (abstract_step db) ?a (job_event e))"
    by (simp add: spec_steps_append)
  note inv = IH [THEN conjunct1] and past = IH [THEN conjunct2, THEN conjunct2, THEN conjunct2]
  have "list_all2 (answers db es (?evs @ job_event e)) (finished evs) outs"
    using IH [THEN conjunct2, THEN conjunct1] by (rule list_all2_mono) (rule answers_append)
  then have "list_all2 (answers db es (?evs @ job_event e)) (finished evs @ finish e) (outs @ out)"
    using relay_step_answers [OF relay_snoc.hyps(2) inv ok] by (rule list_all2_appendI)
  moreover have "distinct (map fst (finish e))" by (cases e) simp_all
  moreover have "fst kj \<notin> fst ` set (finish e)" if "kj \<in> set (finished evs)" for kj
  proof
    assume "fst kj \<in> fst ` set (finish e)"
    then obtain j where "(fst kj, j) \<in> set (finish e)" by force
    from relay_step_finish [OF relay_snoc.hyps(2) inv ok1 this] past that show False by blast
  qed
  then have "fst ` set (finished evs) \<inter> fst ` set (finish e) = {}" by blast
  moreover have "gone (snd (snd (spec_steps (abstract_step db) ?a (job_event e)))) (fst kj)"
    if "kj \<in> set (finished evs) \<union> set (finish e)" for kj
    using that
  proof
    assume "kj \<in> set (finished evs)"
    with past have "gone (snd ?a) (fst kj)" by blast
    then show ?thesis by (rule spec_steps_gone)
  next
    assume "kj \<in> set (finish e)"
    then have "(fst kj, snd kj) \<in> set (finish e)" by simp
    from relay_step_finish [OF relay_snoc.hyps(2) inv ok1 this] show ?thesis by blast
  qed
  ultimately show ?case
    using relay_inv_step [OF relay_snoc.hyps(2) inv ok1] IH [THEN conjunct2, THEN conjunct2, THEN conjunct1]
    unfolding all st by (simp del: spec_steps.simps)
qed

lemma relay_run_finished:
  "relay_run db s0 evs out s \<Longrightarrow> ran (pool_events evs) = map (\<lambda>(k, j). Some j) (finished evs)"
proof (induction rule: relay_run.induct)
  case (relay_snoc evs outs s e out s')
  with ran_finished [OF relay_snoc.hyps(2)] show ?case by (simp add: pool_events_def finished_def)
qed (simp add: pool_events_def finished_def ran_def)

section \<open>No worker blocks\<close>

text \<open>A turn the environment allows can be taken.\<close>

lemma relay_turn:
  assumes "relay_inv db s a" and "i < length (threads (rl_pool s))" and "threads (rl_pool s) ! i = Working (Some j)"
    and "rl_slot s i = Some k" and "machine_event_ok db a (Turn k w reply)"
    and "abstract_step db a (Turn k w reply) = (out, a')"
  obtains m where "slot (snd a') k \<noteq> None" "relay_step db s (Called i k w reply) out (s\<lparr>rl_machine := m\<rparr>)"
      "relay_inv db (s\<lparr>rl_machine := m\<rparr>) a'"
  | m where "slot (snd a') k = None" "relay_step db s (Returned i k w reply j) out
      \<lparr>rl_pool = goto i Finishing (rl_pool s), rl_machine = m, rl_slot = (rl_slot s)(i := None)\<rparr>"
proof -
  have "machine_rep db (rl_machine s) a" using assms(1) by (simp add: relay_inv_def)
  from jobs.step_law [OF this assms(5)] assms(6) obtain m where
    m: "machine_step db (rl_machine s) (Turn k w reply) = ret (out, m)" "machine_rep db m a'" by auto
  have same: "slot (snd m) k = None \<longleftrightarrow> slot (snd a') k = None"
    using m(2) slot_rep [of "job_rep db" "snd m" "snd a'" k] by (auto simp: machine_rep_def)
  show ?thesis
  proof (cases "slot (snd m) k")
    case None
    with relay_step.returned [OF assms(2-4) m(1)] same that(2) show ?thesis by blast
  next
    case (Some job)
    then have "relay_inv db (s\<lparr>rl_machine := m\<rparr>) a'"
      using relay_inv_turn(1) [OF assms(1-4), of m w reply] m(2) assms(6) by simp
    with Some relay_step.called [OF assms(2-4) m(1)] same that(1) show ?thesis by auto
  qed
qed

text \<open>
  The limits of the program a task has to respect before its next call: the records found in the cache fit into the buffer of
  100 entries, the response made of them fits into the buffer it is written to, and a query to be forwarded has room for the OPT record.
  These concern the state alone.
\<close>

fun within_limits :: "database \<Rightarrow> entry list \<Rightarrow> task \<Rightarrow> bool" where
  "within_limits db es (Looking ar) \<longleftrightarrow> length (cached_records es ar) \<le> ANCOUNT_MAX \<and>
     (case known_records db es ar of None \<Rightarrow> True
      | Some rrs \<Rightarrow> has_room (ar_request ar) (local_response (ar_query ar) rrs))"
| "within_limits db es (Asking ar) \<longleftrightarrow> arcount (header (ar_query ar)) + 1 \<noteq> 0 \<and>
     length (enc_message (ar_query ar)) + 11 \<le> CLIENT_BUFFER_SIZE"
| "within_limits db es (Replying ar m rrs) \<longleftrightarrow> True"

text \<open>
  What a call may meet, whatever the state: an allocator that returns fresh blocks and, where the external resolver is asked, a socket,
  and either no reply or a plain message that fits into the buffers.
\<close>

fun expected :: "world \<Rightarrow> message option \<Rightarrow> task \<Rightarrow> bool" where
  "expected w reply (Looking ar) \<longleftrightarrow> fresh_alloc (alloc w)"
| "expected w reply (Asking ar) \<longleftrightarrow> fresh_alloc (alloc w) \<and> socket_ok (net w) \<and> option_ok (net w) \<and>
     reply_ok (net w) (ar_query ar) reply \<and>
     has_room (ar_request ar) (fst (upstream_answer (net w) (ar_query ar) reply))"
| "expected w reply (Replying ar m rrs) \<longleftrightarrow> fresh_alloc (alloc w)"

lemma expected_turn:
  assumes "slot tasks k = Some tsk" and "within_limits db es tsk" and "expected w reply tsk" and "job_rep db job tsk"
  shows "machine_event_ok db (es, tasks) (Turn k w reply)"
  using assms by (cases tsk) (simp_all add: forwardable_def arrival_ok_def plain_message_wf)

text \<open>A resolver that does not reply is always among the expected.\<close>

definition silent_world :: world where
  "silent_world = (sample_world 7)\<lparr>net := (net (sample_world 7))\<lparr>exchange := \<lambda>_. None\<rparr>\<rparr>"

lemma local_empty_room:
  assumes "standard_query query q ls"
  shows "has_room req (local_response query [])"
proof -
  have "length (enc_name ls) \<le> 255" using assms by (simp add: standard_query_def db_name_def)
  then have "length (enc_message (local_response query [])) \<le> 271" using assms
    by (simp add: standard_query_def enc_message_def enc_section_def section_items_def enc_question_def map_filter_simps
        local_response_def)
  then show ?thesis by (cases req) simp_all
qed

lemma expected_silent:
  assumes "job_rep db job tsk"
  shows "expected silent_world None tsk"
proof -
  have w: "fresh_alloc (alloc silent_world)" "socket_ok (net silent_world)" "option_ok (net silent_world)"
    using fresh_sample [of 7] forwardable_sample [of 7]
    by (simp_all add: silent_world_def forwardable_def)
  have "reply_ok (net silent_world) query None" for query by (simp add: reply_ok_def silent_world_def)
  with w assms local_empty_room show ?thesis by (cases tsk) (auto simp: upstream_answer_def arrival_ok_def)
qed

text \<open>
  What worker \<open>i\<close> can do next: change its place in the loop, start the job on any request it may work on, or make the
  next call, whatever expected environment it meets, and there is one.
\<close>

definition advances :: "database \<Rightarrow> relay \<Rightarrow> nat \<Rightarrow> bool" where
  "advances db s i \<longleftrightarrow> (\<exists>e s'. relay_step db s (Worker e) [] s' \<and> threads (rl_pool s') ! i \<noteq> threads (rl_pool s) ! i)"

definition calls_on :: "database \<Rightarrow> relay \<Rightarrow> nat \<Rightarrow> nat \<Rightarrow> dns_job \<Rightarrow> world \<Rightarrow> message option \<Rightarrow> bool" where
  "calls_on db s i k j w reply \<longleftrightarrow>
     (\<exists>out s'. relay_step db s (Called i k w reply) out s' \<or> relay_step db s (Returned i k w reply j) out s')"

definition moves :: "database \<Rightarrow> task option list \<Rightarrow> relay \<Rightarrow> nat \<Rightarrow> bool" where
  "moves db tasks s i \<longleftrightarrow> (case threads (rl_pool s) ! i of
     Working jo \<Rightarrow> (case rl_slot s i of
         None \<Rightarrow> \<exists>j. jo = Some j \<and>
           (\<forall>ar. works_on j (ar_request ar) \<longrightarrow> (\<exists>out s'. relay_step db s (Started i ar) out s'))
       | Some k \<Rightarrow> \<exists>j tsk. jo = Some j \<and> slot tasks k = Some tsk \<and> (\<exists>w reply. expected w reply tsk) \<and>
           (\<forall>w reply. expected w reply tsk \<longrightarrow> calls_on db s i k j w reply))
   | _ \<Rightarrow> advances db s i)"

lemma moves_worker:
  assumes "pool_step (rl_pool s) e p" and "e = Silent \<or> e = Pulled j" and "threads p ! i \<noteq> threads (rl_pool s) ! i"
    and "\<forall>jo. threads (rl_pool s) ! i \<noteq> Working jo"
  shows "moves db tasks s i"
proof -
  have "relay_step db s (Worker e) [] (s\<lparr>rl_pool := p\<rparr>)" using assms(1,2) by (rule relay_step.worker)
  then have "advances db s i" using assms(3) unfolding advances_def by fastforce
  with assms(4) show ?thesis by (auto simp: moves_def split: pc.split)
qed

lemma worker_moves:
  assumes "relay_inv db s a" and "pool_inv (rl_pool s)" and "i < length (threads (rl_pool s))"
    and "threads (rl_pool s) ! i \<noteq> Waiting" and "threads (rl_pool s) ! i \<noteq> Working None"
    and "\<forall>tsk. Some tsk \<in> set (snd a) \<longrightarrow> within_limits db (fst a) tsk"
  shows "moves db (snd a) s i"
proof (cases "threads (rl_pool s) ! i")
  case Pulling
  have q: "queue_inv (pool_queue (rl_pool s))" using assms(2) by (simp add: pool_inv_def)
  show ?thesis
  proof (cases "queue_abs (pool_queue (rl_pool s))")
    case Nil
    then have "pull_job (pool_queue (rl_pool s)) = ret None" using pull_job_spec(1) [OF q] by (simp only: list.case)
    from moves_worker [OF pool_step.sleep [OF assms(3) Pulling this]] Pulling assms(3) show ?thesis by simp
  next
    case (Cons j js)
    then have "pull_job (pool_queue (rl_pool s)) = ret (Some (j, queue_pop (pool_queue (rl_pool s))))"
      using pull_job_spec(1) [OF q] by simp
    from moves_worker [OF pool_step.pull [OF assms(3) Pulling this]] Pulling assms(3) show ?thesis by simp
  qed
next
  case (Fetched j)
  from moves_worker [OF pool_step.begin_job [OF assms(3) Fetched]] Fetched assms(3) show ?thesis
    by (simp add: thread_begin_def)
next
  case (Working jo)
  with assms(5) obtain j where j: "threads (rl_pool s) ! i = Working (Some j)" by auto
  show ?thesis
  proof (cases "rl_slot s i")
    case None
    have "\<exists>out s'. relay_step db s (Started i ar) out s'" if "works_on j (ar_request ar)" for ar
      using relay_step.started [OF assms(3) j None that] by (cases "rl_machine s") fastforce
    with j None show ?thesis by (simp add: moves_def)
  next
    case (Some k)
    with assms(1) have "attends s (snd a) i k" unfolding relay_inv_def by blast
    then obtain tsk where tsk: "slot (snd a) k = Some tsk" by (auto simp: attends_def)
    have "list_all2 (rel_option (job_rep db)) (snd (rl_machine s)) (snd a)" using assms(1) by (simp add: relay_inv_def machine_rep_def)
    from slot_rep [OF this, of k] tsk obtain job where job: "job_rep db job tsk" by (auto simp: option_rel_Some2)
    have limits: "within_limits db (fst a) tsk"
      using assms(6) tsk by (auto simp: slot_def in_set_conv_nth split: if_splits)
    have "calls_on db s i k j w reply" if "expected w reply tsk" for w reply
    proof -
      have "machine_event_ok db a (Turn k w reply)" using expected_turn [OF tsk limits that job] by simp
      from relay_turn [OF assms(1,3) j Some this surjective_pairing] show ?thesis unfolding calls_on_def by metis
    qed
    with j Some tsk expected_silent [OF job] show ?thesis by (auto simp: moves_def)
  qed
next
  case Finishing
  let ?t = "thread_end i (rl_pool s)"
  obtain t where t: "signal ?t t" using signal_total by blast
  define p where "p = (if n_threads_free ?t = n_threads ?t then t else ?t)"
  have "pool_step (rl_pool s) Silent p" using assms(3) Finishing t by (intro pool_step.end_job [of i]) (simp_all add: p_def)
  moreover have "threads ?t ! i = Pulling" "i < length (threads ?t)" using assms(3) by (simp_all add: thread_end_def)
  then have "threads p ! i = Pulling" using signal_other [OF t, of i] by (simp add: p_def)
  ultimately show ?thesis using Finishing by (intro moves_worker) auto
qed (use assms(4) in simp)

lemma in_hand_in_flight:
  assumes "i < length (threads s)"
  shows "in_hand (threads s ! i) \<subseteq># in_flight s"
proof -
  have "sum_list (map in_hand ((threads s)[i := Pulling])) + in_hand (threads s ! i) = in_flight s"
    using in_flight_update [OF assms, of Pulling] by (simp add: in_flight_def in_hand_def)
  then show ?thesis by (metis mset_subset_eq_add_right)
qed

lemma in_flight_awake:
  assumes "in_flight s \<noteq> {#}"
  shows "\<exists>i < length (threads s). threads s ! i \<noteq> Waiting"
proof (rule ccontr)
  assume "\<not> ?thesis"
  then have "\<forall>t \<in> set (threads s). in_hand t = {#}" by (auto simp: in_set_conv_nth in_hand_def)
  moreover have "sum_list (map in_hand ts) = {#}" if "\<forall>t \<in> set ts. in_hand t = {#}" for ts :: "'a pc list"
    using that by (induction ts) simp_all
  ultimately have "in_flight s = {#}" by (simp add: in_flight_def)
  with assms show False by simp
qed

text \<open>Requests can always be received.\<close>

lemma relay_receives:
  assumes "pool_inv (rl_pool s)" and "ev \<noteq> Not_ready"
  shows "\<exists>r s'. relay_step db s (Received ev r) [] s'"
proof -
  have "queue_inv (pool_queue (rl_pool s))" using assms(1) by (simp add: pool_inv_def)
  then obtain r p1 where add: "threadpool_add_job (rl_pool s) (udp_job ev) = ret (r, p1)" by (rule add_job_spec)
  moreover obtain p where "signal p1 p" using signal_total by blast
  ultimately show ?thesis using relay_step.received [of s ev p1 r p db] assms(2) responders_add(1) by fastforce
qed

text \<open>The pool never gets a null pointer.\<close>

lemma relay_run_jobs_some:
  "relay_run db s0 evs out s \<Longrightarrow> None \<notin> set (accepted (pool_events evs))"
proof (induction rule: relay_run.induct)
  case (relay_snoc evs outs s e out s')
  have "None \<notin> set (accepted (pool_event e))"
    using relay_snoc.hyps(2)
  proof cases
    case (received ev p1 r p)
    then show ?thesis by (cases ev) (auto simp: create_job_def)
  next
    case (worker x p j)
    then show ?thesis by auto
  qed (auto simp: tls_job_def create_job_def accepted_def)
  with relay_snoc.IH show ?case by (simp add: pool_events_def accepted_def)
qed (simp add: pool_events_def)

section \<open>Properties\<close>

lemma relay_run_counts:
  assumes "relay_run db (relay_start c) evs out s"
  shows "pool_run pool_init (pool_events evs) (rl_pool s)"
    and "mset (accepted (pool_events evs)) =
      mset (ran (pool_events evs)) + in_flight (rl_pool s) + mset (queue_abs (pool_queue (rl_pool s)))"
proof -
  show run: "pool_run pool_init (pool_events evs) (rl_pool s)"
    using relay_run_pool [OF assms] by (simp add: relay_start_def)
  show "mset (accepted (pool_events evs)) =
      mset (ran (pool_events evs)) + in_flight (rl_pool s) + mset (queue_abs (pool_queue (rl_pool s)))"
    using pool_run_queue [OF run] pool_run_flight [OF run] by simp
qed

text \<open>C2: the running server, in every interleaving of the receiving threads, the twelve workers and the refresh
  thread. Each accepted request is waiting in the queue, in the hands of one worker, or finished. The responses belong one to one and
  in their order to the finished jobs, each of which had an activation of its own; each response goes to the sender of the
  request of its activation and is made from that activation's own calls: from what the cache and the database held for its question
  at its first call or, if that was nothing, from the reply its own question to the external resolver got. The requests are plain
  queries with one question, with at most 100 cached records for it, responses that fit their buffers and plain replies
  (\<open>machine_event_ok\<close>).\<close>

theorem relay_answers_each_request:
  assumes "db_valid db" and "cache_rep c es" and "relay_run db (relay_start c) evs out s"
    and "all_ok (abstract_step db) (machine_event_ok db) (es, []) (job_events evs)"
  shows "mset (accepted (pool_events evs)) =
      mset (ran (pool_events evs)) + in_flight (rl_pool s) + mset (queue_abs (pool_queue (rl_pool s))) \<and>
    ran (pool_events evs) = map (\<lambda>(k, j). Some j) (finished evs) \<and> distinct (map fst (finished evs)) \<and>
    list_all2 (answers db es (job_events evs)) (finished evs) out"
  using relay_run_counts(2) [OF assms(3)] relay_run_inv [OF assms(3,1,2,4)] relay_run_finished [OF assms(3)] by blast

text \<open>A client asks, the first worker fetches the job and executes it.\<close>

definition sample_job :: dns_job where
  "sample_job = \<lparr>job_fun = Udp_resolv_and_respond, job_arg = udp_args [9] (enc_message sample_query)\<rparr>"

definition sample_events :: "relay_event list" where
  "sample_events = (let call = \<lambda>f. f 0 0 (sample_world 7) (Some sample_message) in
     [Received (Datagram [9] (enc_message sample_query)) 1, Worker (Pulled (Some sample_job)), Worker Silent,
      Started 0 (sample_arrival [9]), call Called, call Called, call Called,
      call (\<lambda>i k w reply. Returned i k w reply sample_job)])"

text \<open>At the start a datagram is received, fetched and begun by the first worker.\<close>

lemma first_received:
  assumes "udp_job (Datagram addr bs) = Some j"
  shows "\<exists>q. relay_step db (relay_start c) (Received (Datagram addr bs) 1) []
      ((relay_start c)\<lparr>rl_pool := pool_init\<lparr>pool_queue := q\<rparr>\<rparr>) \<and> queue_inv q \<and> queue_abs q = [Some j]"
proof -
  let ?p = "pool_init :: dns_job threadpool"
  have p: "queue_inv (pool_queue ?p)" "queue_abs (pool_queue ?p) = []" "threads ?p = replicate 12 Pulling"
    by (simp_all add: pool_init_def init_threadpool_def create_threads_ok queue_inv_init)
  have "length (queue_abs (pool_queue ?p)) < 128" by (subst p(2)) simp
  then obtain q where q: "queue_push (pool_queue ?p) (Some j) = ret (1, q)"
    "queue_abs q = queue_abs (pool_queue ?p) @ [Some j]" "queue_inv q"
    by (rule jq.push_room [OF p(1)])
  then have abs: "queue_abs q = [Some j]" by (simp only: p(2) append_Nil)
  have add: "threadpool_add_job ?p (Some j) = ret (1, ?p\<lparr>pool_queue := q\<rparr>)"
    using q(1) by (simp add: threadpool_add_job_def)
  have "udp_responder ?p (Datagram addr bs) = ret (?p\<lparr>pool_queue := q\<rparr>)"
    using responders_add(1) [of "Datagram addr bs" ?p] add assms by simp
  moreover have "signal (?p\<lparr>pool_queue := q\<rparr>) (?p\<lparr>pool_queue := q\<rparr>)" by (rule signal_none) (simp add: p)
  ultimately have "relay_step db (relay_start c) (Received (Datagram addr bs) 1) []
      ((relay_start c)\<lparr>rl_pool := ?p\<lparr>pool_queue := q\<rparr>\<rparr>)"
    using add assms by (intro relay_step.received [of _ _ "?p\<lparr>pool_queue := q\<rparr>"]) (simp_all add: relay_start_def)
  with q(3) abs show ?thesis by blast
qed

lemma first_fetched:
  assumes "udp_job (Datagram addr bs) = Some j"
  shows "\<exists>p. relay_run db (relay_start c) [Received (Datagram addr bs) 1, Worker (Pulled (Some j)), Worker Silent] []
      ((relay_start c)\<lparr>rl_pool := p\<rparr>) \<and> 0 < length (threads p) \<and> threads p ! 0 = Working (Some j)"
proof -
  let ?s = "\<lambda>p. (relay_start c)\<lparr>rl_pool := p\<rparr>"
  obtain q where q: "relay_step db (relay_start c) (Received (Datagram addr bs) 1) []
      (?s (pool_init\<lparr>pool_queue := q\<rparr>))" "queue_inv q" "queue_abs q = [Some j]" using first_received [OF assms] by blast
  define p1 where "p1 = (pool_init\<lparr>pool_queue := q\<rparr> :: dns_job threadpool)"
  have p1: "threads p1 = replicate 12 Pulling" "pool_queue p1 = q"
    by (simp_all add: p1_def pool_init_def init_threadpool_def create_threads_ok)
  have pull: "pull_job q = ret (Some (Some j, queue_pop q))" using pull_job_spec(1) [OF q(2)] by (simp only: q(3) list.case)
  define p2 where "p2 = goto 0 (Fetched (Some j)) (p1\<lparr>pool_queue := queue_pop q\<rparr>)"
  have "pool_step p1 (Pulled (Some j)) p2" unfolding p2_def using pull p1 by (intro pool_step.pull) simp_all
  moreover have p2: "0 < length (threads p2)" "threads p2 ! 0 = Fetched (Some j)" by (simp_all add: p2_def p1)
  then have "pool_step p2 Silent (thread_begin 0 (Some j) p2)" by (rule pool_step.begin_job)
  ultimately have steps: "relay_step db (?s p1) (Worker (Pulled (Some j))) [] (?s p2)"
    "relay_step db (?s p2) (Worker Silent) [] (?s (thread_begin 0 (Some j) p2))"
    using relay_step.worker [of "?s p1" "Pulled (Some j)" p2] relay_step.worker [of "?s p2" Silent "thread_begin 0 (Some j) p2"]
    by simp_all
  from relay_snoc [OF relay_snoc [OF relay_snoc [OF relay_nil q(1) [folded p1_def]] steps(1)] steps(2)] p2(1) show ?thesis
    by (intro exI [of _ "thread_begin 0 (Some j) p2"]) (simp add: thread_begin_def)
qed

text \<open>It then starts the job.\<close>

lemma first_started:
  assumes "udp_job (Datagram addr bs) = Some j" and "works_on j (ar_request ar)" and "arrival_ok db ar"
    and "db_valid db" and "cache_rep c es"
  shows "\<exists>s. relay_run db (relay_start c)
      [Received (Datagram addr bs) 1, Worker (Pulled (Some j)), Worker Silent, Started 0 ar] [] s \<and>
    relay_inv db s (es, [Some (Looking ar)]) \<and>
    0 < length (threads (rl_pool s)) \<and> threads (rl_pool s) ! 0 = Working (Some j) \<and> rl_slot s 0 = Some 0"
proof -
  from first_fetched [OF assms(1), of db c] obtain p where p: "relay_run db (relay_start c)
      [Received (Datagram addr bs) 1, Worker (Pulled (Some j)), Worker Silent] [] ((relay_start c)\<lparr>rl_pool := p\<rparr>)"
      "0 < length (threads p)" "threads p ! 0 = Working (Some j)" by blast
  define s3 where "s3 = (relay_start c)\<lparr>rl_pool := p\<rparr>"
  define s4 where "s4 = s3\<lparr>rl_machine := (c, [Some (job_calls db (ar_request ar))]),
    rl_slot := (rl_slot s3)(0 \<mapsto> length (snd (rl_machine s3)))\<rparr>"
  have s3: "rl_machine s3 = (c, [])" "rl_slot s3 = (\<lambda>_. None)" "rl_pool s3 = p"
    by (simp_all add: s3_def relay_start_def)
  have inv3: "relay_inv db s3 (es, [])"
    using machine_rep_start [OF assms(4,5)] by (simp add: relay_inv_def s3)
  have step: "relay_step db s3 (Started 0 ar) [] s4" unfolding s4_def
    using p(2,3) assms(2) by (intro relay_step.started [of _ _ j]) (simp_all add: s3)
  have "relay_inv db s4 (es, [Some (Looking ar)])" using relay_inv_step [OF step inv3] assms(3) by simp
  moreover have "rl_pool s4 = p" "rl_slot s4 0 = Some 0" by (simp_all add: s4_def s3)
  ultimately show ?thesis using relay_snoc [OF p(1) [folded s3_def] step] p(2,3) by (intro exI [of _ s4]) simp
qed

lemma relay_call:
  assumes "relay_run db s0 evs outs s" and "relay_inv db s a" and "0 < length (threads (rl_pool s)) \<and>
      threads (rl_pool s) ! 0 = Working (Some j) \<and> rl_slot s 0 = Some k"
    and "machine_event_ok db a (Turn k w reply)" and "abstract_step db a (Turn k w reply) = (out, a')"
  shows "slot (snd a') k \<noteq> None \<Longrightarrow> \<exists>s'. relay_run db s0 (evs @ [Called 0 k w reply]) (outs @ out) s' \<and> relay_inv db s' a' \<and>
      0 < length (threads (rl_pool s')) \<and> threads (rl_pool s') ! 0 = Working (Some j) \<and> rl_slot s' 0 = Some k"
    and "slot (snd a') k = None \<Longrightarrow> \<exists>s'. relay_run db s0 (evs @ [Returned 0 k w reply j]) (outs @ out) s'"
proof -
  note pc = assms(3) [THEN conjunct1] assms(3) [THEN conjunct2, THEN conjunct1] assms(3) [THEN conjunct2, THEN conjunct2]
  show "\<exists>s'. relay_run db s0 (evs @ [Called 0 k w reply]) (outs @ out) s' \<and> relay_inv db s' a' \<and>
      0 < length (threads (rl_pool s')) \<and> threads (rl_pool s') ! 0 = Working (Some j) \<and> rl_slot s' 0 = Some k"
    if "slot (snd a') k \<noteq> None"
  proof (rule relay_turn [OF assms(2) pc assms(4,5)])
    fix m assume "relay_step db s (Called 0 k w reply) out (s\<lparr>rl_machine := m\<rparr>)" "relay_inv db (s\<lparr>rl_machine := m\<rparr>) a'"
    with relay_snoc [OF assms(1)] assms(3) show ?thesis by (intro exI [of _ "s\<lparr>rl_machine := m\<rparr>"]) simp
  qed (use that in simp)
  show "\<exists>s'. relay_run db s0 (evs @ [Returned 0 k w reply j]) (outs @ out) s'" if "slot (snd a') k = None"
    by (rule relay_turn [OF assms(2) pc assms(4,5)]) (use that relay_snoc [OF assms(1)] in blast)+
qed

lemma sample_job: "udp_job (Datagram [9] (enc_message sample_query)) = Some sample_job"
  using sample_arrival_ok [of "[9]"] by (simp add: arrival_ok_def sample_arrival_def create_job_def sample_job_def)

lemma sample_relay_run:
  assumes "cache_rep c []"
  shows "\<exists>s. relay_run sample_db (relay_start c) sample_events [Sent_to [9] (enc_message (set_id 5 sample_message))] s"
proof -
  let ?ar = "sample_arrival [9]" and ?w = "sample_world 7" and ?r = "Some sample_message"
  let ?m = "set_id 5 sample_message" and ?at = "\<lambda>s. 0 < length (threads (rl_pool s)) \<and>
      threads (rl_pool s) ! 0 = Working (Some sample_job) \<and> rl_slot s 0 = Some (0 :: nat)"
  have "works_on sample_job (ar_request ?ar)" by (simp add: sample_arrival_def sample_job_def)
  from first_started [OF sample_job this sample_arrival_ok sample_db_ok(1) assms] obtain s4 where s4:
    "relay_run sample_db (relay_start c) (take 4 sample_events) [] s4"
    "relay_inv sample_db s4 ([], [Some (Looking ?ar)])" "?at s4" by (auto simp: sample_events_def Let_def)
  from relay_call(1) [OF s4, of ?w ?r "[]" "([], [Some (Asking ?ar)])"]
  obtain s5 where s5: "relay_run sample_db (relay_start c) (take 5 sample_events) [] s5"
    "relay_inv sample_db s5 ([], [Some (Asking ?ar)])" "?at s5"
    by (auto simp: slot_def fresh_sample sample_events_def Let_def)
  from relay_call(1) [OF s5, of ?w ?r "[]" "([], [Some (Replying ?ar ?m [sample_rr])])"]
  obtain s6 where s6: "relay_run sample_db (relay_start c) (take 6 sample_events) [] s6"
    "relay_inv sample_db s6 ([], [Some (Replying ?ar ?m [sample_rr])])" "?at s6"
    by (auto simp: slot_def fresh_sample sample_events_def Let_def sample_upstream forwardable_sample sample_reply_ok
      length_enc_set_id length_sample)
  from relay_call(1) [OF s6, of ?w ?r "[]" "([(sample_rr, 160)], [Some (Replying ?ar ?m [])])"]
  obtain s7 where s7: "relay_run sample_db (relay_start c) (take 7 sample_events) [] s7"
    "relay_inv sample_db s7 ([(sample_rr, 160)], [Some (Replying ?ar ?m [])])" "?at s7"
    by (auto simp: slot_def fresh_sample sample_events_def Let_def sample_puts)
  from relay_call(2) [OF s7, of ?w ?r "[Sent_to [9] (enc_message ?m)]" "([(sample_rr, 160)], [None])"] show ?thesis
    by (auto simp: slot_def fresh_sample sample_events_def Let_def)
qed

lemma sample_events_simps:
  "job_events sample_events = [Arrive (sample_arrival [9]), Turn 0 (sample_world 7) (Some sample_message),
     Turn 0 (sample_world 7) (Some sample_message), Turn 0 (sample_world 7) (Some sample_message),
     Turn 0 (sample_world 7) (Some sample_message)]"
  "accepted (pool_events sample_events) = [Some sample_job]" "ran (pool_events sample_events) = [Some sample_job]"
  "finished sample_events = [(0, sample_job)]"
  using sample_job
  by (simp_all add: sample_events_def job_events_def pool_events_def finished_def ran_def accepted_def del: udp_job.simps)

lemma sample_events_ok:
  "all_ok (abstract_step sample_db) (machine_event_ok sample_db) ([], []) (job_events sample_events)"
  by (simp add: sample_events_simps sample_run sample_arrival_ok length_enc_set_id length_sample fresh_sample
      forwardable_sample sample_reply_ok)

theorem relay_answers_each_request_witness:
  "\<exists>c s. cache_rep c [] \<and>
     relay_run sample_db (relay_start c) sample_events [Sent_to [9] (enc_message (set_id 5 sample_message))] s \<and>
     in_flight (rl_pool s) = {#} \<and> queue_abs (pool_queue (rl_pool s)) = [] \<and>
     answers sample_db [] (job_events sample_events) (0, sample_job) (Sent_to [9] (enc_message (set_id 5 sample_message)))"
proof -
  obtain c where c: "cache_rep c []" using init_cache_ok [of 0 100] by blast
  from sample_relay_run [OF c] obtain s where
    s: "relay_run sample_db (relay_start c) sample_events [Sent_to [9] (enc_message (set_id 5 sample_message))] s" by blast
  from relay_answers_each_request [OF sample_db_ok(1) c s sample_events_ok] c s show ?thesis
    by (intro exI [of _ c] exI [of _ s]) (simp add: sample_events_simps del: queue_abs_empty_iff)
qed

text \<open>C7: no worker of the running server faults or gets stuck, whatever the interleaving, as long as its tasks stay within the
  limits of the program: at most 100 cached records for the question, a local response that fits its buffer, room for the
  OPT record in a query to be forwarded. (Beyond the first limit the search of the cache overruns its buffer; see
  \<open>resolv_many_cached_overflows\<close>.) In such a state each worker that is not asleep can take its next step: with the next call of its job
  in every expected environment, and there is one; as long as a request is queued or being worked on, not all workers are asleep; and a
  datagram can be received at any time.\<close>

theorem relay_workers_move:
  assumes "db_valid db" and "cache_rep c es" and "relay_run db (relay_start c) evs out s"
    and "all_ok (abstract_step db) (machine_event_ok db) (es, []) (job_events evs)"
    and "snd (spec_steps (abstract_step db) (es, []) (job_events evs)) = (cached, tasks)"
    and "\<forall>tsk. Some tsk \<in> set tasks \<longrightarrow> within_limits db cached tsk"
  shows "(\<forall>i < length (threads (rl_pool s)). threads (rl_pool s) ! i \<noteq> Waiting \<longrightarrow> moves db tasks s i) \<and>
    (queue_abs (pool_queue (rl_pool s)) \<noteq> [] \<or> in_flight (rl_pool s) \<noteq> {#} \<longrightarrow>
      (\<exists>i < length (threads (rl_pool s)). threads (rl_pool s) ! i \<noteq> Waiting)) \<and>
    (\<forall>addr bs. \<exists>r s'. relay_step db s (Received (Datagram addr bs) r) [] s')"
proof -
  note counts = relay_run_counts [OF assms(3)]
  have inv: "pool_inv (rl_pool s)" using counts(1) by (rule pool_run_inv)
  have "None \<notin># mset (accepted (pool_events evs))" using relay_run_jobs_some [OF assms(3)] by simp
  then have none: "None \<notin># in_flight (rl_pool s)" unfolding counts(2) by simp
  have "moves db tasks s i"
    if "i < length (threads (rl_pool s))" "threads (rl_pool s) ! i \<noteq> Waiting" for i
  proof -
    have "threads (rl_pool s) ! i \<noteq> Working None"
      using none in_hand_in_flight [OF that(1)] by (auto simp: in_hand_def)
    moreover have "relay_inv db s (cached, tasks)" using relay_run_inv [OF assms(3,1,2,4)] assms(5) by simp
    ultimately show ?thesis using worker_moves [OF _ inv that, of db "(cached, tasks)"] assms(6) by simp
  qed
  moreover have "\<exists>i < length (threads (rl_pool s)). threads (rl_pool s) ! i \<noteq> Waiting" if "in_flight (rl_pool s) \<noteq> {#}"
    using in_flight_awake [OF that] .
  moreover have "\<exists>r s'. relay_step db s (Received (Datagram addr bs) r) [] s'" for addr bs
    by (rule relay_receives [OF inv]) simp
  ultimately show ?thesis using awake_worker [OF inv] by blast
qed

theorem relay_workers_move_witness:
  "\<exists>c s. cache_rep c [] \<and> relay_run sample_db (relay_start c) (take 4 sample_events) [] s \<and>
     threads (rl_pool s) ! 0 = Working (Some sample_job) \<and> rl_slot s 0 = Some 0 \<and>
     moves sample_db [Some (Looking (sample_arrival [9]))] s 0"
proof -
  let ?ar = "sample_arrival [9]"
  obtain c where c: "cache_rep c []" using init_cache_ok [of 0 100] by blast
  have "works_on sample_job (ar_request ?ar)" by (simp add: sample_arrival_def sample_job_def)
  from first_started [OF sample_job this sample_arrival_ok sample_db_ok(1) c] obtain s where s:
    "relay_run sample_db (relay_start c) (take 4 sample_events) [] s"
    "0 < length (threads (rl_pool s))" "threads (rl_pool s) ! 0 = Working (Some sample_job)" "rl_slot s 0 = Some 0"
    by (auto simp: sample_events_def Let_def)
  have jobs: "job_events (take 4 sample_events) = [Arrive ?ar]" by (simp add: sample_events_def job_events_def Let_def)
  have "moves sample_db [Some (Looking ?ar)] s 0"
    using relay_workers_move [OF sample_db_ok(1) c s(1), of "[]" "[Some (Looking ?ar)]"] sample_arrival_ok s(2,3)
    by (simp add: jobs)
  with c s show ?thesis by blast
qed

end
