(* ===== verification/Logging.thy ===== *)
theory Logging
  imports Message
begin

text \<open>
  The log (\<^verbatim>\<open>utils/logging.c\<close>) and the one function that formats a structure for it, \<^verbatim>\<open>print_msg_header\<close> of
  \<^verbatim>\<open>storage/message.c\<close>. The terminal is the text written so far to the standard output and to the error
  output. The conversions of \<^verbatim>\<open>printf\<close> that the sources use are written out; the local time is an argument. The other
  theories leave log calls out: they write to the terminal only.
\<close>

section \<open>Formatting\<close>

text \<open>What a conversion consumes: a number or a string.\<close>

datatype log_arg = Num nat | Neg nat | Txt string

definition digit :: "nat \<Rightarrow> char" where
  "digit d = ''0123456789abcdef'' ! d"

function digits :: "nat \<Rightarrow> nat \<Rightarrow> string" where
  "digits b n = (if b \<le> 1 \<or> n < b then [digit n] else digits b (n div b) @ [digit (n mod b)])"
  by pat_completeness auto
termination by (relation "measure snd") auto

declare digits.simps [simp del]

text \<open>\<^verbatim>\<open>%02x\<close> and \<^verbatim>\<open>%.2x\<close>: at least two digits.\<close>

definition pad2 :: "string \<Rightarrow> string" where
  "pad2 s = replicate (2 - length s) CHR ''0'' @ s"

datatype conversion = Decimal | Hexadecimal | Text

text \<open>The conversion behind a percent sign, and the rest of the format.\<close>

definition conversion :: "string \<Rightarrow> (conversion \<times> string) option" where
  "conversion cs =
     (if take 1 cs = ''d'' \<or> take 1 cs = ''u'' then Some (Decimal, drop 1 cs)
      else if take 2 cs = ''lu'' then Some (Decimal, drop 2 cs)
      else if take 3 cs = ''02x'' \<or> take 3 cs = ''.2x'' then Some (Hexadecimal, drop 3 cs)
      else if take 1 cs = ''s'' then Some (Text, drop 1 cs)
      else None)"

definition convert :: "conversion \<Rightarrow> log_arg \<Rightarrow> string run" where
  "convert cv a =
     (case (cv, a) of
        (Decimal, Num n) \<Rightarrow> ret (digits 10 n)
      | (Decimal, Neg n) \<Rightarrow> ret (CHR ''-'' # digits 10 n)
      | (Hexadecimal, Num n) \<Rightarrow> ret (pad2 (digits 16 n))
      | (Text, Txt s) \<Rightarrow> ret s
      | _ \<Rightarrow> fail Uninitialised)"

lemma conversion_shorter: "conversion cs = Some (cv, cs') \<Longrightarrow> length cs' \<le> length cs"
  by (auto simp: conversion_def split: if_splits)

text \<open>A missing or ill-typed argument and an unknown conversion are undefined in C.\<close>

function vprintf :: "string \<Rightarrow> log_arg list \<Rightarrow> string run" where
  "vprintf [] as = ret []"
| "vprintf (c # cs) as =
     (if c \<noteq> CHR ''%'' then bind_run (vprintf cs as) (\<lambda>s. ret (c # s))
      else case conversion cs of
        None \<Rightarrow> fail Uninitialised
      | Some (cv, cs') \<Rightarrow>
          (case as of
             [] \<Rightarrow> fail Uninitialised
           | a # as \<Rightarrow>
               bind_run (convert cv a) (\<lambda>s.
               bind_run (vprintf cs' as) (\<lambda>s'. ret (s @ s')))))"
  by pat_completeness auto
termination by (relation "measure (\<lambda>(cs, _). length cs)") (auto dest: conversion_shorter)

section \<open>The log\<close>

record terminal =
  out :: string
  err :: string

text \<open>Hours, minutes and seconds of the local time; \<^verbatim>\<open>%H:%M:%S\<close>.\<close>

type_synonym clock_time = "nat \<times> nat \<times> nat"

definition strftime :: "clock_time \<Rightarrow> string" where
  "strftime t = (case t of (h, m, s) \<Rightarrow>
     pad2 (digits 10 h) @ '':'' @ pad2 (digits 10 m) @ '':'' @ pad2 (digits 10 s))"

definition colour :: "string \<Rightarrow> string \<Rightarrow> string" where
  "colour code s = CHR 0x1B # ''['' @ code @ ''m'' @ s @ CHR 0x1B # ''[0m''"

definition log_info :: "bool \<Rightarrow> clock_time \<Rightarrow> string \<Rightarrow> log_arg list \<Rightarrow> terminal \<Rightarrow> (int \<times> terminal) run" where
  "log_info verbose t fmt as tm =
     (if \<not> verbose then ret (0, tm)
      else
        bind_run (vprintf fmt as) (\<lambda>s.
        ret (1, tm\<lparr>out := out tm @ ''['' @ colour ''0;32'' ''INF'' @ '' '' @ strftime t @ ''] '' @ s\<rparr>)))"

definition log_err :: "clock_time \<Rightarrow> string \<Rightarrow> log_arg list \<Rightarrow> terminal \<Rightarrow> terminal run" where
  "log_err t fmt as tm =
     bind_run (vprintf fmt as) (\<lambda>s.
     ret (tm\<lparr>err := err tm @ ''['' @ colour ''0;31'' ''ERR'' @ '' '' @ strftime t @ ''] '' @ s\<rparr>))"

fun print_bytes :: "mem \<Rightarrow> ptr \<Rightarrow> nat \<Rightarrow> string run" where
  "print_bytes m p 0 = ret []"
| "print_bytes m p (Suc k) =
     bind_run (rd8 m p) (\<lambda>b.
     bind_run (vprintf ''%.2x '' [Num (unat b)]) (\<lambda>s.
     bind_run (print_bytes m (p + 1) k) (\<lambda>s'. ret (s @ s'))))"

definition print_u8arr ::
  "bool \<Rightarrow> clock_time \<Rightarrow> string \<Rightarrow> string \<Rightarrow> mem \<Rightarrow> u32 \<Rightarrow> terminal \<Rightarrow> (int \<times> terminal) run"
where
  "print_u8arr verbose t filename func u8array len tm =
     (if \<not> verbose then ret (0, tm)
      else
        bind_run (print_bytes u8array 0 (unat len)) (\<lambda>s.
        ret (1, tm\<lparr>out := out tm @ ''['' @ filename @ ''::'' @ func @ '' '' @ strftime t @ ''] '' @ s @ [CHR 0x0A]\<rparr>)))"

definition print_msg_header :: "bool \<Rightarrow> clock_time \<Rightarrow> message_header \<Rightarrow> terminal \<Rightarrow> (int \<times> terminal) run" where
  "print_msg_header verbose t h tm =
     log_info verbose t
       (''id = %u, misc1 = 0x%02x, misc2 = 0x%02x, qdcount = %u, ancount = %u, nscount = %u, arcount = %u'' @ [CHR 0x0A])
       [Num (unat (msg_id h)), Num (unat (misc1 h)), Num (unat (misc2 h)), Num (unat (qdcount h)), Num (unat (ancount h)),
        Num (unat (nscount h)), Num (unat (arcount h))] tm"

section \<open>Numbers in the log\<close>

definition digit_value :: "char \<Rightarrow> nat" where
  "digit_value c = length (takeWhile (\<lambda>x. x \<noteq> c) ''0123456789abcdef'')"

lemma digit_value_digit:
  assumes "d < 16"
  shows "digit_value (digit d) = d"
proof -
  have "\<forall>d \<in> {..<16}. digit_value (digit d) = d"
    by (simp add: digit_value_def digit_def lessThan_Suc numeral_eq_Suc)
  with assms show ?thesis by simp
qed

fun number_value :: "nat \<Rightarrow> string \<Rightarrow> nat" where
  "number_value b s = foldl (\<lambda>n c. n * b + digit_value c) 0 s"

lemma number_value_digits: "1 < b \<Longrightarrow> b \<le> 16 \<Longrightarrow> number_value b (digits b n) = n"
proof (induction b n rule: digits.induct)
  case (1 b n)
  show ?case
  proof (cases "n < b")
    case True
    with 1 show ?thesis by (subst digits.simps) (simp add: digit_value_digit)
  next
    case False
    moreover have "n mod b < 16" using 1(2,3) by (meson less_le_trans mod_less_divisor not_gr0 not_less0 less_trans zero_less_one)
    ultimately show ?thesis using 1 by (subst digits.simps) (simp add: digit_value_digit)
  qed
qed

lemma digit_no_comma: "d < 16 \<Longrightarrow> digit d \<noteq> CHR '',''"
proof -
  have "\<forall>d \<in> {..<16}. digit d \<noteq> CHR '',''" by (simp add: digit_def lessThan_Suc numeral_eq_Suc)
  then show "d < 16 \<Longrightarrow> digit d \<noteq> CHR '',''" by simp
qed

lemma digits_no_comma: "1 < b \<Longrightarrow> b \<le> 16 \<Longrightarrow> CHR '','' \<notin> set (digits b n)"
proof (induction b n rule: digits.induct)
  case (1 b n)
  have "n mod b < 16" "n < b \<Longrightarrow> n < 16" using 1(2,3) mod_less_divisor [of b n] by linarith+
  with 1 digit_no_comma [symmetric] show ?case by (subst digits.simps) simp
qed

lemma number_value_pad2: "number_value b (pad2 s) = number_value b s"
proof -
  have "foldl (\<lambda>n c. n * b + digit_value c) 0 (replicate k CHR ''0'') = 0" for k
    by (induction k) (simp_all add: digit_value_def)
  then show ?thesis by (simp add: pad2_def)
qed

lemma digits_inject: "1 < b \<Longrightarrow> b \<le> 16 \<Longrightarrow> digits b m = digits b n \<Longrightarrow> m = n"
  by (metis number_value_digits)

lemma pad2_digits_inject: "pad2 (digits 16 m) = pad2 (digits 16 n) \<Longrightarrow> m = n"
  using number_value_pad2 [of 16] number_value_digits [of 16] by (metis le_refl numeral_One numeral_less_iff semiring_norm(76))

lemma printed_words:
  "digits 10 (unat v) = digits 10 (unat w) \<longleftrightarrow> v = w"
  "pad2 (digits 16 (unat v)) = pad2 (digits 16 (unat w)) \<longleftrightarrow> v = w"
  for v w :: "'a::len word"
  using digits_inject [of 10 "unat v" "unat w"] pad2_digits_inject [of "unat v" "unat w"] by (auto simp: word_unat_eq_iff)

lemma hex_byte:
  assumes "n < 256"
  shows "pad2 (digits 16 n) = [digit (n div 16), digit (n mod 16)]"
proof (cases "n < 16")
  case True
  then show ?thesis by (simp add: digits.simps pad2_def) (simp add: digit_def)
next
  case False
  moreover have "n div 16 < 16" using assms by (simp add: less_mult_imp_div_less)
  ultimately show ?thesis by (simp add: digits.simps [of _ n] digits.simps [of _ "n div 16"] pad2_def)
qed

text \<open>Reading a dump back: two digits and a blank for each byte.\<close>

fun undump :: "string \<Rightarrow> byte list" where
  "undump (c # d # _ # cs) = of_nat (16 * digit_value c + digit_value d) # undump cs"
| "undump cs = []"

lemma print_bytes_ok:
  "0 \<le> p \<Longrightarrow> p + int k \<le> int (length m) \<Longrightarrow>
     \<exists>s. print_bytes m p k = ret s \<and> undump s = take k (drop (nat p) m)"
proof (induction k arbitrary: p)
  case (Suc k)
  then have "0 \<le> p + 1" "p + 1 + int k \<le> int (length m)" by simp_all
  from Suc.IH [OF this] obtain s where
    s: "print_bytes m (p + 1) k = ret s" "undump s = take k (drop (nat (p + 1)) m)" by blast
  let ?b = "m ! nat p"
  have b: "rd8 m p = ret ?b" "drop (nat p) m = ?b # drop (nat (p + 1)) m"
    using Suc.prems by (simp_all add: rd8_def nat_add_distrib Cons_nth_drop_Suc)
  have u: "unat ?b < 256" using unsigned_less [of ?b, where ?'a = nat] by simp
  then have fmt: "vprintf ''%.2x '' [Num (unat ?b)] = ret ([digit (unat ?b div 16), digit (unat ?b mod 16)] @ '' '')"
    by (simp add: conversion_def convert_def hex_byte)
  have "unat ?b div 16 < 16" using u by (simp add: less_mult_imp_div_less)
  then have "of_nat (16 * digit_value (digit (unat ?b div 16)) + digit_value (digit (unat ?b mod 16))) = ?b"
    by (simp only: digit_value_digit mod_less_divisor zero_less_numeral mult_div_mod_eq of_nat_unat) simp
  with s b fmt show ?case by simp
qed simp

section \<open>Lines of the log\<close>

lemma cut_at:
  assumes "xs @ c # r = ys @ c # r'" and "c \<notin> set xs" and "c \<notin> set ys"
  shows "xs = ys \<and> r = r'"
  using assms by (induction xs arbitrary: ys) (auto simp: append_eq_Cons_conv Cons_eq_append_conv)

lemmas format_simps = conversion_def convert_def

lemma print_msg_header_line:
  "print_msg_header True t h tm = ret (1, tm\<lparr>out := out tm @ ''['' @ colour ''0;32'' ''INF'' @ '' '' @ strftime t @ ''] id = '' @
     digits 10 (unat (msg_id h)) @ '', misc1 = 0x'' @ pad2 (digits 16 (unat (misc1 h))) @ '', misc2 = 0x'' @
     pad2 (digits 16 (unat (misc2 h))) @ '', qdcount = '' @ digits 10 (unat (qdcount h)) @ '', ancount = '' @
     digits 10 (unat (ancount h)) @ '', nscount = '' @ digits 10 (unat (nscount h)) @ '', arcount = '' @
     digits 10 (unat (arcount h)) @ [CHR 0x0A]\<rparr>)"
  by (simp add: print_msg_header_def log_info_def format_simps)

lemma print_bytes_overread: "length m < n + k \<Longrightarrow> n \<le> length m \<Longrightarrow> print_bytes m (int n) k = fail OutOfBounds"
proof (induction k arbitrary: n)
  case (Suc k)
  show ?case
  proof (cases "n < length m")
    case True
    with Suc.IH [of "Suc n"] Suc.prems have "print_bytes m (int n + 1) k = fail OutOfBounds" by (simp add: add.commute)
    with True show ?thesis by (simp add: rd8_def format_simps)
  qed (use Suc.prems in \<open>simp add: rd8_def\<close>)
qed simp

section \<open>Properties\<close>

text \<open>C40: with the option \<^verbatim>\<open>-v\<close>, \<^verbatim>\<open>PRINT_U8ARR\<close> writes one line from which exactly the bytes of the array can be read back, and
  reads past the array when the length is too large; without the option it writes nothing.\<close>

theorem hex_dump_roundtrip:
  "print_u8arr False t filename func u8array len tm = ret (0, tm) \<and>
   (if unat len \<le> length u8array then
      \<exists>s. print_u8arr True t filename func u8array len tm =
          ret (1, tm\<lparr>out := out tm @ ''['' @ filename @ ''::'' @ func @ '' '' @ strftime t @ ''] '' @ s @ [CHR 0x0A]\<rparr>) \<and>
        undump s = take (unat len) u8array
    else print_u8arr True t filename func u8array len tm = fail OutOfBounds)"
proof (cases "unat len \<le> length u8array")
  case True
  then have "0 + int (unat len) \<le> int (length u8array)" by (simp only: add_0 of_nat_le_iff)
  from print_bytes_ok [OF order_refl this] True show ?thesis by (auto simp: print_u8arr_def)
next
  case False
  with print_bytes_overread [of u8array 0 "unat len"] show ?thesis by (simp add: print_u8arr_def)
qed

text \<open>The line that \<^verbatim>\<open>print_msg_header\<close> logs determines the header.\<close>

lemma header_line_determines:
  assumes "print_msg_header True t h tm = print_msg_header True t h' tm"
  shows "h = h'"
proof -
  have no: "CHR '','' \<notin> set (digits 10 n)" "CHR '','' \<notin> set (pad2 (digits 16 n))" for n
    using digits_no_comma [of 10 n] digits_no_comma [of 16 n] by (simp_all add: pad2_def)
  from assms have "digits 10 (unat (msg_id h)) @ '', misc1 = 0x'' @ pad2 (digits 16 (unat (misc1 h))) @ '', misc2 = 0x'' @
     pad2 (digits 16 (unat (misc2 h))) @ '', qdcount = '' @ digits 10 (unat (qdcount h)) @ '', ancount = '' @
     digits 10 (unat (ancount h)) @ '', nscount = '' @ digits 10 (unat (nscount h)) @ '', arcount = '' @
     digits 10 (unat (arcount h)) @ [CHR 0x0A] =
    digits 10 (unat (msg_id h')) @ '', misc1 = 0x'' @ pad2 (digits 16 (unat (misc1 h'))) @ '', misc2 = 0x'' @
     pad2 (digits 16 (unat (misc2 h'))) @ '', qdcount = '' @ digits 10 (unat (qdcount h')) @ '', ancount = '' @
     digits 10 (unat (ancount h')) @ '', nscount = '' @ digits 10 (unat (nscount h')) @ '', arcount = '' @
     digits 10 (unat (arcount h')) @ [CHR 0x0A]"
    unfolding print_msg_header_line by (auto dest: arg_cong [where f = out])
  then have "digits 10 (unat (msg_id h)) = digits 10 (unat (msg_id h'))"
    "pad2 (digits 16 (unat (misc1 h))) = pad2 (digits 16 (unat (misc1 h')))"
    "pad2 (digits 16 (unat (misc2 h))) = pad2 (digits 16 (unat (misc2 h')))"
    "digits 10 (unat (qdcount h)) = digits 10 (unat (qdcount h'))"
    "digits 10 (unat (ancount h)) = digits 10 (unat (ancount h'))"
    "digits 10 (unat (nscount h)) = digits 10 (unat (nscount h'))"
    "digits 10 (unat (arcount h)) = digits 10 (unat (arcount h'))"
    by (auto dest!: cut_at simp: no)
  then show ?thesis
    by (intro message_header.equality) (simp_all add: printed_words)
qed

end
