(* ===== verification/Spec2Isabelle.thy ===== *)
theory Spec2Isabelle
  imports Startup Relay Logging
begin

text \<open>
  Verification of the DNS relay \<^verbatim>\<open>baka_dns\<close> (C sources under \<^verbatim>\<open>src/src\<close>).

  \<^bold>\<open>The program.\<close> \<^verbatim>\<open>main\<close> reads the command line, loads a relay file into a database, starts the record cache
  and a thread pool, and then a UDP and optionally a TLS server. Each datagram or TLS connection
  becomes a job. A job parses the request, answers its questions from the cache, else from the
  database, else by asking an external resolver, and sends the response.

  \<^bold>\<open>Conventions.\<close> A C computation is a value of type \<open>run\<close> (theory \<open>Dns_Prelude\<close>): it returns, it runs into a
  fault (access outside a block, null pointer, freed block, uninitialised object, end of the
  thread), or it never returns. Machine integers are words of their width. A memory block is a list
  of bytes, a pointer into it an integer offset; reads and writes are bounds-checked. A pointer that
  may be null is an option. Global state (cache, database, pool) is passed explicitly. What the
  code cannot control is an argument: time, addresses from \<^verbatim>\<open>malloc\<close>, random numbers, sockets, the
  replies of the external resolver, OpenSSL, files, the calls of \<^verbatim>\<open>argp\<close>. The host is little-endian.
  Loops whose end is not evident are \<open>partial_function (option)\<close>; the theorems about them show that
  they return (or that they do not), so no fuel is used anywhere.

  \<^bold>\<open>Theories and sources.\<close>
  \<^item> \<open>Dns_Prelude\<close>: computations, memory, byte order, C string functions, shared automation.
  \<^item> \<open>Domain_Names\<close> (\<^verbatim>\<open>storage/message.c\<close>: \<^verbatim>\<open>domain_len\<close>, \<^verbatim>\<open>read_domain\<close>, \<^verbatim>\<open>domain_rev\<close>): the reader of compressed names
    stores the names that RFC 1035 describes (\<open>rfc_name\<close>) if their label bytes are below 0xC0, and takes other label bytes for
    pointers; every call ends, with a result or a fault, exactly when no pointers lead to each other without an end; reversal
    reverses the labels.
  \<^item> \<open>Message\<close>, \<open>Message_Codec\<close>, \<open>Message_Props\<close> (\<^verbatim>\<open>storage/message.c\<close>, \<^verbatim>\<open>storage/message.h\<close>): structures, flag
    bits, parser, serialiser, copies, release, comparison. The locales \<open>item_writer\<close> and \<open>item_reader\<close> state
    what a section needs of its items and are interpreted for questions and records. Writing gives the
    wire format, reading inverts it, accepted packets are well-formed.
  \<^item> \<open>Job_Queue\<close>, \<open>Threadpool\<close> (\<^verbatim>\<open>utils/threadpool.c\<close>): the circular array implements the locale \<open>fifo\<close>; the pool is
    a step relation over program counters, with invariants for all interleavings.
  \<^item> \<open>Cache\<close> (\<^verbatim>\<open>storage/cache.c\<close>): the doubly linked list in a heap implements the locale \<open>record_cache\<close>, whose
    specification is a list of records with expiry times.
  \<^item> \<open>Trees\<close>, \<open>Trees_Refinement\<close>, \<open>Trees_Map\<close> (\<^verbatim>\<open>storage/trees.c\<close>): the bucket tree implements the locale \<open>rr_store\<close>, a
    map from names and record kinds to lists of records.
  \<^item> \<open>Database\<close>, \<open>Database_Props\<close> (\<^verbatim>\<open>storage/database.c\<close>, \<^verbatim>\<open>utils/utils.c\<close>): loading a relay file, insertion, selection.
  \<^item> \<open>Client\<close> (\<^verbatim>\<open>socket/client.c\<close>): \<^verbatim>\<open>send_question\<close>.
  \<^item> \<open>Resolv\<close>, \<open>Resolv_Props\<close> (\<^verbatim>\<open>socket/resolv.c\<close>): \<^verbatim>\<open>resolv_handle\<close>, with the records that answer a question described
    by \<open>local_records\<close>.
  \<^item> \<open>Server\<close>, \<open>Server_Props\<close> (\<^verbatim>\<open>socket/server.c\<close>): the two jobs, the rounds of the responder loops, and
    the set-up of sockets and contexts.
  \<^item> \<open>Service\<close>: any sequence of UDP queries and cache refreshes refines an abstract server (locale \<open>simulation\<close>).
  \<^item> \<open>Job_Calls\<close> (\<^verbatim>\<open>socket/resolv.c\<close>, \<^verbatim>\<open>socket/server.c\<close>): the two jobs again, as trees of their calls of the shared
    cache and of the external resolver; run without other threads they are the jobs of \<open>Server\<close>.
  \<^item> \<open>Interleaving\<close>: UDP and TLS jobs and the refresh thread in every interleaving of their calls refine a machine
    of abstract tasks (locale \<open>simulation\<close> again); the history of each activation, its calls and what they met, determines
    its answer (\<open>own_answer\<close>).
  \<^item> \<open>Relay\<close> (\<^verbatim>\<open>utils/threadpool.c\<close>, \<^verbatim>\<open>socket/server.c\<close>): the running server, whose receiving threads fill the queue and whose
    workers execute the interleaved jobs; it projects to the pool and to the interleaving, each finished job has an activation of its
    own and one response, made from the own calls of that activation, and within the limits of the program no worker faults.
  \<^item> \<open>Logging\<close> (\<^verbatim>\<open>utils/logging.c\<close>, \<^verbatim>\<open>print_msg_header\<close> of \<^verbatim>\<open>storage/message.c\<close>): the lines and hex dumps of the log.
  \<^item> \<open>Startup\<close> (\<^verbatim>\<open>utils/conf.c\<close>, \<^verbatim>\<open>main.c\<close>): options, order of initialisation.
  \<^item> this theory: properties that span the components, from the command line and the relay file to the responses of
    the running server.

  \<^bold>\<open>What is shown.\<close> For well-formed inputs the components do what they mean to: a name of the relay file is
  answered with its records, a forwarded answer is cached and returned again, messages survive
  serialisation, every job runs exactly once, interleaved jobs answer with what the
  shared cache held at their own search of it or with the reply to their own question, the linked list, the tree and the queue implement their
  abstract counterparts without faults. For other inputs the theorems pin down what happens
  instead: buffers that overflow, loops that do not end, null pointers that are followed and names that are
  released twice.

  \<^bold>\<open>Bounds.\<close> The buffer sizes are those of the sources. Hypotheses such as a message below 2^31 bytes
  only exclude overflow of the C \<^verbatim>\<open>int\<close> that holds a size, which no buffer of the program allows.

  \<^bold>\<open>Not modelled.\<close> The calls of \<^verbatim>\<open>socket/server.c\<close> that only initialise or release OpenSSL objects. The functions of
  the log are modelled, but the other components leave their log calls out: these write to the terminal and
  change nothing else. One of them, at the end of \<^verbatim>\<open>msg_rr_from_buf\<close>, prints the record data as a string under \<^verbatim>\<open>-v\<close> although it is not
  terminated and reads past its end; this over-read is not in the model of the parser. A cached record whose copy failed because its name is too long keeps its
  contents here; in the code its blocks are shared with the message that is released.
\<close>

section \<open>From the relay file to the answer\<close>

text \<open>The database holds what the file lists, and the addresses a file lists for a name and a question type.\<close>

definition holds_file :: "database \<Rightarrow> relay_entry list \<Rightarrow> bool" where
  "holds_file db es \<longleftrightarrow> relay_db db \<and> (\<forall>ls. \<forall>e \<in> {RR_ARR_A, RR_ARR_AAAA}. db_lookup db ls e = relay_spec es e ls)"

definition file_addresses :: "relay_entry list \<Rightarrow> u16 \<Rightarrow> label list \<Rightarrow> resource_record list" where
  "file_addresses es t ls = (if t = RRTYPE_A then relay_spec es RR_ARR_A ls
     else if t = RRTYPE_AAAA then relay_spec es RR_ARR_AAAA ls else [])"

lemma file_addresses_index:
  assumes "file_addresses es t ls \<noteq> []"
  obtains e where "element_index t = Some e" "e \<in> {RR_ARR_A, RR_ARR_AAAA}" "file_addresses es t ls = relay_spec es e ls"
  using assms that [of RR_ARR_A] that [of RR_ARR_AAAA]
  by (auto simp: file_addresses_def element_index_def split: if_splits)

lemma file_known_addresses:
  assumes "holds_file db es" and "file_addresses es t ls \<noteq> []"
  shows "known_addresses db ls t"
proof -
  from assms(2) obtain e where e: "element_index t = Some e" "e \<in> {RR_ARR_A, RR_ARR_AAAA}" by (rule file_addresses_index)
  have db: "relay_db db" using assms(1) by (simp add: holds_file_def)
  have "has_address x" if "x \<in> set (db_lookup db ls e)" for x
  proof -
    have "wf_rr x" using that db db_lookup_wf(1) [OF _ e(1), of db ls] by (auto simp: relay_db_def)
    moreover have "rdlength x = 4 \<or> rdlength x = 16" using that db e(2) by (auto simp: relay_db_def)
    ultimately show ?thesis by (cases "rdata x") (auto simp: wf_rr_def has_address_def)
  qed
  with e(1) show ?thesis by (simp add: known_addresses_def)
qed

lemma file_local_records:
  assumes "holds_file db es" and "file_addresses es t ls \<noteq> []"
  shows "local_records db cached ls t cl = Some (if spec_find (enc_name ls) t cl cached \<noteq> [] then spec_find (enc_name ls) t cl cached
     else if \<exists>x \<in> set (file_addresses es t ls). blocked x then [] else file_addresses es t ls)"
proof -
  from assms(2) obtain e where e: "element_index t = Some e" "e \<in> {RR_ARR_A, RR_ARR_AAAA}"
    "file_addresses es t ls = relay_spec es e ls" by (rule file_addresses_index)
  have "db_lookup db ls e = file_addresses es t ls" using assms(1) e(2,3) unfolding holds_file_def by metis
  with e(1) assms(2) show ?thesis by (simp add: local_records_def)
qed

section \<open>The started server\<close>

text \<open>The records for a listed name: those in the cache, if there are any, else those of the file, none when one is blocked.\<close>

definition file_records :: "relay_entry list \<Rightarrow> entry list \<Rightarrow> arrival \<Rightarrow> resource_record list" where
  "file_records es cached ar = (let rrs = file_addresses es (qtype (ar_question ar)) (ar_labels ar) in
     if cached_records cached ar \<noteq> [] then cached_records cached ar else if \<exists>x \<in> set rrs. blocked x then [] else rrs)"

definition listed :: "relay_entry list \<Rightarrow> arrival \<Rightarrow> bool" where
  "listed es ar \<longleftrightarrow> file_addresses es (qtype (ar_question ar)) (ar_labels ar) \<noteq> []"

lemma listed_known:
  assumes "holds_file db es" and "listed es ar"
  shows "known_records db cached ar = Some (file_records es cached ar)"
  using file_local_records [OF assms(1)] assms(2)
  by (simp add: known_records_def listed_def file_records_def cached_records_def Let_def)

text \<open>
  The query, the question and the labels of an expected arrival are determined by its request, so what is said of them below is said of
  the bytes that were received.
\<close>

lemma unat_of_nat_byte: "n < 256 \<Longrightarrow> unat (of_nat n :: byte) = n"
  by (simp add: unat_of_nat)

lemma enc_labels_inject:
  "enc_labels ls @ [0] = enc_labels ks @ [0] \<Longrightarrow> \<forall>l \<in> set ls \<union> set ks. wf_lab l \<Longrightarrow> ls = ks"
proof (induction ls arbitrary: ks)
  case Nil
  then show ?case by (cases ks) (auto simp: enc_label_def wf_lab_def)
next
  case (Cons l ls)
  then obtain k ks' where ks: "ks = k # ks'" by (cases ks) (auto simp: enc_label_def wf_lab_def)
  have "(of_nat (length l) :: byte) = of_nat (length k)" using Cons.prems(1) by (simp add: ks enc_label_def)
  moreover have "length l < 256" "length k < 256" using Cons.prems(2) by (auto simp: ks wf_lab_def)
  ultimately have "length l = length k" by (metis unat_of_nat_byte)
  with Cons.prems(1) have "l = k" "enc_labels ls @ [0] = enc_labels ks' @ [0]" by (simp_all add: ks enc_label_def)
  with Cons.IH [of ks'] Cons.prems(2) show ?case by (simp add: ks)
qed

lemma enc_message_inject:
  assumes "plain_message m" and "plain_message m'" and "enc_message m = enc_message m'"
  shows "m = m'"
proof -
  have "holds_at (enc_message m) 0 (enc_message m)" by simp
  with message_from_buf_reads [OF assms(1), of "enc_message m" 12] message_from_buf_reads [OF assms(2), of "enc_message m" 12] assms(3)
  show ?thesis by simp
qed

lemma carries_same:
  assumes "carries req query" and "carries req query'"
  shows "enc_message query = enc_message query'"
proof (cases req)
  case (Udp_request args)
  then have "udp_args (cliaddr args) (enc_message query) = udp_args (cliaddr args) (enc_message query')"
    using assms by (metis carries.simps(1))
  then show ?thesis by (auto simp: udp_args_def append_eq_append_conv)
next
  case (Tls_request fd ssl)
  then have req: "tls_request ssl (enc_message query)" "tls_request ssl (enc_message query')" using assms by simp_all
  have len: "unat (of_nat (length bs) :: u16) = length bs" "length bs \<le> TLS_BUFFER_SIZE" if "tls_request ssl bs" for bs
    using that by (simp_all add: tls_request_def unat_of_nat)
  have "be16 (of_nat (length (enc_message query))) = be16 (of_nat (length (enc_message query')))"
    using req by (simp add: tls_request_def)
  then have "length (enc_message query) = length (enc_message query')" using len [OF req(1)] len [OF req(2)] by (metis be16_read)
  moreover from this tls_request_read [OF req(1)] tls_request_read [OF req(2)]
  have "overlay (replicate TLS_BUFFER_SIZE 0) 0 (enc_message query) = overlay (replicate TLS_BUFFER_SIZE 0) 0 (enc_message query')"
    by auto
  ultimately show ?thesis using take_overlay_all len(2) [OF req(1)] len(2) [OF req(2)] by (metis length_replicate)
qed

lemma arrival_determined:
  assumes "arrival_ok db ar" and "arrival_ok db ar'" and "ar_request ar = ar_request ar'"
  shows "ar = ar'"
proof -
  have ok: "carries (ar_request ar) (ar_query ar)" "plain_message (ar_query ar)"
      "standard_query (ar_query ar) (ar_question ar) (ar_labels ar)"
    "carries (ar_request ar) (ar_query ar')" "plain_message (ar_query ar')"
      "standard_query (ar_query ar') (ar_question ar') (ar_labels ar')"
    using assms by (simp_all add: arrival_ok_def)
  have query: "ar_query ar = ar_query ar'" using carries_same [OF ok(1,4)] enc_message_inject [OF ok(2,5)] by blast
  with ok(3,6) have q: "ar_question ar = ar_question ar'" by (simp add: standard_query_def)
  with ok(3,6) have "enc_name (ar_labels ar) = enc_name (ar_labels ar')" by (simp add: standard_query_def)
  moreover have "\<forall>l \<in> set (ar_labels ar) \<union> set (ar_labels ar'). wf_lab l"
    using ok(3,6) by (auto simp: standard_query_def db_name_def)
  ultimately have "ar_labels ar = ar_labels ar'" by (intro enc_labels_inject) (simp_all add: enc_name_def)
  with assms(3) query q show ?thesis by simp
qed

text \<open>
  The response of activation \<open>k\<close> of job \<open>j\<close> on a database loaded from the file: as \<open>answers\<close> says, and if the query of this
  activation asks for the addresses of a listed name, the message is the local response with the records that the cache at the first call
  of this activation, or else the file, has for it.
\<close>

definition serves :: "database \<Rightarrow> relay_entry list \<Rightarrow> machine_event list \<Rightarrow> nat \<times> dns_job \<Rightarrow> delivery \<Rightarrow> bool" where
  "serves db es evs = (\<lambda>(k, j) d. answers db [] evs (k, j) d \<and>
     (listed es (arrivals evs ! k) \<longrightarrow>
       (\<exists>before w reply. calls_of k evs \<noteq> [] \<and> hd (calls_of k evs) = (before, w, reply) \<and>
          d = deliver (ar_request (arrivals evs ! k)) (local_response (ar_query (arrivals evs ! k))
            (file_records es (cache_before db [] before) (arrivals evs ! k))))))"

lemma answers_serves:
  assumes "holds_file db es" and "answers db [] evs kj d"
  shows "serves db es evs kj d"
proof -
  obtain k j where kj: "kj = (k, j)" by (cases kj)
  let ?ar = "arrivals evs ! k"
  from assms(2) kj obtain m where m: "own_answer db [] evs k = Some m" "d = deliver (ar_request ?ar) m"
    by (auto simp: answers_def)
  have "\<exists>before w reply. calls_of k evs \<noteq> [] \<and> hd (calls_of k evs) = (before, w, reply) \<and>
      m = local_response (ar_query ?ar) (file_records es (cache_before db [] before) ?ar)" if "listed es ?ar"
    using m(1) listed_known [OF assms(1) that] by (auto simp: own_answer_def Let_def split: list.splits)
  with assms(2) m(2) kj show ?thesis by (auto simp: serves_def)
qed

definition running :: "server \<Rightarrow> relay" where
  "running srv = \<lparr>rl_pool = srv_pool srv, rl_machine = (srv_cache srv, []), rl_slot = (\<lambda>_. None)\<rparr>"

lemma init_storage_pool:
  assumes "init_storage env calls = ret (Some srv)" and "\<forall>i. thread_create env i = 0"
  shows "srv_pool srv = pool_init"
proof -
  have "thread_create env = (\<lambda>_. 0)" using assms(2) by auto
  with assms(1) show ?thesis
    by (auto simp: init_storage_def pool_init_def case_prod_unfold Let_def split: if_splits)
qed

lemma main_ok:
  assumes "relay_file es lines" and "buffers_ok (stack env)" and "files env default_relay_file = Some lines"
    and "\<forall>i. thread_create env i = 0" and "0 \<le> sys_socket (sys env)" and "0 \<le> sys_bind (sys env) (udp_port env)"
  obtains srv where "main env [] = ret (Some (srv, [\<lparr>ra_fd = sys_socket (sys env), ra_tls = False\<rparr>]))"
    "holds_file (srv_db srv) es" "cache_rep (srv_cache srv) []"
    "running srv = relay_start (srv_cache srv)"
proof -
  from init_storage_ok [OF assms(1-4)] obtain srv where srv: "init_storage env [] = ret (Some srv)"
    "relay_db (srv_db srv)" "cache_rep (srv_cache srv) []" "dot_enable (srv_conf srv) = 0"
    "\<forall>ls. \<forall>e \<in> {RR_ARR_A, RR_ARR_AAAA}. db_lookup (srv_db srv) ls e = relay_spec es e ls" by blast
  moreover have "main env [] = ret (Some (srv, [\<lparr>ra_fd = sys_socket (sys env), ra_tls = False\<rparr>]))"
    using srv(1,4) assms(5,6)
    by (simp add: main_def start_udp_server_def create_socket_def create_responder_args_def)
  moreover have "srv_pool srv = pool_init"
    using srv(1) assms(4) init_storage_pool by blast
  ultimately show ?thesis by (intro that [of srv]) (simp_all add: running_def relay_start_def holds_file_def)
qed

section \<open>A forwarded answer is cached\<close>

lemma spec_find_put:
  assumes "spec_find nm t cl es = []" and "matches nm t cl rr"
  shows "spec_find nm t cl (spec_put i rr es) = [rr]"
proof -
  have "\<not> same_rr (fst e) rr" if "e \<in> set es" for e
  proof
    assume "same_rr (fst e) rr"
    with assms(2) have "matches nm t cl (fst e)" by (simp add: matches_def same_rr_def)
    with that assms(1) show False by (auto simp: spec_find_def filter_empty_conv)
  qed
  then have "split_entry rr es = None" by (simp add: split_entry_None)
  with assms show ?thesis by (simp add: spec_put_def spec_find_def)
qed

section \<open>Properties\<close>

text \<open>C5: the whole path of a relayed name. Started without options on a relay file of well-formed lines (an IPv4 or IPv6
  address, white space, a host name, white space up to the end of the line), the UDP server alone comes up, and a plain UDP query with one
  question, for the A or the AAAA records of a name of the file, is answered with exactly the records the file lists for it (at most four
  of a kind, without repetitions), or without records when one of these addresses begins with four zero bytes, as 0.0.0.0 does. Query and
  response fit into a datagram of the server.\<close>

theorem relay_file_answered:
  assumes "relay_file es lines" and "buffers_ok (stack env)" and "files env default_relay_file = Some lines"
    and "\<forall>i. thread_create env i = 0" and "fresh_alloc (alloc w)"
    and "0 \<le> sys_socket (sys env)" and "0 \<le> sys_bind (sys env) (udp_port env)"
    and "standard_query query q ls" and "plain_message query" and "file_addresses es (qtype q) ls \<noteq> []"
    and "rrs = (if \<exists>x \<in> set (file_addresses es (qtype q) ls). blocked x then [] else file_addresses es (qtype q) ls)"
    and "length (enc_message query) \<le> UDP_BUFFER_SIZE"
    and "length (enc_message (local_response query rrs)) \<le> UDP_BUFFER_SIZE"
  shows "\<exists>srv c'. main env [] = ret (Some (srv, [\<lparr>ra_fd = sys_socket (sys env), ra_tls = False\<rparr>])) \<and>
    udp_resolv_and_respond w (srv_db srv) (srv_cache srv) (udp_args addr (enc_message query)) =
      ret (1, [(addr, enc_message (local_response query rrs))], c')"
proof (rule main_ok [OF assms(1-4,6,7)])
  fix srv assume srv: "main env [] = ret (Some (srv, [\<lparr>ra_fd = sys_socket (sys env), ra_tls = False\<rparr>]))"
    "holds_file (srv_db srv) es" "cache_rep (srv_cache srv) []"
  have "local_records (srv_db srv) [] ls (qtype q) (qclass q) = Some rrs"
    using file_local_records [OF srv(2) assms(10), of "[]"] assms(11) by (simp add: spec_find_def)
  moreover have "db_valid (srv_db srv)" using srv(2) by (simp add: holds_file_def relay_db_def)
  moreover have "length (spec_find (enc_name ls) (qtype q) (qclass q) []) \<le> ANCOUNT_MAX" by (simp add: spec_find_def)
  ultimately show ?thesis
    using srv(1) udp_local_ok [OF assms(5) srv(3) _ assms(8) file_known_addresses [OF srv(2) assms(10)] _ _ assms(9,12,13)]
    by blast
qed

definition sample_sys :: sys_results where
  "sample_sys = \<lparr>sys_socket = 3, sys_bind = (\<lambda>_. 0), sys_listen = 0, ssl_context = True, ssl_certificate = 1,
     ssl_private_key = 1\<rparr>"

definition sample_env :: environment where
  "sample_env = \<lparr>files = (\<lambda>_. Some sample_lines), stack = sample_buffers, first_node = 0, start_time = 100,
     thread_create = (\<lambda>_. 0), udp_port = 53, tls_port = 853, sys = sample_sys\<rparr>"

definition relay_query :: message where
  "relay_query = sample_query\<lparr>question := Some [Some \<lparr>qname = Some [2, 97, 98, 1, 99, 0], qtype = 1, qclass = 1\<rparr>]\<rparr>"

abbreviation (input) relay_question :: message_question where
  "relay_question \<equiv> \<lparr>qname = Some [2, 97, 98, 1, 99, 0], qtype = 1, qclass = 1\<rparr>"

abbreviation (input) relay_record :: resource_record where
  "relay_record \<equiv> relay_rr [1, 2, 3, 4] [[97, 98], [99]]"

lemma relay_sample:
  "file_addresses [sample_entry, sample_entry6] 1 [[97, 98], [99]] = [relay_record]" "\<not> blocked relay_record"
  "standard_query relay_query relay_question [[97, 98], [99]]" "plain_message relay_query"
  "length (enc_message relay_query) = 22" "length (enc_message (local_response relay_query [relay_record])) \<le> UDP_BUFFER_SIZE"
  by (simp add: file_addresses_def sample_spec_simps)
    (simp_all add: blocked_def relay_rr_def standard_query_def relay_query_def sample_query_def misc_QR_def misc_OPCODE_def
      enc_name_def enc_label_def db_name_def wf_lab_def nul_free_def plain_message_def sample_simps misc_TC_def
      enc_message_def enc_section_def section_items_def enc_question_def map_filter_simps local_response_def enc_rr_def)

lemma sample_environment:
  "buffers_ok (stack sample_env)" "files sample_env default_relay_file = Some sample_lines"
  "\<forall>i. thread_create sample_env i = 0" "sys_socket (sys sample_env) = 3" "0 \<le> sys_socket (sys sample_env)"
  "0 \<le> sys_bind (sys sample_env) (udp_port sample_env)"
  using sample_relay(2) by (simp_all add: sample_env_def sample_sys_def)

theorem relay_file_answered_witness:
  "\<exists>srv c'. main sample_env [] = ret (Some (srv, [\<lparr>ra_fd = 3, ra_tls = False\<rparr>])) \<and>
     udp_resolv_and_respond (sample_world 7) (srv_db srv) (srv_cache srv) (udp_args [9] (enc_message relay_query)) =
       ret (1, [([9], enc_message (local_response relay_query [relay_record]))], c')"
  unfolding sample_environment(4) [symmetric]
proof (rule relay_file_answered [OF sample_relay(1) sample_environment(1-3) fresh_sample sample_environment(5,6) relay_sample(3)])
qed (use relay_sample in simp_all)

text \<open>C1: from the command line to the last response. Started without options on a relay file of well-formed lines,
  the UDP server comes up; and from then on, in every interleaving of the receiving threads, the workers and the refresh
  thread, each accepted request is queued, in the hands of one worker or finished; the responses belong one to one to the finished
  jobs, each of which had an activation of its own; a response goes to the sender of the request of its activation and is made from
  that activation's own calls; and if the query of that activation asks for the A or AAAA records of a name of the file, the response has
  the records which the cache held for it at the activation's first call, or else those of the file, never a reply from outside. The
  requests are plain queries with one question, with at most 100 cached records for it, responses that fit their buffers and plain
  replies (\<open>machine_event_ok\<close>).\<close>

theorem started_server_serves:
  assumes "relay_file es lines" and "buffers_ok (stack env)" and "files env default_relay_file = Some lines"
    and "\<forall>i. thread_create env i = 0" and "0 \<le> sys_socket (sys env)" and "0 \<le> sys_bind (sys env) (udp_port env)"
  shows "\<exists>srv. main env [] = ret (Some (srv, [\<lparr>ra_fd = sys_socket (sys env), ra_tls = False\<rparr>])) \<and>
    (\<forall>evs out s. relay_run (srv_db srv) (running srv) evs out s \<and>
        all_ok (abstract_step (srv_db srv)) (machine_event_ok (srv_db srv)) ([], []) (job_events evs) \<longrightarrow>
      mset (accepted (pool_events evs)) =
        mset (ran (pool_events evs)) + in_flight (rl_pool s) + mset (queue_abs (pool_queue (rl_pool s))) \<and>
      ran (pool_events evs) = map (\<lambda>(k, j). Some j) (finished evs) \<and> distinct (map fst (finished evs)) \<and>
      list_all2 (serves (srv_db srv) es (job_events evs)) (finished evs) out)"
proof (rule main_ok [OF assms])
  fix srv assume srv: "main env [] = ret (Some (srv, [\<lparr>ra_fd = sys_socket (sys env), ra_tls = False\<rparr>]))"
    "holds_file (srv_db srv) es" "cache_rep (srv_cache srv) []" "running srv = relay_start (srv_cache srv)"
  have valid: "db_valid (srv_db srv)" using srv(2) by (simp add: holds_file_def relay_db_def)
  have "mset (accepted (pool_events evs)) =
        mset (ran (pool_events evs)) + in_flight (rl_pool s) + mset (queue_abs (pool_queue (rl_pool s))) \<and>
      ran (pool_events evs) = map (\<lambda>(k, j). Some j) (finished evs) \<and> distinct (map fst (finished evs)) \<and>
      list_all2 (serves (srv_db srv) es (job_events evs)) (finished evs) out"
    if run: "relay_run (srv_db srv) (running srv) evs out s"
      and ok: "all_ok (abstract_step (srv_db srv)) (machine_event_ok (srv_db srv)) ([], []) (job_events evs)" for evs out s
  proof -
    note run = run [unfolded srv(4)]
    note inv = relay_run_inv [OF run valid srv(3) ok, THEN conjunct2]
    have "list_all2 (serves (srv_db srv) es (job_events evs)) (finished evs) out"
      using inv [THEN conjunct1] by (rule list_all2_mono) (rule answers_serves [OF srv(2)])
    with inv relay_run_counts(2) [OF run] relay_run_finished [OF run] show ?thesis by blast
  qed
  with srv(1) show ?thesis by blast
qed

definition listed_arrival :: arrival where
  "listed_arrival = \<lparr>ar_request = Udp_request (udp_args [9] (enc_message relay_query)), ar_query = relay_query,
     ar_question = relay_question, ar_labels = [[97, 98], [99]]\<rparr>"

definition listed_job :: dns_job where
  "listed_job = \<lparr>job_fun = Udp_resolv_and_respond, job_arg = udp_args [9] (enc_message relay_query)\<rparr>"

definition listed_events :: "relay_event list" where
  "listed_events = [Received (Datagram [9] (enc_message relay_query)) 1, Worker (Pulled (Some listed_job)), Worker Silent,
     Started 0 listed_arrival, Called 0 0 (sample_world 7) None, Returned 0 0 (sample_world 7) None listed_job]"

lemma listed_sample:
  assumes "holds_file db [sample_entry, sample_entry6]"
  shows "arrival_ok db listed_arrival" "known_records db [] listed_arrival = Some [relay_record]"
    "cached_records [] listed_arrival = []"
proof -
  show "cached_records [] listed_arrival = []" by (simp add: cached_records_def spec_find_def)
  moreover have "listed [sample_entry, sample_entry6] listed_arrival" using relay_sample(1) by (simp add: listed_def listed_arrival_def)
  ultimately show "known_records db [] listed_arrival = Some [relay_record]"
    using listed_known [OF assms, of listed_arrival "[]"] relay_sample(1,2) by (simp add: file_records_def listed_arrival_def)
  show "arrival_ok db listed_arrival"
    using relay_sample(1,3-5) file_known_addresses [OF assms, of 1 "[[97, 98], [99]]"]
    by (simp add: arrival_ok_def listed_arrival_def udp_args_def)
qed

lemma listed_job: "udp_job (Datagram [9] (enc_message relay_query)) = Some listed_job"
  using relay_sample(5) by (simp add: create_job_def listed_job_def)

lemma listed_events_ok:
  assumes "holds_file db [sample_entry, sample_entry6]"
  shows "all_ok (abstract_step db) (machine_event_ok db) ([], []) (job_events listed_events)"
  using listed_sample [OF assms] relay_sample(6) fresh_sample
  by (simp add: listed_events_def job_events_def slot_def) (simp add: listed_arrival_def)

lemma listed_run:
  assumes "holds_file db [sample_entry, sample_entry6]" and "cache_rep c []"
  shows "\<exists>s. relay_run db (relay_start c) listed_events
    [Sent_to [9] (enc_message (local_response relay_query [relay_record]))] s"
proof -
  let ?ar = listed_arrival and ?w = "sample_world 7" and ?m = "local_response relay_query [relay_record]"
  note known = listed_sample [OF assms(1)]
  have valid: "db_valid db" using assms(1) by (simp add: holds_file_def relay_db_def)
  have "works_on listed_job (ar_request ?ar)" by (simp add: listed_arrival_def listed_job_def)
  from first_started [OF listed_job this known(1) valid assms(2)] obtain s4 where s4:
    "relay_run db (relay_start c) (take 4 listed_events) [] s4" "relay_inv db s4 ([], [Some (Looking ?ar)])"
    "0 < length (threads (rl_pool s4)) \<and> threads (rl_pool s4) ! 0 = Working (Some listed_job) \<and> rl_slot s4 0 = Some 0"
    by (auto simp: listed_events_def)
  have ok: "machine_event_ok db ([], [Some (Looking ?ar)]) (Turn 0 ?w None)"
    "abstract_step db ([], [Some (Looking ?ar)]) (Turn 0 ?w None) = ([], [], [Some (Replying ?ar ?m [])])"
    using known relay_sample(6) fresh_sample by (simp_all add: slot_def) (simp_all add: listed_arrival_def)
  from relay_call(1) [OF s4 ok] obtain s5 where s5:
    "relay_run db (relay_start c) (take 5 listed_events) [] s5" "relay_inv db s5 ([], [Some (Replying ?ar ?m [])])"
    "0 < length (threads (rl_pool s5)) \<and> threads (rl_pool s5) ! 0 = Working (Some listed_job) \<and> rl_slot s5 0 = Some 0"
    by (auto simp: listed_events_def slot_def)
  have "machine_event_ok db ([], [Some (Replying ?ar ?m [])]) (Turn 0 ?w None)"
    "abstract_step db ([], [Some (Replying ?ar ?m [])]) (Turn 0 ?w None) = ([Sent_to [9] (enc_message ?m)], [], [None])"
    using fresh_sample by (simp_all add: slot_def) (simp add: listed_arrival_def udp_args_def)
  from relay_call(2) [OF s5 this] show ?thesis by (auto simp: listed_events_def slot_def)
qed

theorem started_server_serves_witness:
  "\<exists>srv s. main sample_env [] = ret (Some (srv, [\<lparr>ra_fd = 3, ra_tls = False\<rparr>])) \<and>
     relay_run (srv_db srv) (running srv) listed_events
       [Sent_to [9] (enc_message (local_response relay_query [relay_record]))] s \<and>
     in_flight (rl_pool s) = {#} \<and> listed [sample_entry, sample_entry6] (arrivals (job_events listed_events) ! 0) \<and>
     serves (srv_db srv) [sample_entry, sample_entry6] (job_events listed_events) (0, listed_job)
       (Sent_to [9] (enc_message (local_response relay_query [relay_record])))"
proof (rule main_ok [OF sample_relay(1) sample_environment(1-3,5,6)])
  fix srv assume srv: "main sample_env [] = ret (Some (srv, [\<lparr>ra_fd = sys_socket (sys sample_env), ra_tls = False\<rparr>]))"
    "holds_file (srv_db srv) [sample_entry, sample_entry6]" "cache_rep (srv_cache srv) []" "running srv = relay_start (srv_cache srv)"
  from listed_run [OF srv(2,3)] obtain s where s: "relay_run (srv_db srv) (running srv) listed_events
      [Sent_to [9] (enc_message (local_response relay_query [relay_record]))] s" unfolding srv(4) by blast
  have evs: "accepted (pool_events listed_events) = [Some listed_job]" "ran (pool_events listed_events) = [Some listed_job]"
    "finished listed_events = [(0, listed_job)]" "arrivals (job_events listed_events) = [listed_arrival]"
    using listed_job
    by (simp_all add: listed_events_def pool_events_def finished_def job_events_def accepted_def ran_def del: udp_job.simps)
  have lst: "listed [sample_entry, sample_entry6] listed_arrival" using relay_sample(1) by (simp add: listed_def listed_arrival_def)
  from started_server_serves [OF sample_relay(1) sample_environment(1-3,5,6)] srv(1) s listed_events_ok [OF srv(2)]
  have "in_flight (rl_pool s) = {#} \<and> list_all2 (serves (srv_db srv) [sample_entry, sample_entry6] (job_events listed_events))
      [(0, listed_job)] [Sent_to [9] (enc_message (local_response relay_query [relay_record]))]"
    by (fastforce simp: evs(1-3))
  with srv(1) s sample_environment(4) lst evs(4) show ?thesis by auto
qed

text \<open>C6: asking again: after a query was forwarded and the reply held one matching record, the same question is
  answered from the cache with that record, whatever the external resolver would say by then.\<close>

theorem forwarded_answer_is_cached:
  assumes "fresh_alloc (alloc w)" and "cache_rep c es" and "db_valid db" and "standard_query query q ls"
    and "known_addresses db ls (qtype q)" and "local_records db es ls (qtype q) (qclass q) = None"
    and "forwardable w query" and "length sendbuf < 2 ^ 31" and "fresh_alloc (alloc w')"
    and "fits sendbuf p (length (enc_message (local_response query [rr])))"
    and "matches (enc_name ls) (qtype q) (qclass q) rr"
  shows "\<exists>sent. edns_version (set_id (new_id (net w)) query) sent \<and>
    (\<forall>m. plain_message m \<and> msg_id (header m) = new_id (net w) \<and> length (enc_message m) \<le> CLIENT_BUFFER_SIZE \<and>
         fits sendbuf p (length (enc_message m)) \<and> exchange (net w) (enc_message sent) = Some (enc_message m) \<and>
         answer m = Some [Some rr] \<longrightarrow>
       (\<exists>c' c''. resolv_handle w db c sendbuf p 0 query =
            ret (answered sendbuf p (enc_message (set_id (msg_id (header query)) m))
              (set_id (msg_id (header query)) sent) c') \<and>
          resolv_handle w' db c' sendbuf p 0 query =
            ret (answered sendbuf p (enc_message (local_response query [rr])) query c'')))"
proof -
  from resolv_reply [OF assms(1-8), of p 0] obtain sent where
    sent: "edns_version (set_id (new_id (net w)) query) sent" and
    reply: "\<forall>m. plain_message m \<and> msg_id (header m) = new_id (net w) \<and> length (enc_message m) \<le> CLIENT_BUFFER_SIZE \<and>
         fits sendbuf p (length (enc_message m)) \<and> exchange (net w) (enc_message sent) = Some (enc_message m) \<longrightarrow>
       (\<exists>c'. cache_rep c' (fold (spec_put (later w)) (section_items (answer m)) es) \<and>
          resolv_handle w db c sendbuf p 0 query =
            ret (answered sendbuf p (enc_message (set_id (msg_id (header query)) m))
              (set_id (msg_id (header query)) sent) c'))"
    by (elim exE conjE)
  let ?es = "spec_put (later w) rr es"
  have "spec_find (enc_name ls) (qtype q) (qclass q) es = []"
    using assms(6) by (auto simp: local_records_def split: if_splits)
  then have find: "spec_find (enc_name ls) (qtype q) (qclass q) ?es = [rr]" using assms(11) by (rule spec_find_put)
  then have loc: "local_records db ?es ls (qtype q) (qclass q) = Some [rr]" by (simp add: local_records_def)
  show ?thesis
  proof (intro exI [of _ sent] conjI sent allI impI)
    fix m assume m: "plain_message m \<and> msg_id (header m) = new_id (net w) \<and> length (enc_message m) \<le> CLIENT_BUFFER_SIZE \<and>
         fits sendbuf p (length (enc_message m)) \<and> exchange (net w) (enc_message sent) = Some (enc_message m) \<and>
         answer m = Some [Some rr]"
    then have "section_items (answer m) = [rr]" by (simp add: section_items_def map_filter_simps)
    with m reply [rule_format, of m] obtain c' where c': "cache_rep c' ?es"
      "resolv_handle w db c sendbuf p 0 query = ret (answered sendbuf p (enc_message (set_id (msg_id (header query)) m))
         (set_id (msg_id (header query)) sent) c')" by auto
    from resolv_local_ok [OF assms(9) c'(1) assms(3-5) _ loc assms(10,8), of 0] find obtain c'' where
      "resolv_handle w' db c' sendbuf p 0 query = ret (answered sendbuf p (enc_message (local_response query [rr])) query c'')"
      by auto
    with c'(2) show "\<exists>c' c''. resolv_handle w db c sendbuf p 0 query =
            ret (answered sendbuf p (enc_message (set_id (msg_id (header query)) m))
              (set_id (msg_id (header query)) sent) c') \<and>
          resolv_handle w' db c' sendbuf p 0 query =
            ret (answered sendbuf p (enc_message (local_response query [rr])) query c'')" by blast
  qed
qed

theorem forwarded_answer_is_cached_witness:
  "\<exists>c sent c' c''. cache_rep c [] \<and>
     resolv_handle (sample_world 7) sample_db c (replicate 40 0) 0 0 sample_query =
       ret (answered (replicate 40 0) 0 (enc_message (set_id 5 sample_message)) (set_id 5 sent) c') \<and>
     resolv_handle (sample_world 8) sample_db c' (replicate 40 0) 0 0 sample_query =
       ret (answered (replicate 40 0) 0 (enc_message (local_response sample_query [sample_rr])) sample_query c'')"
proof -
  obtain c where c: "cache_rep c []" using init_cache_ok [of 0 100] by blast
  have "matches (enc_name [[97]]) 1 1 sample_rr" by (simp add: matches_def sample_rr_def enc_name_sample)
  moreover have "msg_id (header sample_message) = 7" "answer sample_message = Some [Some sample_rr]"
    by (simp_all add: sample_message_def)
  ultimately show ?thesis
    using c forwarded_answer_is_cached [OF fresh_sample c sample_db_ok(1) standard_sample sample_db_ok(3)
        local_none_sample forwardable_sample _ fresh_sample, of "replicate 40 0" 0 sample_rr 7 8]
      plain_sample_message length_sample
    by (fastforce simp: sample_query_ok fits_def sample_world_def sample_net_def length_local_sample)
qed

end
